theory Spec2Isabelle
  imports Complex_Main "HOL-Library.Word"
begin

section \<open>Aggregation hash sets (be/src/exec/vectorized/aggregate/agg_hash_set.h)\<close>

subsection \<open>Key columns\<close>

text \<open>
  Modelled from the spec: the column classes (column/*.h) are not among the sources.
  A key column is a plain column of values, a nullable column (a null bitmap and a data
  column of the same length), or a constant null column, the only kind for which
  \<^verbatim>\<open>only_null()\<close> holds. \<^verbatim>\<open>has_null()\<close> says that the null bitmap has a set entry.
\<close>

datatype 'a key_column =
    PlainColumn "'a list"
  | NullableColumn "bool list" "'a list"
  | OnlyNullColumn nat

fun only_null :: "'a key_column \<Rightarrow> bool" where
  "only_null (OnlyNullColumn n) = True"
| "only_null (PlainColumn ks) = False"
| "only_null (NullableColumn ns ks) = False"

fun is_nullable :: "'a key_column \<Rightarrow> bool" where
  "is_nullable (PlainColumn ks) = False"
| "is_nullable (NullableColumn ns ks) = True"
| "is_nullable (OnlyNullColumn n) = False"

fun column_size :: "'a key_column \<Rightarrow> nat" where
  "column_size (PlainColumn ks) = length ks"
| "column_size (NullableColumn ns ks) = length ns"
| "column_size (OnlyNullColumn n) = n"

definition has_null :: "bool list \<Rightarrow> bool" where
  "has_null ns = (True \<in> set ns)"

text \<open>Row \<open>i\<close> of a key column is a null row.\<close>

fun row_is_null :: "'a key_column \<Rightarrow> nat \<Rightarrow> bool" where
  "row_is_null (PlainColumn ks) i = False"
| "row_is_null (NullableColumn ns ks) i = (ns ! i)"
| "row_is_null (OnlyNullColumn n) i = True"

subsection \<open>The hash sets\<close>

text \<open>
  \<^verbatim>\<open>phmap::flat_hash_set\<close> is a set of keys. The one-number-key and one-string-key
  structs hold the set and a result vector; the nullable structs add \<^verbatim>\<open>has_null_key\<close>;
  the serialized-key struct adds the scratch buffer, one slot of \<^verbatim>\<open>max_one_row_size\<close>
  bytes per row, and the number of bytes written to each slot.
\<close>

record ('k, 'r) agg_hash_set =
  hash_set :: "'k set"
  results :: "'r list"

record ('k, 'r) nullable_agg_hash_set = "('k, 'r) agg_hash_set" +
  has_null_key :: bool

type_synonym slice = "8 word list"

text \<open>\<^verbatim>\<open>TSliceWithHash\<close>: the bytes of a slice and its stored hash value.\<close>

type_synonym slice_with_hash = "slice \<times> nat"

record serialized_agg_hash_set = "(slice_with_hash, slice) agg_hash_set" +
  slice_sizes :: "nat list"
  max_one_row_size :: nat
  buffer :: "slice list"

text \<open>
  \<^verbatim>\<open>hash_set.contains(key)\<close> for a \<^verbatim>\<open>Slice\<close> key: the key is converted by the
  constructor \<^verbatim>\<open>TSliceWithHash(const Slice&)\<close>, which computes the hash with the functor
  \<open>H\<close> (\<^verbatim>\<open>SliceHashWithSeed\<close>), and \<^verbatim>\<open>TEqualOnSliceWithHash\<close> compares the hash values
  and then the bytes.
\<close>

definition TSliceWithHash :: "(slice \<Rightarrow> nat) \<Rightarrow> slice \<Rightarrow> slice_with_hash" where
  "TSliceWithHash H src = (src, H src)"

definition TEqualOnSliceWithHash :: "slice_with_hash \<Rightarrow> slice_with_hash \<Rightarrow> bool" where
  "TEqualOnSliceWithHash x y = (snd x = snd y \<and> fst x = fst y)"

definition slice_set_contains :: "(slice \<Rightarrow> nat) \<Rightarrow> slice_with_hash set \<Rightarrow> slice \<Rightarrow> bool" where
  "slice_set_contains H S key = (TSliceWithHash H key \<in> S)"

text \<open>
  The invariant of the string and serialized sets: the stored hash of every key is the
  hash of its bytes.
\<close>

definition hash_consistent :: "(slice \<Rightarrow> nat) \<Rightarrow> slice_with_hash set \<Rightarrow> bool" where
  "hash_consistent H S = (\<forall>e\<in>S. snd e = H (fst e))"

subsection \<open>The probe-only overloads of build-set\<close>

text \<open>\<^verbatim>\<open>std::vector::resize(n)\<close> and \<^verbatim>\<open>assign(n, 0)\<close> on the vector of flags.\<close>

definition vec_resize :: "nat \<Rightarrow> 8 word list \<Rightarrow> 8 word list" where
  "vec_resize n v = take n v @ replicate (n - length v) 0"

definition vec_assign :: "nat \<Rightarrow> 8 word \<Rightarrow> 8 word list" where
  "vec_assign n x = replicate n x"

text \<open>
  \<^verbatim>\<open>AggHashSetOfOneNumberKey::build_set(chunk_size, key_columns, not_founds)\<close>.
  The result is \<open>None\<close> where the C++ has no defined behaviour: the key column is not
  the plain column the \<^verbatim>\<open>DCHECK\<close> asks for, or \<^verbatim>\<open>keys[i]\<close> is read past its end.
\<close>

definition one_number_key_build_set ::
  "nat \<Rightarrow> 'a key_column \<Rightarrow> 8 word list \<Rightarrow> ('a, 'a) agg_hash_set
     \<Rightarrow> (('a, 'a) agg_hash_set \<times> 8 word list) option" where
  "one_number_key_build_set chunk_size key_column not_founds s =
     (case key_column of
        PlainColumn keys \<Rightarrow>
          if chunk_size \<le> length keys
          then Some (s, fold (\<lambda>i nf. nf[i := of_bool (\<not> keys ! i \<in> hash_set s)])
                          [0..<chunk_size] (vec_resize chunk_size not_founds))
          else None
      | NullableColumn ns ks \<Rightarrow> None
      | OnlyNullColumn n \<Rightarrow> None)"

text \<open>
  The body of the loop over the rows of a nullable column that has a null: a null row
  sets \<^verbatim>\<open>has_null_key\<close> and leaves the flag of the row alone, any other row is looked
  up in the set by \<open>lookup\<close>.
\<close>

definition nullable_row ::
  "bool list \<Rightarrow> (nat \<Rightarrow> 'k set \<Rightarrow> 8 word list \<Rightarrow> 8 word list) \<Rightarrow> nat
     \<Rightarrow> ('k, 'r) nullable_agg_hash_set \<times> 8 word list
     \<Rightarrow> ('k, 'r) nullable_agg_hash_set \<times> 8 word list" where
  "nullable_row nulls lookup i = (\<lambda>(s, nf).
     if nulls ! i then (s\<lparr>has_null_key := True\<rparr>, nf) else (s, lookup i (hash_set s) nf))"

text \<open>\<^verbatim>\<open>AggHashSetOfOneNullableNumberKey::build_set(chunk_size, key_columns, not_founds)\<close>.\<close>

definition one_nullable_number_key_build_set ::
  "nat \<Rightarrow> 'a key_column \<Rightarrow> 8 word list \<Rightarrow> ('a, 'a) nullable_agg_hash_set
     \<Rightarrow> (('a, 'a) nullable_agg_hash_set \<times> 8 word list) option" where
  "one_nullable_number_key_build_set chunk_size key_column not_founds s =
     (let nf0 = vec_assign chunk_size 0 in
      case key_column of
        OnlyNullColumn n \<Rightarrow> Some (s\<lparr>has_null_key := True\<rparr>, nf0)
      | PlainColumn ks \<Rightarrow> None
      | NullableColumn nulls keys \<Rightarrow>
          if \<not> (chunk_size \<le> length keys \<and> chunk_size \<le> length nulls) then None
          else if has_null nulls
          then Some (fold (nullable_row nulls (\<lambda>i S nf. nf[i := of_bool (\<not> keys ! i \<in> S)]))
                      [0..<chunk_size] (s, nf0))
          else Some (s, fold (\<lambda>i nf. nf[i := of_bool (\<not> keys ! i \<in> hash_set s)])
                          [0..<chunk_size] nf0))"

text \<open>\<^verbatim>\<open>AggHashSetOfOneStringKey::build_set(chunk_size, key_columns, not_founds)\<close>.\<close>

definition one_string_key_build_set ::
  "(slice \<Rightarrow> nat) \<Rightarrow> nat \<Rightarrow> slice key_column \<Rightarrow> 8 word list
     \<Rightarrow> (slice_with_hash, slice) agg_hash_set
     \<Rightarrow> ((slice_with_hash, slice) agg_hash_set \<times> 8 word list) option" where
  "one_string_key_build_set H chunk_size key_column not_founds s =
     (case key_column of
        PlainColumn slices \<Rightarrow>
          if chunk_size \<le> length slices
          then Some (s, fold (\<lambda>i nf. nf[i := of_bool (\<not> slice_set_contains H (hash_set s) (slices ! i))])
                          [0..<chunk_size] (vec_assign chunk_size 0))
          else None
      | NullableColumn ns ks \<Rightarrow> None
      | OnlyNullColumn n \<Rightarrow> None)"

text \<open>
  \<^verbatim>\<open>AggHashSetOfOneNullableStringKey::build_set(chunk_size, key_columns, not_founds)\<close>
  with its helper \<^verbatim>\<open>_handle_data_key_column(data_column, row, not_founds)\<close>.
\<close>

definition handle_data_key_column ::
  "(slice \<Rightarrow> nat) \<Rightarrow> slice_with_hash set \<Rightarrow> slice list \<Rightarrow> nat \<Rightarrow> 8 word list \<Rightarrow> 8 word list" where
  "handle_data_key_column H S data_column row not_founds =
     not_founds[row := of_bool (\<not> slice_set_contains H S (data_column ! row))]"

definition one_nullable_string_key_build_set ::
  "(slice \<Rightarrow> nat) \<Rightarrow> nat \<Rightarrow> slice key_column \<Rightarrow> 8 word list
     \<Rightarrow> (slice_with_hash, slice) nullable_agg_hash_set
     \<Rightarrow> ((slice_with_hash, slice) nullable_agg_hash_set \<times> 8 word list) option" where
  "one_nullable_string_key_build_set H chunk_size key_column not_founds s =
     (let nf0 = vec_assign chunk_size 0 in
      case key_column of
        OnlyNullColumn n \<Rightarrow> Some (s\<lparr>has_null_key := True\<rparr>, nf0)
      | PlainColumn ks \<Rightarrow> None
      | NullableColumn nulls slices \<Rightarrow>
          if \<not> (chunk_size \<le> length slices \<and> chunk_size \<le> length nulls) then None
          else if has_null nulls
          then Some (fold (nullable_row nulls (\<lambda>i S nf. handle_data_key_column H S slices i nf))
                      [0..<chunk_size] (s, nf0))
          else Some (s, fold (\<lambda>i nf. handle_data_key_column H (hash_set s) slices i nf)
                          [0..<chunk_size] nf0))"

subsection \<open>The serialized-key set\<close>

text \<open>
  Modelled from the spec: \<^verbatim>\<open>Column::max_one_element_serialize_size\<close> and
  \<^verbatim>\<open>Column::serialize_batch\<close> are not among the sources. A key column is given by the
  bound it reports and by the serialized bytes of each of its rows;
  \<^verbatim>\<open>serialize_batch(buffer, slice_sizes, chunk_size, max_one_row_size)\<close> writes the bytes
  of row \<open>i\<close> into slot \<open>i\<close> of the buffer at offset \<^verbatim>\<open>slice_sizes[i]\<close> and adds their
  number to \<^verbatim>\<open>slice_sizes[i]\<close>. The buffer of \<^verbatim>\<open>max_one_row_size * vector_chunk_size\<close>
  bytes is a list of \<^verbatim>\<open>vector_chunk_size\<close> slots; a write that does not fit its slot, or
  that addresses a row the buffer or the column does not have, has no defined result.
\<close>

record ser_column =
  max_one_element_serialize_size :: nat
  serialized_rows :: "slice list"

fun fold_option :: "('a \<Rightarrow> 's \<Rightarrow> 's option) \<Rightarrow> 'a list \<Rightarrow> 's \<Rightarrow> 's option" where
  "fold_option f [] s = Some s"
| "fold_option f (x # xs) s = (case f x s of None \<Rightarrow> None | Some s' \<Rightarrow> fold_option f xs s')"

definition serialize_row ::
  "ser_column \<Rightarrow> nat \<Rightarrow> slice list \<times> nat list \<Rightarrow> (slice list \<times> nat list) option" where
  "serialize_row c i = (\<lambda>(buf, sizes).
     if i < length buf \<and> i < length sizes \<and> i < length (serialized_rows c)
        \<and> sizes ! i + length (serialized_rows c ! i) \<le> length (buf ! i)
     then Some (buf[i := take (sizes ! i) (buf ! i) @ serialized_rows c ! i
                          @ drop (sizes ! i + length (serialized_rows c ! i)) (buf ! i)],
                sizes[i := sizes ! i + length (serialized_rows c ! i)])
     else None)"

definition serialize_batch ::
  "ser_column \<Rightarrow> nat \<Rightarrow> slice list \<times> nat list \<Rightarrow> (slice list \<times> nat list) option" where
  "serialize_batch c chunk_size = fold_option (serialize_row c) [0..<chunk_size]"

definition get_max_serialize_size :: "ser_column list \<Rightarrow> nat" where
  "get_max_serialize_size key_columns =
     fold (\<lambda>key_column max_size. max_size + max_one_element_serialize_size key_column) key_columns 0"

text \<open>
  \<^verbatim>\<open>AggHashSetOfSerializedKey::build_set(chunk_size, key_columns, not_founds)\<close>;
  \<open>vector_chunk_size\<close> is \<^verbatim>\<open>config::vector_chunk_size\<close>. The bytes of a newly allocated
  buffer are not specified by the C++; they are zero here, and only bytes written by
  \<^verbatim>\<open>serialize_batch\<close> are read.
\<close>

definition serialized_key_build_set ::
  "(slice \<Rightarrow> nat) \<Rightarrow> nat \<Rightarrow> nat \<Rightarrow> ser_column list \<Rightarrow> 8 word list
     \<Rightarrow> serialized_agg_hash_set \<Rightarrow> (serialized_agg_hash_set \<times> 8 word list) option" where
  "serialized_key_build_set H vector_chunk_size chunk_size key_columns not_founds s =
     (let sizes0 = replicate vector_chunk_size 0;
          cur_max_one_row_size = get_max_serialize_size key_columns;
          s1 = (if cur_max_one_row_size > max_one_row_size s
                then s\<lparr>max_one_row_size := cur_max_one_row_size,
                       buffer := replicate vector_chunk_size (replicate cur_max_one_row_size 0)\<rparr>
                else s)
      in case fold_option (\<lambda>key_column. serialize_batch key_column chunk_size) key_columns
                (buffer s1, sizes0) of
           None \<Rightarrow> None
         | Some (buf, sizes) \<Rightarrow>
             if chunk_size \<le> length buf \<and> chunk_size \<le> length sizes
             then Some (s1\<lparr>buffer := buf, slice_sizes := sizes\<rparr>,
                        fold (\<lambda>i nf. nf[i := of_bool (\<not> slice_set_contains H (hash_set s1)
                                                        (take (sizes ! i) (buf ! i)))])
                          [0..<chunk_size] (vec_assign chunk_size 0))
             else None)"

text \<open>The key of row \<open>i\<close>: the serialized bytes of the row in every key column, in order.\<close>

definition serialized_key :: "ser_column list \<Rightarrow> nat \<Rightarrow> slice" where
  "serialized_key key_columns i = concat (map (\<lambda>c. serialized_rows c ! i) key_columns)"

text \<open>
  What the constructor and every call establish: the buffer has one slot per row of a
  chunk, each of \<^verbatim>\<open>max_one_row_size\<close> bytes.
\<close>

definition buffer_ok :: "nat \<Rightarrow> serialized_agg_hash_set \<Rightarrow> bool" where
  "buffer_ok vector_chunk_size s =
     (length (buffer s) = vector_chunk_size
      \<and> list_all (\<lambda>slot. length slot = max_one_row_size s) (buffer s))"

text \<open>A key column has at least \<open>n\<close> rows, none longer than the bound it reports.\<close>

definition column_ok :: "nat \<Rightarrow> ser_column \<Rightarrow> bool" where
  "column_ok n c =
     (n \<le> length (serialized_rows c)
      \<and> list_all (\<lambda>r. length r \<le> max_one_element_serialize_size c) (take n (serialized_rows c)))"

subsection \<open>Rows, keys and the inputs the overloads accept\<close>

text \<open>The key of row \<open>i\<close> of a one-column key: \<open>None\<close> for a null row.\<close>

fun row_key :: "'a key_column \<Rightarrow> nat \<Rightarrow> 'a option" where
  "row_key (PlainColumn ks) i = Some (ks ! i)"
| "row_key (NullableColumn ns ks) i = (if ns ! i then None else Some (ks ! i))"
| "row_key (OnlyNullColumn n) i = None"

text \<open>
  A key is absent from a nullable set: a null key when \<^verbatim>\<open>has_null_key\<close> is not set, any
  other key when the hash set does not hold it.
\<close>

definition key_absent :: "'a option \<Rightarrow> ('a, 'r) nullable_agg_hash_set \<Rightarrow> bool" where
  "key_absent key s = (case key of None \<Rightarrow> \<not> has_null_key s | Some k \<Rightarrow> \<not> k \<in> hash_set s)"

definition plain_key_column_ok :: "nat \<Rightarrow> 'a key_column \<Rightarrow> bool" where
  "plain_key_column_ok chunk_size key_column =
     (case key_column of
        PlainColumn keys \<Rightarrow> chunk_size \<le> length keys
      | NullableColumn nulls keys \<Rightarrow> False
      | OnlyNullColumn n \<Rightarrow> False)"

definition nullable_key_column_ok :: "nat \<Rightarrow> 'a key_column \<Rightarrow> bool" where
  "nullable_key_column_ok chunk_size key_column =
     (case key_column of
        OnlyNullColumn n \<Rightarrow> True
      | NullableColumn nulls keys \<Rightarrow> chunk_size \<le> length keys \<and> chunk_size \<le> length nulls
      | PlainColumn ks \<Rightarrow> False)"

subsection \<open>Loops over the rows of a chunk\<close>

lemma fold_update_length:
  "length (fold (\<lambda>i nf. nf[i := f i]) xs nf) = length nf"
  by (induction xs arbitrary: nf) auto

lemma fold_update_nth:
  "k \<le> length nf \<Longrightarrow> j < length nf \<Longrightarrow>
     fold (\<lambda>i nf. nf[i := f i]) [0..<k] nf ! j = (if j < k then f j else nf ! j)"
proof (induction k)
  case 0
  then show ?case by simp
next
  case (Suc k)
  then show ?case
    by (auto simp: fold_update_length nth_list_update less_Suc_eq)
qed

lemma nullable_row_simps:
  "nullable_row nulls (\<lambda>i S nf. nf[i := g i S]) i (s, nf) =
     (if nulls ! i then (s\<lparr>has_null_key := True\<rparr>, nf) else (s, nf[i := g i (hash_set s)]))"
  by (simp add: nullable_row_def)

lemma fold_nullable_row:
  "k \<le> length nf \<Longrightarrow>
   fold (nullable_row nulls (\<lambda>i S nf. nf[i := g i S])) [0..<k] (s, nf) =
     ((if \<exists>i<k. nulls ! i then s\<lparr>has_null_key := True\<rparr> else s),
      map (\<lambda>j. if j < k \<and> \<not> nulls ! j then g j (hash_set s) else nf ! j) [0..<length nf])"
proof (induction k)
  case 0
  then show ?case by (simp add: map_nth)
next
  case (Suc k)
  let ?step = "nullable_row nulls (\<lambda>i S nf. nf[i := g i S])"
  have k: "k \<le> length nf" "k < length nf" using Suc.prems by auto
  have "fold ?step [0..<Suc k] (s, nf) = ?step k (fold ?step [0..<k] (s, nf))"
    by simp
  also have "\<dots> = ?step k ((if \<exists>i<k. nulls ! i then s\<lparr>has_null_key := True\<rparr> else s),
      map (\<lambda>j. if j < k \<and> \<not> nulls ! j then g j (hash_set s) else nf ! j) [0..<length nf])"
    by (simp only: Suc.IH [OF k(1)])
  also have "\<dots> = ((if \<exists>i<Suc k. nulls ! i then s\<lparr>has_null_key := True\<rparr> else s),
      map (\<lambda>j. if j < Suc k \<and> \<not> nulls ! j then g j (hash_set s) else nf ! j) [0..<length nf])"
  proof (cases "nulls ! k")
    case True
    have "(\<lambda>j. if j < k \<and> \<not> nulls ! j then g j (hash_set s) else nf ! j) =
          (\<lambda>j. if j < Suc k \<and> \<not> nulls ! j then g j (hash_set s) else nf ! j)"
      using True by (auto simp: less_Suc_eq)
    moreover have "(\<exists>i<Suc k. nulls ! i)" using True by blast
    ultimately show ?thesis using True
      by (simp add: nullable_row_simps)
  next
    case False
    have ex: "(\<exists>i<Suc k. nulls ! i) = (\<exists>i<k. nulls ! i)"
      using False by (auto simp: less_Suc_eq)
    have "(map (\<lambda>j. if j < k \<and> \<not> nulls ! j then g j (hash_set s) else nf ! j) [0..<length nf])
            [k := g k (hash_set s)] =
          map (\<lambda>j. if j < Suc k \<and> \<not> nulls ! j then g j (hash_set s) else nf ! j) [0..<length nf]"
      using False k(2)
      by (intro nth_equalityI) (auto simp: nth_list_update less_Suc_eq)
    then show ?thesis using False
      by (simp add: nullable_row_simps ex)
  qed
  finally show ?case .
qed

lemma no_null_rows: "n \<le> length nulls \<Longrightarrow> \<not> has_null nulls \<Longrightarrow> i < n \<Longrightarrow> \<not> nulls ! i"
  by (auto simp: has_null_def in_set_conv_nth)

lemma slice_set_contains_iff:
  "hash_consistent H S \<Longrightarrow> slice_set_contains H S k = (k \<in> fst ` S)"
  by (force simp: hash_consistent_def slice_set_contains_def TSliceWithHash_def)

subsection \<open>The one-column sets\<close>

lemma one_number_key_probe:
  assumes "plain_key_column_ok n col"
  shows "\<exists>nf'. one_number_key_build_set n col nf s = Some (s, nf') \<and> length nf' = n
     \<and> (\<forall>i<n. (nf' ! i = 1) = (\<exists>k. row_key col i = Some k \<and> \<not> k \<in> hash_set s))"
proof (cases col)
  case (PlainColumn keys)
  then have "n \<le> length keys" using assms by (simp add: plain_key_column_ok_def)
  then show ?thesis using PlainColumn
    by (simp add: one_number_key_build_set_def vec_resize_def fold_update_length fold_update_nth)
qed (use assms in \<open>simp_all add: plain_key_column_ok_def\<close>)

lemma one_string_key_probe:
  assumes "plain_key_column_ok n col" and "hash_consistent H (hash_set s)"
  shows "\<exists>nf'. one_string_key_build_set H n col nf s = Some (s, nf') \<and> length nf' = n
     \<and> (\<forall>i<n. (nf' ! i = 1) = (\<exists>k. row_key col i = Some k \<and> \<not> k \<in> fst ` hash_set s))"
proof (cases col)
  case (PlainColumn keys)
  then have "n \<le> length keys" using assms by (simp add: plain_key_column_ok_def)
  then show ?thesis using PlainColumn assms(2)
    by (simp add: one_string_key_build_set_def vec_assign_def fold_update_length fold_update_nth
        slice_set_contains_iff)
qed (use assms in \<open>simp_all add: plain_key_column_ok_def\<close>)

lemma one_nullable_number_key_probe:
  assumes "nullable_key_column_ok n col"
  shows "\<exists>s' nf'. one_nullable_number_key_build_set n col nf s = Some (s', nf')
     \<and> hash_set s' = hash_set s \<and> results s' = results s \<and> length nf' = n
     \<and> has_null_key s' = (has_null_key s \<or> only_null col \<or> (\<exists>i<n. row_is_null col i))
     \<and> (\<forall>i<n. nf' ! i = (case row_key col i of None \<Rightarrow> 0
                                                | Some k \<Rightarrow> of_bool (\<not> k \<in> hash_set s)))"
proof (cases col)
  case (PlainColumn ks)
  then show ?thesis using assms by (simp add: nullable_key_column_ok_def)
next
  case (OnlyNullColumn m)
  then show ?thesis
    by (simp add: one_nullable_number_key_build_set_def vec_assign_def)
next
  case (NullableColumn nulls keys)
  have len: "n \<le> length keys" "n \<le> length nulls"
    using assms NullableColumn by (auto simp: nullable_key_column_ok_def)
  show ?thesis
  proof (cases "has_null nulls")
    case True
    then show ?thesis using len NullableColumn
      by (auto simp: one_nullable_number_key_build_set_def vec_assign_def fold_nullable_row)
  next
    case False
    then show ?thesis using len NullableColumn no_null_rows [OF len(2) False]
      by (auto simp: one_nullable_number_key_build_set_def vec_assign_def
          fold_update_length fold_update_nth)
  qed
qed

lemma one_nullable_string_key_probe:
  assumes "nullable_key_column_ok n col"
  shows "\<exists>s' nf'. one_nullable_string_key_build_set H n col nf s = Some (s', nf')
     \<and> hash_set s' = hash_set s \<and> results s' = results s \<and> length nf' = n
     \<and> has_null_key s' = (has_null_key s \<or> only_null col \<or> (\<exists>i<n. row_is_null col i))
     \<and> (\<forall>i<n. nf' ! i = (case row_key col i of None \<Rightarrow> 0
                            | Some k \<Rightarrow> of_bool (\<not> slice_set_contains H (hash_set s) k)))"
proof (cases col)
  case (PlainColumn ks)
  then show ?thesis using assms by (simp add: nullable_key_column_ok_def)
next
  case (OnlyNullColumn m)
  then show ?thesis
    by (simp add: one_nullable_string_key_build_set_def vec_assign_def)
next
  case (NullableColumn nulls keys)
  have len: "n \<le> length keys" "n \<le> length nulls"
    using assms NullableColumn by (auto simp: nullable_key_column_ok_def)
  have h: "(\<lambda>i S nf. handle_data_key_column H S keys i nf)
             = (\<lambda>i S nf. nf[i := of_bool (\<not> slice_set_contains H S (keys ! i))])"
    by (simp add: handle_data_key_column_def fun_eq_iff)
  have h': "(\<lambda>i nf. handle_data_key_column H (hash_set s) keys i nf)
             = (\<lambda>i nf. nf[i := of_bool (\<not> slice_set_contains H (hash_set s) (keys ! i))])"
    by (simp add: handle_data_key_column_def fun_eq_iff)
  show ?thesis
  proof (cases "has_null nulls")
    case True
    then show ?thesis using len NullableColumn
      by (auto simp: one_nullable_string_key_build_set_def vec_assign_def h fold_nullable_row)
  next
    case False
    then show ?thesis using len NullableColumn no_null_rows [OF len(2) False]
      by (auto simp: one_nullable_string_key_build_set_def vec_assign_def h'
          fold_update_length fold_update_nth)
  qed
qed

subsection \<open>The serialized-key set\<close>

lemma fold_option_append:
  "fold_option f (xs @ ys) s = (case fold_option f xs s of None \<Rightarrow> None | Some s' \<Rightarrow> fold_option f ys s')"
  by (induction xs arbitrary: s) (auto split: option.splits)

lemma get_max_serialize_size_sum:
  "get_max_serialize_size cs = sum_list (map max_one_element_serialize_size cs)"
proof -
  have "fold (\<lambda>c m. m + max_one_element_serialize_size c) cs a
          = a + sum_list (map max_one_element_serialize_size cs)" for a
    by (induction cs arbitrary: a) auto
  then show ?thesis by (simp add: get_max_serialize_size_def)
qed

text \<open>One column: the buffer and the sizes after the first \<open>k\<close> rows.\<close>

lemma serialize_batch_prefix:
  assumes "k \<le> length buf" "k \<le> length sizes" "k \<le> length (serialized_rows c)"
    and "\<forall>i<k. sizes ! i + length (serialized_rows c ! i) \<le> length (buf ! i)"
  shows "\<exists>buf' sizes'. serialize_batch c k (buf, sizes) = Some (buf', sizes')
     \<and> length buf' = length buf \<and> length sizes' = length sizes
     \<and> (\<forall>i<length buf. length (buf' ! i) = length (buf ! i))
     \<and> (\<forall>i. k \<le> i \<longrightarrow> buf' ! i = buf ! i \<and> sizes' ! i = sizes ! i)
     \<and> (\<forall>i<k. sizes' ! i = sizes ! i + length (serialized_rows c ! i)
             \<and> take (sizes' ! i) (buf' ! i) = take (sizes ! i) (buf ! i) @ serialized_rows c ! i)"
  using assms
proof (induction k)
  case 0
  then show ?case by (simp add: serialize_batch_def)
next
  case (Suc k)
  from Suc.prems have pre: "k \<le> length buf" "k \<le> length sizes" "k \<le> length (serialized_rows c)"
    "\<forall>i<k. sizes ! i + length (serialized_rows c ! i) \<le> length (buf ! i)"
    by auto
  from Suc.IH [OF pre] obtain buf1 sizes1 where
    r: "serialize_batch c k (buf, sizes) = Some (buf1, sizes1)"
    and l: "length buf1 = length buf" "length sizes1 = length sizes"
    and ll: "\<forall>i<length buf. length (buf1 ! i) = length (buf ! i)"
    and un: "\<forall>i. k \<le> i \<longrightarrow> buf1 ! i = buf ! i \<and> sizes1 ! i = sizes ! i"
    and dn: "\<forall>i<k. sizes1 ! i = sizes ! i + length (serialized_rows c ! i)
             \<and> take (sizes1 ! i) (buf1 ! i) = take (sizes ! i) (buf ! i) @ serialized_rows c ! i"
    by blast
  have k: "k < length buf" "k < length sizes" "k < length (serialized_rows c)"
    "sizes ! k + length (serialized_rows c ! k) \<le> length (buf ! k)"
    using Suc.prems by auto
  have k1: "buf1 ! k = buf ! k" "sizes1 ! k = sizes ! k" using un by auto
  let ?row = "serialized_rows c ! k"
  let ?buf2 = "buf1[k := take (sizes1 ! k) (buf1 ! k) @ ?row @ drop (sizes1 ! k + length ?row) (buf1 ! k)]"
  let ?sizes2 = "sizes1[k := sizes1 ! k + length ?row]"
  have step: "serialize_row c k (buf1, sizes1) = Some (?buf2, ?sizes2)"
    using k l k1 by (simp add: serialize_row_def)
  have res: "serialize_batch c (Suc k) (buf, sizes) = Some (?buf2, ?sizes2)"
    using r step by (simp add: serialize_batch_def fold_option_append)
  have a: "\<forall>i<length buf. length (?buf2 ! i) = length (buf ! i)"
    using ll l k k1 by (auto simp: nth_list_update)
  have b: "\<forall>i. Suc k \<le> i \<longrightarrow> ?buf2 ! i = buf ! i \<and> ?sizes2 ! i = sizes ! i"
    using un by auto
  have c: "\<forall>i<Suc k. ?sizes2 ! i = sizes ! i + length (serialized_rows c ! i)
             \<and> take (?sizes2 ! i) (?buf2 ! i) = take (sizes ! i) (buf ! i) @ serialized_rows c ! i"
  proof (intro allI impI)
    fix i assume "i < Suc k"
    then consider "i < k" | "i = k" by linarith
    then show "?sizes2 ! i = sizes ! i + length (serialized_rows c ! i)
             \<and> take (?sizes2 ! i) (?buf2 ! i) = take (sizes ! i) (buf ! i) @ serialized_rows c ! i"
    proof cases
      case 1
      from dn 1 have e: "sizes1 ! i = sizes ! i + length (serialized_rows c ! i)
             \<and> take (sizes1 ! i) (buf1 ! i) = take (sizes ! i) (buf ! i) @ serialized_rows c ! i"
        by blast
      have n: "?sizes2 ! i = sizes1 ! i" "?buf2 ! i = buf1 ! i" using 1 by simp_all
      show ?thesis unfolding n using e by blast
    next
      case 2
      then show ?thesis using k l k1 by simp
    qed
  qed
  show ?case
  proof (intro exI conjI)
    show "serialize_batch c (Suc k) (buf, sizes) = Some (?buf2, ?sizes2)" by (rule res)
    show "length ?buf2 = length buf" using l by simp
    show "length ?sizes2 = length sizes" using l by simp
    show "\<forall>i<length buf. length (?buf2 ! i) = length (buf ! i)" by (rule a)
    show "\<forall>i. Suc k \<le> i \<longrightarrow> ?buf2 ! i = buf ! i \<and> ?sizes2 ! i = sizes ! i" by (rule b)
    show "\<forall>i<Suc k. ?sizes2 ! i = sizes ! i + length (serialized_rows c ! i)
             \<and> take (?sizes2 ! i) (?buf2 ! i) = take (sizes ! i) (buf ! i) @ serialized_rows c ! i"
      by (rule c)
  qed
qed

text \<open>All key columns, one after the other.\<close>

lemma serialize_columns:
  assumes "n \<le> length buf" "n \<le> length sizes" "\<forall>c\<in>set cs. column_ok n c"
    and "\<forall>i<n. sizes ! i + sum_list (map max_one_element_serialize_size cs) \<le> length (buf ! i)"
  shows "\<exists>buf' sizes'. fold_option (\<lambda>c. serialize_batch c n) cs (buf, sizes) = Some (buf', sizes')
     \<and> length buf' = length buf \<and> length sizes' = length sizes
     \<and> (\<forall>i<length buf. length (buf' ! i) = length (buf ! i))
     \<and> (\<forall>i<n. take (sizes' ! i) (buf' ! i)
                 = take (sizes ! i) (buf ! i) @ concat (map (\<lambda>c. serialized_rows c ! i) cs))"
  using assms
proof (induction cs arbitrary: buf sizes)
  case Nil
  then show ?case by simp
next
  case (Cons c cs)
  have cok: "n \<le> length (serialized_rows c)"
    "\<forall>i<n. length (serialized_rows c ! i) \<le> max_one_element_serialize_size c"
    using Cons.prems(3) by (auto simp: column_ok_def list_all_length)
  have fits: "\<forall>i<n. sizes ! i + length (serialized_rows c ! i) \<le> length (buf ! i)"
  proof (intro allI impI)
    fix i assume i: "i < n"
    have "sizes ! i + max_one_element_serialize_size c \<le> length (buf ! i)"
      using Cons.prems(4) i by fastforce
    then show "sizes ! i + length (serialized_rows c ! i) \<le> length (buf ! i)"
      using cok(2) i by (meson add_le_mono1 le_trans nat_add_left_cancel_le)
  qed
  from serialize_batch_prefix [OF Cons.prems(1) Cons.prems(2) cok(1) fits]
  obtain buf1 sizes1 where
    r: "serialize_batch c n (buf, sizes) = Some (buf1, sizes1)"
    and l: "length buf1 = length buf" "length sizes1 = length sizes"
    and ll: "\<forall>i<length buf. length (buf1 ! i) = length (buf ! i)"
    and dn: "\<forall>i<n. sizes1 ! i = sizes ! i + length (serialized_rows c ! i)
             \<and> take (sizes1 ! i) (buf1 ! i) = take (sizes ! i) (buf ! i) @ serialized_rows c ! i"
    by blast
  have p1: "n \<le> length buf1" "n \<le> length sizes1" using l Cons.prems by auto
  have p3: "\<forall>c\<in>set cs. column_ok n c" using Cons.prems(3) by simp
  have p4: "\<forall>i<n. sizes1 ! i + sum_list (map max_one_element_serialize_size cs) \<le> length (buf1 ! i)"
  proof (intro allI impI)
    fix i assume i: "i < n"
    have "sizes ! i + (max_one_element_serialize_size c + sum_list (map max_one_element_serialize_size cs))
            \<le> length (buf ! i)"
      using Cons.prems(4) i by simp
    moreover have "length (serialized_rows c ! i) \<le> max_one_element_serialize_size c"
      using cok(2) i by simp
    moreover have "length (buf1 ! i) = length (buf ! i)" using ll i Cons.prems(1) by simp
    moreover have "sizes1 ! i = sizes ! i + length (serialized_rows c ! i)" using dn i by simp
    ultimately show "sizes1 ! i + sum_list (map max_one_element_serialize_size cs) \<le> length (buf1 ! i)"
      by linarith
  qed
  from Cons.IH [OF p1 p3 p4] obtain buf2 sizes2 where
    r2: "fold_option (\<lambda>c. serialize_batch c n) cs (buf1, sizes1) = Some (buf2, sizes2)"
    and l2: "length buf2 = length buf1" "length sizes2 = length sizes1"
    and ll2: "\<forall>i<length buf1. length (buf2 ! i) = length (buf1 ! i)"
    and d2: "\<forall>i<n. take (sizes2 ! i) (buf2 ! i)
                 = take (sizes1 ! i) (buf1 ! i) @ concat (map (\<lambda>c. serialized_rows c ! i) cs)"
    by blast
  have "fold_option (\<lambda>c. serialize_batch c n) (c # cs) (buf, sizes) = Some (buf2, sizes2)"
    using r r2 by simp
  moreover have "\<forall>i<n. take (sizes2 ! i) (buf2 ! i)
                 = take (sizes ! i) (buf ! i) @ concat (map (\<lambda>c. serialized_rows c ! i) (c # cs))"
  proof (intro allI impI)
    fix i assume i: "i < n"
    have "take (sizes2 ! i) (buf2 ! i)
            = take (sizes1 ! i) (buf1 ! i) @ concat (map (\<lambda>c. serialized_rows c ! i) cs)"
      using d2 i by blast
    also have "take (sizes1 ! i) (buf1 ! i) = take (sizes ! i) (buf ! i) @ serialized_rows c ! i"
      using dn i by blast
    finally show "take (sizes2 ! i) (buf2 ! i)
                 = take (sizes ! i) (buf ! i) @ concat (map (\<lambda>c. serialized_rows c ! i) (c # cs))"
      by simp
  qed
  moreover have "\<forall>i<length buf. length (buf2 ! i) = length (buf ! i)"
    using ll ll2 l by simp
  ultimately show ?case using l l2 by (intro exI [of _ buf2] exI [of _ sizes2]) metis
qed


lemma serialized_key_probe:
  assumes n: "n \<le> vcs" and b: "buffer_ok vcs s" and cols: "\<forall>c\<in>set cs. column_ok n c"
    and hc: "hash_consistent H (hash_set s)"
  shows "\<exists>s' nf'. serialized_key_build_set H vcs n cs nf s = Some (s', nf')
     \<and> hash_set s' = hash_set s \<and> results s' = results s \<and> length nf' = n
     \<and> buffer_ok vcs s'
     \<and> (\<forall>i<n. (nf' ! i = 1) = (\<not> serialized_key cs i \<in> fst ` hash_set s))"
proof -
  define cur where "cur = get_max_serialize_size cs"
  define s1 where "s1 = (if cur > max_one_row_size s
                then s\<lparr>max_one_row_size := cur, buffer := replicate vcs (replicate cur 0)\<rparr>
                else s)"
  have s1: "hash_set s1 = hash_set s" "results s1 = results s" "cur \<le> max_one_row_size s1"
    "length (buffer s1) = vcs" "\<forall>i<vcs. length (buffer s1 ! i) = max_one_row_size s1"
    using b by (auto simp: s1_def buffer_ok_def list_all_length)
  have fit: "\<forall>i<n. replicate vcs (0::nat) ! i + sum_list (map max_one_element_serialize_size cs)
                 \<le> length (buffer s1 ! i)"
    using s1 n by (simp add: cur_def get_max_serialize_size_sum)
  have "n \<le> length (buffer s1)" "n \<le> length (replicate vcs (0::nat))" using s1 n by auto
  from serialize_columns [OF this cols fit] obtain buf sizes where
    r: "fold_option (\<lambda>c. serialize_batch c n) cs (buffer s1, replicate vcs 0) = Some (buf, sizes)"
    and l: "length buf = length (buffer s1)" "length sizes = length (replicate vcs (0::nat))"
    and ll: "\<forall>i<length (buffer s1). length (buf ! i) = length (buffer s1 ! i)"
    and k: "\<forall>i<n. take (sizes ! i) (buf ! i)
               = take (replicate vcs (0::nat) ! i) (buffer s1 ! i) @ concat (map (\<lambda>c. serialized_rows c ! i) cs)"
    by blast
  have k': "\<forall>i<n. take (sizes ! i) (buf ! i) = serialized_key cs i"
    using k n by (simp add: serialized_key_def)
  let ?nf = "fold (\<lambda>i nf. nf[i := of_bool (\<not> slice_set_contains H (hash_set s1) (take (sizes ! i) (buf ! i)))])
                          [0..<n] (vec_assign n 0)"
  have res: "serialized_key_build_set H vcs n cs nf s = Some (s1\<lparr>buffer := buf, slice_sizes := sizes\<rparr>, ?nf)"
    using r l s1 n
    by (simp add: serialized_key_build_set_def Let_def cur_def [symmetric] s1_def [symmetric])
  have "\<forall>i<n. (?nf ! i = 1) = (\<not> serialized_key cs i \<in> fst ` hash_set s)"
    using k' hc s1(1)
    by (simp add: fold_update_nth vec_assign_def slice_set_contains_iff)
  moreover have "length ?nf = n" by (simp add: fold_update_length vec_assign_def)
  moreover have "buffer_ok vcs (s1\<lparr>buffer := buf, slice_sizes := sizes\<rparr>)"
    using l ll s1 by (simp add: buffer_ok_def list_all_length)
  ultimately show ?thesis using res s1 by simp
qed

subsection \<open>Claims about the probe-only overloads\<close>

text \<open>
  Claim C10, as stated, fails for a key column that has more rows than \<open>chunk_size\<close>
  and whose null rows all lie past the first \<open>chunk_size\<close> rows: the column contains a
  null row, so \<^verbatim>\<open>has_null()\<close> holds and the loop over the rows runs, but it stops at
  \<open>chunk_size\<close> and meets no null row, and \<^verbatim>\<open>has_null_key\<close> stays false. Here the
  column has the rows 5 and null and \<open>chunk_size\<close> is 1.
\<close>

theorem nullable_probe_null_past_chunk_counterexample:
  "row_is_null (NullableColumn [False, True] [5, 0 :: int]) 1
   \<and> nullable_key_column_ok 1 (NullableColumn [False, True] [5, 0 :: int])
   \<and> one_nullable_number_key_build_set 1 (NullableColumn [False, True] [5, 0 :: int]) []
         \<lparr>hash_set = {5}, results = [], has_null_key = False\<rparr>
       = Some (\<lparr>hash_set = {5}, results = [], has_null_key = False\<rparr>, [0])
   \<and> one_nullable_string_key_build_set length 1 (NullableColumn [False, True] [[5], []]) []
         \<lparr>hash_set = {([5], 1)}, results = [], has_null_key = False\<rparr>
       = Some (\<lparr>hash_set = {([5], 1)}, results = [], has_null_key = False\<rparr>, [0])"
  by (simp add: one_nullable_number_key_build_set_def one_nullable_string_key_build_set_def
      nullable_key_column_ok_def has_null_def vec_assign_def nullable_row_def
      handle_data_key_column_def slice_set_contains_def TSliceWithHash_def
      TEqualOnSliceWithHash_def Let_def)

text \<open>
  Claim C10, amended: for the nullable single-number and single-string sets the
  probe-only overload is not read-only: after the call \<^verbatim>\<open>has_null_key\<close> holds when it
  held before, when the key column is only-null, or when one of the first \<open>chunk_size\<close>
  rows is a null row (and in no other case); the flag of every null row among them is 0,
  so a null key is never reported as absent. The call returns for every only-null
  column and every nullable column with at least \<open>chunk_size\<close> rows.
\<close>

theorem nullable_probe_sets_has_null_key:
  "(nullable_key_column_ok n col \<longrightarrow>
      (\<exists>s' nf'. one_nullable_number_key_build_set n col nf s = Some (s', nf')
         \<and> has_null_key s' = (has_null_key s \<or> only_null col \<or> (\<exists>i<n. row_is_null col i))
         \<and> length nf' = n \<and> (\<forall>i<n. row_is_null col i \<longrightarrow> nf' ! i = 0)))
   \<and> (nullable_key_column_ok m scol \<longrightarrow>
      (\<exists>t' mf'. one_nullable_string_key_build_set H m scol mf t = Some (t', mf')
         \<and> has_null_key t' = (has_null_key t \<or> only_null scol \<or> (\<exists>i<m. row_is_null scol i))
         \<and> length mf' = m \<and> (\<forall>i<m. row_is_null scol i \<longrightarrow> mf' ! i = 0)))"
proof (intro conjI impI)
  have null_key: "row_is_null c i \<Longrightarrow> row_key c i = None" for c :: "'x key_column" and i
    by (cases c) auto
  {
    assume "nullable_key_column_ok n col"
    from one_nullable_number_key_probe [OF this, of nf s] obtain s' nf' where
      r: "one_nullable_number_key_build_set n col nf s = Some (s', nf')"
      and h: "has_null_key s' = (has_null_key s \<or> only_null col \<or> (\<exists>i<n. row_is_null col i))"
      and l: "length nf' = n"
      and f: "\<forall>i<n. nf' ! i = (case row_key col i of None \<Rightarrow> 0
                                                | Some k \<Rightarrow> of_bool (\<not> k \<in> hash_set s))"
      by blast
    have "\<forall>i<n. row_is_null col i \<longrightarrow> nf' ! i = 0"
      using f null_key [of col] by simp
    with r h l show "\<exists>s' nf'. one_nullable_number_key_build_set n col nf s = Some (s', nf')
         \<and> has_null_key s' = (has_null_key s \<or> only_null col \<or> (\<exists>i<n. row_is_null col i))
         \<and> length nf' = n \<and> (\<forall>i<n. row_is_null col i \<longrightarrow> nf' ! i = 0)"
      by blast
  }
  {
    assume "nullable_key_column_ok m scol"
    from one_nullable_string_key_probe [OF this, of H mf t] obtain t' mf' where
      r: "one_nullable_string_key_build_set H m scol mf t = Some (t', mf')"
      and h: "has_null_key t' = (has_null_key t \<or> only_null scol \<or> (\<exists>i<m. row_is_null scol i))"
      and l: "length mf' = m"
      and f: "\<forall>i<m. mf' ! i = (case row_key scol i of None \<Rightarrow> 0
                            | Some k \<Rightarrow> of_bool (\<not> slice_set_contains H (hash_set t) k))"
      by blast
    have "\<forall>i<m. row_is_null scol i \<longrightarrow> mf' ! i = 0"
      using f null_key [of scol] by simp
    with r h l show "\<exists>t' mf'. one_nullable_string_key_build_set H m scol mf t = Some (t', mf')
         \<and> has_null_key t' = (has_null_key t \<or> only_null scol \<or> (\<exists>i<m. row_is_null scol i))
         \<and> length mf' = m \<and> (\<forall>i<m. row_is_null scol i \<longrightarrow> mf' ! i = 0)"
      by blast
  }
qed

text \<open>
  The theorem at a nullable number column whose first row is null, probed against the
  set \<open>{5}\<close>, and at an only-null string column.
\<close>

theorem nullable_probe_sets_has_null_key_witness:
  "nullable_key_column_ok 2 (NullableColumn [True, False] [0, 5 :: int])
   \<and> (\<exists>s' nf'. one_nullable_number_key_build_set 2 (NullableColumn [True, False] [0, 5 :: int]) []
                  \<lparr>hash_set = {5}, results = [], has_null_key = False\<rparr> = Some (s', nf')
         \<and> has_null_key s' \<and> nf' ! 0 = 0)
   \<and> nullable_key_column_ok 1 (OnlyNullColumn 1 :: slice key_column)
   \<and> (\<exists>t' mf'. one_nullable_string_key_build_set length 1 (OnlyNullColumn 1) []
                  \<lparr>hash_set = {}, results = [], has_null_key = False\<rparr> = Some (t', mf')
         \<and> has_null_key t' \<and> mf' ! 0 = 0)"
proof -
  have ok1: "nullable_key_column_ok 2 (NullableColumn [True, False] [0, 5 :: int])"
    and ok2: "nullable_key_column_ok 1 (OnlyNullColumn 1 :: slice key_column)"
    by (simp_all add: nullable_key_column_ok_def)
  have ex: "\<exists>i<2::nat. row_is_null (NullableColumn [True, False] [0, 5 :: int]) i"
    by (rule exI [of _ 0]) simp
  show ?thesis
    using ok1 ok2 ex
      nullable_probe_sets_has_null_key [of 2 "NullableColumn [True, False] [0, 5 :: int]" "[]"
        "\<lparr>hash_set = {5}, results = [], has_null_key = False\<rparr>" 1 "OnlyNullColumn 1" length "[]"
        "\<lparr>hash_set = {}, results = [], has_null_key = False\<rparr>"]
    by auto
qed

text \<open>
  Claim C9, as stated, fails for the nullable sets: a null row is given the flag 0 also
  when the set holds no null key. Here the set is empty and \<^verbatim>\<open>has_null_key\<close> is not
  set, so the key of the only row is absent, and the flag of the row is 0.
\<close>

theorem probe_null_row_counterexample:
  "one_nullable_number_key_build_set 1 (NullableColumn [True] [0 :: int]) []
       \<lparr>hash_set = {}, results = [], has_null_key = False\<rparr>
     = Some (\<lparr>hash_set = {}, results = [], has_null_key = True\<rparr>, [0])
   \<and> key_absent (row_key (NullableColumn [True] [0 :: int]) 0)
        \<lparr>hash_set = {}, results = [] :: int list, has_null_key = False\<rparr>"
  by (simp add: one_nullable_number_key_build_set_def vec_assign_def has_null_def
      nullable_row_def key_absent_def)

text \<open>
  Claim C9, amended. Every probe-only overload returns on the columns it is written
  for and leaves the hash set and the results as they were. For the one-number-key, the
  one-string-key and the serialized-key set, the flag of row \<open>i\<close> is 1 exactly when the
  key of row \<open>i\<close> is not in the set; for the two nullable sets it is 1 exactly when row
  \<open>i\<close> is not a null row and its key is not in the set. The keys of the string and
  serialized sets are the stored bytes, the stored hash values being the hashes of the
  bytes.
\<close>

theorem probe_build_set_reports_absent_keys:
  "(plain_key_column_ok n1 c1 \<longrightarrow>
      (\<exists>nf'. one_number_key_build_set n1 c1 nf1 s1 = Some (s1, nf') \<and> length nf' = n1
         \<and> (\<forall>i<n1. (nf' ! i = 1) = (\<exists>k. row_key c1 i = Some k \<and> \<not> k \<in> hash_set s1))))
   \<and> (nullable_key_column_ok n2 c2 \<longrightarrow>
      (\<exists>s' nf'. one_nullable_number_key_build_set n2 c2 nf2 s2 = Some (s', nf')
         \<and> hash_set s' = hash_set s2 \<and> results s' = results s2 \<and> length nf' = n2
         \<and> (\<forall>i<n2. (nf' ! i = 1) = (\<exists>k. row_key c2 i = Some k \<and> \<not> k \<in> hash_set s2))))
   \<and> (plain_key_column_ok n3 c3 \<and> hash_consistent H (hash_set s3) \<longrightarrow>
      (\<exists>nf'. one_string_key_build_set H n3 c3 nf3 s3 = Some (s3, nf') \<and> length nf' = n3
         \<and> (\<forall>i<n3. (nf' ! i = 1) = (\<exists>k. row_key c3 i = Some k \<and> \<not> k \<in> fst ` hash_set s3))))
   \<and> (nullable_key_column_ok n4 c4 \<and> hash_consistent H (hash_set s4) \<longrightarrow>
      (\<exists>s' nf'. one_nullable_string_key_build_set H n4 c4 nf4 s4 = Some (s', nf')
         \<and> hash_set s' = hash_set s4 \<and> results s' = results s4 \<and> length nf' = n4
         \<and> (\<forall>i<n4. (nf' ! i = 1) = (\<exists>k. row_key c4 i = Some k \<and> \<not> k \<in> fst ` hash_set s4))))
   \<and> (n5 \<le> vector_chunk_size \<and> buffer_ok vector_chunk_size s5
        \<and> list_all (column_ok n5) key_columns \<and> hash_consistent H (hash_set s5) \<longrightarrow>
      (\<exists>s' nf'. serialized_key_build_set H vector_chunk_size n5 key_columns nf5 s5 = Some (s', nf')
         \<and> hash_set s' = hash_set s5 \<and> results s' = results s5 \<and> length nf' = n5
         \<and> (\<forall>i<n5. (nf' ! i = 1) = (\<not> serialized_key key_columns i \<in> fst ` hash_set s5))))"
proof (intro conjI impI)
  assume "plain_key_column_ok n1 c1"
  then show "\<exists>nf'. one_number_key_build_set n1 c1 nf1 s1 = Some (s1, nf') \<and> length nf' = n1
         \<and> (\<forall>i<n1. (nf' ! i = 1) = (\<exists>k. row_key c1 i = Some k \<and> \<not> k \<in> hash_set s1))"
    by (rule one_number_key_probe)
next
  assume "nullable_key_column_ok n2 c2"
  from one_nullable_number_key_probe [OF this, of nf2 s2] obtain s' nf' where
    r: "one_nullable_number_key_build_set n2 c2 nf2 s2 = Some (s', nf')"
      "hash_set s' = hash_set s2" "results s' = results s2" "length nf' = n2"
    and f: "\<forall>i<n2. nf' ! i = (case row_key c2 i of None \<Rightarrow> 0
                                               | Some k \<Rightarrow> of_bool (\<not> k \<in> hash_set s2))"
    by blast
  have "\<forall>i<n2. (nf' ! i = 1) = (\<exists>k. row_key c2 i = Some k \<and> \<not> k \<in> hash_set s2)"
    using f by (auto split: option.splits)
  with r show "\<exists>s' nf'. one_nullable_number_key_build_set n2 c2 nf2 s2 = Some (s', nf')
         \<and> hash_set s' = hash_set s2 \<and> results s' = results s2 \<and> length nf' = n2
         \<and> (\<forall>i<n2. (nf' ! i = 1) = (\<exists>k. row_key c2 i = Some k \<and> \<not> k \<in> hash_set s2))"
    by blast
next
  assume "plain_key_column_ok n3 c3 \<and> hash_consistent H (hash_set s3)"
  then show "\<exists>nf'. one_string_key_build_set H n3 c3 nf3 s3 = Some (s3, nf') \<and> length nf' = n3
         \<and> (\<forall>i<n3. (nf' ! i = 1) = (\<exists>k. row_key c3 i = Some k \<and> \<not> k \<in> fst ` hash_set s3))"
    using one_string_key_probe by blast
next
  assume a: "nullable_key_column_ok n4 c4 \<and> hash_consistent H (hash_set s4)"
  from one_nullable_string_key_probe [of n4 c4 H nf4 s4] a obtain s' nf' where
    r: "one_nullable_string_key_build_set H n4 c4 nf4 s4 = Some (s', nf')"
      "hash_set s' = hash_set s4" "results s' = results s4" "length nf' = n4"
    and f: "\<forall>i<n4. nf' ! i = (case row_key c4 i of None \<Rightarrow> 0
                            | Some k \<Rightarrow> of_bool (\<not> slice_set_contains H (hash_set s4) k))"
    by blast
  have "\<forall>i<n4. (nf' ! i = 1) = (\<exists>k. row_key c4 i = Some k \<and> \<not> k \<in> fst ` hash_set s4)"
    using f a by (auto simp: slice_set_contains_iff split: option.splits)
  with r show "\<exists>s' nf'. one_nullable_string_key_build_set H n4 c4 nf4 s4 = Some (s', nf')
         \<and> hash_set s' = hash_set s4 \<and> results s' = results s4 \<and> length nf' = n4
         \<and> (\<forall>i<n4. (nf' ! i = 1) = (\<exists>k. row_key c4 i = Some k \<and> \<not> k \<in> fst ` hash_set s4))"
    by blast
next
  assume a: "n5 \<le> vector_chunk_size \<and> buffer_ok vector_chunk_size s5
        \<and> list_all (column_ok n5) key_columns \<and> hash_consistent H (hash_set s5)"
  then have "\<forall>c\<in>set key_columns. column_ok n5 c" by (simp add: list_all_iff)
  from serialized_key_probe [OF _ _ this, of vector_chunk_size s5 H nf5] a
  show "\<exists>s' nf'. serialized_key_build_set H vector_chunk_size n5 key_columns nf5 s5 = Some (s', nf')
         \<and> hash_set s' = hash_set s5 \<and> results s' = results s5 \<and> length nf' = n5
         \<and> (\<forall>i<n5. (nf' ! i = 1) = (\<not> serialized_key key_columns i \<in> fst ` hash_set s5))"
    by blast
qed

text \<open>
  The theorem at one input of each set: a present and an absent number, a null and an
  absent nullable number, a present string, an absent nullable string, and a present
  serialized key of one column.
\<close>

theorem probe_build_set_reports_absent_keys_witness:
  "plain_key_column_ok 2 (PlainColumn [3, 4 :: int])
   \<and> (\<exists>nf'. one_number_key_build_set 2 (PlainColumn [3, 4 :: int]) [7]
               \<lparr>hash_set = {4}, results = []\<rparr> = Some (\<lparr>hash_set = {4}, results = []\<rparr>, nf')
         \<and> nf' ! 0 = 1 \<and> nf' ! 1 \<noteq> 1)
   \<and> nullable_key_column_ok 2 (NullableColumn [True, False] [0, 5 :: int])
   \<and> (\<exists>s' nf'. one_nullable_number_key_build_set 2 (NullableColumn [True, False] [0, 5 :: int]) []
               \<lparr>hash_set = {}, results = [], has_null_key = False\<rparr> = Some (s', nf')
         \<and> hash_set s' = {} \<and> nf' ! 0 \<noteq> 1 \<and> nf' ! 1 = 1)
   \<and> plain_key_column_ok 1 (PlainColumn [[1 :: 8 word]]) \<and> hash_consistent length {([1], 1)}
   \<and> (\<exists>nf'. one_string_key_build_set length 1 (PlainColumn [[1]]) []
               \<lparr>hash_set = {([1], 1)}, results = []\<rparr> = Some (\<lparr>hash_set = {([1], 1)}, results = []\<rparr>, nf')
         \<and> nf' ! 0 \<noteq> 1)
   \<and> nullable_key_column_ok 1 (NullableColumn [False] [[2 :: 8 word]])
   \<and> (\<exists>s' nf'. one_nullable_string_key_build_set length 1 (NullableColumn [False] [[2]]) []
               \<lparr>hash_set = {([1], 1)}, results = [], has_null_key = False\<rparr> = Some (s', nf')
         \<and> hash_set s' = {([1], 1)} \<and> nf' ! 0 = 1)
   \<and> (1 :: nat) \<le> 2
   \<and> buffer_ok 2 \<lparr>hash_set = {([1], 1)}, results = [], slice_sizes = [], max_one_row_size = 8,
                   buffer = [replicate 8 0, replicate 8 0]\<rparr>
   \<and> list_all (column_ok 1) [\<lparr>max_one_element_serialize_size = 1, serialized_rows = [[1]]\<rparr>]
   \<and> (\<exists>s' nf'. serialized_key_build_set length 2 1
               [\<lparr>max_one_element_serialize_size = 1, serialized_rows = [[1]]\<rparr>] []
               \<lparr>hash_set = {([1], 1)}, results = [], slice_sizes = [], max_one_row_size = 8,
                   buffer = [replicate 8 0, replicate 8 0]\<rparr> = Some (s', nf')
         \<and> hash_set s' = {([1], 1)} \<and> nf' ! 0 \<noteq> 1)"
proof -
  have h1: "plain_key_column_ok 2 (PlainColumn [3, 4 :: int])"
    and h2: "nullable_key_column_ok 2 (NullableColumn [True, False] [0, 5 :: int])"
    and h3: "plain_key_column_ok 1 (PlainColumn [[1 :: 8 word]])"
    and h4: "nullable_key_column_ok 1 (NullableColumn [False] [[2 :: 8 word]])"
    and hc: "hash_consistent length {([1 :: 8 word], 1)}"
    and h5: "buffer_ok 2 \<lparr>hash_set = {([1], 1)}, results = [], slice_sizes = [], max_one_row_size = 8,
                   buffer = [replicate 8 0, replicate 8 0]\<rparr>"
      "list_all (column_ok 1) [\<lparr>max_one_element_serialize_size = 1, serialized_rows = [[1]]\<rparr>]"
    by (simp_all add: plain_key_column_ok_def nullable_key_column_ok_def hash_consistent_def
        buffer_ok_def column_ok_def)
  note t = probe_build_set_reports_absent_keys [of
      2 "PlainColumn [3, 4 :: int]" "[7]" "\<lparr>hash_set = {4}, results = []\<rparr>"
      2 "NullableColumn [True, False] [0, 5 :: int]" "[]"
        "\<lparr>hash_set = {}, results = [], has_null_key = False\<rparr>"
      1 "PlainColumn [[1]]" length "\<lparr>hash_set = {([1], 1)}, results = []\<rparr>" "[]"
      1 "NullableColumn [False] [[2]]" "\<lparr>hash_set = {([1], 1)}, results = [], has_null_key = False\<rparr>" "[]"
      1 2 "\<lparr>hash_set = {([1], 1)}, results = [], slice_sizes = [], max_one_row_size = 8,
                   buffer = [replicate 8 0, replicate 8 0]\<rparr>"
      "[\<lparr>max_one_element_serialize_size = 1, serialized_rows = [[1]]\<rparr>]" "[]"]
  show ?thesis
    using h1 h2 h3 h4 hc h5 t
    by (auto simp: serialized_key_def)
qed

section \<open>The exchange sender (be/src/runtime/data_stream_sender.cpp)\<close>

subsection \<open>Status values\<close>

text \<open>
  \<^verbatim>\<open>Status\<close>, without the message text. \<open>OtherError\<close> stands for a status that a
  collaborator hands back (the receiver's \<^verbatim>\<open>result.status()\<close>, a child node, an
  expression).
\<close>

datatype status = OK | Cancelled | InternalError | ThriftRpcError | OtherError nat

subsection \<open>Serializing and compressing a chunk\<close>

datatype CompressionTypePB = NO_COMPRESSION | LZ4 | SNAPPY | ZLIB

record ChunkPB =
  data :: slice
  compress_type :: CompressionTypePB
  uncompressed_size :: nat
  is_nulls :: "bool list"
  is_consts :: "bool list"
  slot_id_map :: "int list"
  data_size :: nat

text \<open>
  Modelled from the spec: \<^verbatim>\<open>vectorized::Chunk\<close> is not among the sources. A chunk is
  given by the bytes of its serialization and by the column meta that
  \<^verbatim>\<open>serialize_with_meta\<close> writes with the first chunk of a channel.
\<close>

record Chunk =
  num_rows :: nat
  serialized :: slice
  meta_is_nulls :: "bool list"
  meta_is_consts :: "bool list"
  meta_slot_id_map :: "int list"

text \<open>
  The codec behind \<^verbatim>\<open>BlockCompressionCodec\<close> (util/block_compression.h, not among the
  sources) is a parameter: its largest input, its bound on the compressed length, and
  \<^verbatim>\<open>compress(input, output)\<close>, which given the input and the capacity of the output
  slice yields the compressed bytes, or fails. \<^verbatim>\<open>serialize_chunk\<close> ignores the status
  that \<^verbatim>\<open>compress\<close> returns; after a failure the output slice still has the size of the
  whole scratch buffer.
\<close>

record BlockCompressionCodec =
  max_input_size :: nat
  max_compressed_len :: "nat \<Rightarrow> nat"
  compress :: "slice \<Rightarrow> nat \<Rightarrow> slice option"

definition exceed_max_input_size :: "BlockCompressionCodec \<Rightarrow> nat \<Rightarrow> bool" where
  "exceed_max_input_size codec n = (n > max_input_size codec)"

text \<open>
  The part of the sender that \<^verbatim>\<open>serialize_chunk\<close> reads and writes; the function is
  defined for every record that extends it.
\<close>

record sender_compression =
  compress_codec :: "BlockCompressionCodec option"
  sender_compress_type :: CompressionTypePB
  compression_scratch :: slice
  bytes_sent_counter :: nat
  uncompressed_bytes_counter :: nat

text \<open>
  The first block of \<^verbatim>\<open>serialize_chunk\<close>: the chunk is serialized into \<open>dst\<close>, with
  its meta when it is the first chunk, and \<open>dst\<close> is marked as not compressed.
\<close>

definition serialize_into :: "Chunk \<Rightarrow> ChunkPB \<Rightarrow> bool \<Rightarrow> ChunkPB \<times> nat" where
  "serialize_into src dst is_first_chunk =
     (let dst1 = dst\<lparr>compress_type := NO_COMPRESSION\<rparr> in
      if is_first_chunk
      then (dst1\<lparr>is_nulls := meta_is_nulls src, is_consts := meta_is_consts src,
                 slot_id_map := meta_slot_id_map src, data := serialized src\<rparr>,
            length (serialized src))
      else (dst1\<lparr>is_nulls := [], is_consts := [], slot_id_map := [], data := serialized src\<rparr>,
            length (serialized src)))"

text \<open>
  \<^verbatim>\<open>int max_compressed_size = _compress_codec->max_compressed_len(uncompressed_size)\<close>:
  the bound of the codec is read into an \<^verbatim>\<open>int\<close>, which keeps its low 32 bits as a
  signed number.
\<close>

definition max_compressed_size :: "BlockCompressionCodec \<Rightarrow> nat \<Rightarrow> int" where
  "max_compressed_size codec uncompressed =
     sint (word_of_nat (max_compressed_len codec uncompressed) :: 32 word)"

text \<open>
  The scratch buffer after \<^verbatim>\<open>_compression_scratch.resize(max_compressed_size)\<close>. The
  comparison with the size of the buffer and the call of \<^verbatim>\<open>resize\<close> take the \<^verbatim>\<open>int\<close> as
  a \<^verbatim>\<open>size_t\<close>: a negative one is then above \<open>2^63\<close>, larger than any buffer, and
  \<^verbatim>\<open>resize\<close> throws \<^verbatim>\<open>std::length_error\<close>, which is the result \<open>None\<close>.
\<close>

definition grow_scratch :: "BlockCompressionCodec \<Rightarrow> nat \<Rightarrow> slice \<Rightarrow> slice option" where
  "grow_scratch codec uncompressed scratch =
     (let size = max_compressed_size codec uncompressed in
      if size < 0 then None
      else if length scratch < nat size
      then Some (scratch @ replicate (nat size - length scratch) 0)
      else Some scratch)"

text \<open>
  The scratch buffer and the size of \<^verbatim>\<open>compressed_slice\<close> after the call of
  \<^verbatim>\<open>compress\<close>, whose status \<^verbatim>\<open>serialize_chunk\<close> ignores.
\<close>

definition run_compress :: "BlockCompressionCodec \<Rightarrow> slice \<Rightarrow> slice \<Rightarrow> slice \<times> nat" where
  "run_compress codec input scratch =
     (case compress codec input (length scratch) of
        None \<Rightarrow> (scratch, length scratch)
      | Some out \<Rightarrow> (out @ drop (length out) scratch, length out))"

text \<open>
  \<^verbatim>\<open>compress_ratio > config::rpc_compress_ratio_threshold\<close>, where
  \<^verbatim>\<open>compress_ratio = static_cast<double>(uncompressed_size) / compressed_slice.size\<close>.
  The two sizes are converted to \<^verbatim>\<open>double\<close> and divided in \<^verbatim>\<open>double\<close>: each of the three
  steps rounds, and the rounding of a real number to a \<^verbatim>\<open>double\<close> is the parameter
  \<open>to_double\<close>; \<open>threshold\<close> is the value of the configured \<^verbatim>\<open>double\<close>. The division of a
  positive size by a compressed size of 0 is \<open>+inf\<close> in C++, which exceeds every
  threshold, and it is 0 in HOL, so that case is written out.
\<close>

definition ratio_exceeds :: "(real \<Rightarrow> real) \<Rightarrow> nat \<Rightarrow> nat \<Rightarrow> real \<Rightarrow> bool" where
  "ratio_exceeds to_double uncompressed compressed threshold =
     (if compressed = 0 then True
      else to_double (to_double (real uncompressed) / to_double (real compressed)) > threshold)"

text \<open>
  \<^verbatim>\<open>DataStreamSender::serialize_chunk(src, dst, is_first_chunk, num_receivers)\<close>;
  \<open>threshold\<close> is \<^verbatim>\<open>config::rpc_compress_ratio_threshold\<close>. The result is the status,
  \<open>dst\<close>, \<^verbatim>\<open>*is_first_chunk\<close> and the sender, and it is \<open>None\<close> when \<^verbatim>\<open>resize\<close> throws.
\<close>

definition serialize_chunk ::
  "(real \<Rightarrow> real) \<Rightarrow> real \<Rightarrow> Chunk \<Rightarrow> ChunkPB \<Rightarrow> bool \<Rightarrow> nat \<Rightarrow> 'a sender_compression_scheme
     \<Rightarrow> (status \<times> ChunkPB \<times> bool \<times> 'a sender_compression_scheme) option" where
  "serialize_chunk to_double threshold src dst is_first_chunk num_receivers sender =
     (let (dst1, uncompressed) = serialize_into src dst is_first_chunk in
      case compress_codec sender of
        None \<Rightarrow>
          (let dst2 = dst1\<lparr>uncompressed_size := uncompressed\<rparr> in
           Some (OK, dst2, False,
            sender\<lparr>bytes_sent_counter := bytes_sent_counter sender + length (data dst2) * num_receivers,
                uncompressed_bytes_counter :=
                  uncompressed_bytes_counter sender + uncompressed * num_receivers\<rparr>))
      | Some codec \<Rightarrow>
          if exceed_max_input_size codec uncompressed then Some (InternalError, dst1, False, sender)
          else
            (let dst2 = dst1\<lparr>uncompressed_size := uncompressed\<rparr> in
             case (if uncompressed > 0
                   then (case grow_scratch codec uncompressed (compression_scratch sender) of
                           None \<Rightarrow> None
                         | Some grown \<Rightarrow>
                             (let (scratch, compressed) = run_compress codec (data dst2) grown
                              in if ratio_exceeds to_double uncompressed compressed threshold
                                 then Some (dst2\<lparr>data := take compressed scratch
                                                          @ replicate (compressed - length scratch) 0,
                                                compress_type := sender_compress_type sender\<rparr>,
                                            sender\<lparr>compression_scratch := data dst2\<rparr>)
                                 else Some (dst2, sender\<lparr>compression_scratch := scratch\<rparr>)))
                   else Some (dst2, sender)) of
               None \<Rightarrow> None
             | Some (dst3, sender3) \<Rightarrow>
                 Some (OK, dst3, False,
                       sender3\<lparr>bytes_sent_counter :=
                                 bytes_sent_counter sender3 + length (data dst3) * num_receivers,
                               uncompressed_bytes_counter :=
                                 uncompressed_bytes_counter sender3 + uncompressed * num_receivers\<rparr>)))"

text \<open>
  The ratio of the chunk exceeds the threshold: the sender has a codec, the scratch
  buffer can be grown, and the uncompressed size divided by the size of the compressed
  slice, as \<^verbatim>\<open>serialize_chunk\<close> computes it, is above the threshold.
\<close>

definition ratio_exceeds_threshold ::
  "(real \<Rightarrow> real) \<Rightarrow> real \<Rightarrow> Chunk \<Rightarrow> 'a sender_compression_scheme \<Rightarrow> bool" where
  "ratio_exceeds_threshold to_double threshold src sender =
     (case compress_codec sender of
        None \<Rightarrow> False
      | Some codec \<Rightarrow>
          (case grow_scratch codec (length (serialized src)) (compression_scratch sender) of
             None \<Rightarrow> False
           | Some grown \<Rightarrow>
               ratio_exceeds to_double (length (serialized src))
                 (snd (run_compress codec (serialized src) grown)) threshold))"

text \<open>
  Claim C6. \<^verbatim>\<open>serialize_chunk\<close> marks the chunk as compressed, with the compression
  type of the sender, only when the ratio of the uncompressed size to the compressed
  size exceeds the threshold; when the ratio does not exceed the threshold, the payload
  is the uncompressed serialization and the compression type stays \<^verbatim>\<open>NO_COMPRESSION\<close>.
  A non-empty chunk whose ratio exceeds the threshold is marked, unless the call fails.
\<close>

theorem serialize_chunk_compression_threshold:
  assumes "serialize_chunk to_double threshold src dst is_first_chunk num_receivers sender
             = Some (st, dst', is_first_chunk', sender')"
  shows "(compress_type dst' \<noteq> NO_COMPRESSION \<longrightarrow>
            compress_type dst' = sender_compress_type sender
            \<and> ratio_exceeds_threshold to_double threshold src sender)
       \<and> (\<not> ratio_exceeds_threshold to_double threshold src sender
            \<longrightarrow> data dst' = serialized src \<and> compress_type dst' = NO_COMPRESSION)
       \<and> (ratio_exceeds_threshold to_double threshold src sender \<and> st = OK \<and> serialized src \<noteq> []
            \<longrightarrow> compress_type dst' = sender_compress_type sender)"
  using assms
  by (auto simp: serialize_chunk_def serialize_into_def Let_def ratio_exceeds_threshold_def
      split: option.splits if_splits prod.splits)

text \<open>
  The theorem at a chunk of four bytes and the threshold 1.1, with doubles read as the
  real numbers they stand for: with a codec that returns its input the ratio is 1 and
  the chunk goes out as it is; with a codec that returns one byte the ratio is 4 and
  the chunk is marked \<^verbatim>\<open>LZ4\<close>; with a codec whose bound is \<open>2^32 + 2\<close> the scratch buffer
  has two bytes, the codec that needs four fails, the compressed slice keeps the size
  2, the ratio is 2 and the chunk is marked \<^verbatim>\<open>LZ4\<close>.
\<close>

theorem serialize_chunk_compression_threshold_witness:
  "(\<exists>st dst' f' s'.
      serialize_chunk (\<lambda>x. x) (11 / 10)
        \<lparr>num_rows = 1, serialized = [1, 1, 1, 1], meta_is_nulls = [False], meta_is_consts = [False],
          meta_slot_id_map = [0]\<rparr>
        \<lparr>data = [], compress_type = ZLIB, uncompressed_size = 0, is_nulls = [], is_consts = [],
          slot_id_map = [], data_size = 0\<rparr>
        True 1
        \<lparr>compress_codec = Some \<lparr>max_input_size = 100, max_compressed_len = (\<lambda>n. n + 4),
               compress = (\<lambda>input cap. Some input)\<rparr>,
          sender_compress_type = LZ4, compression_scratch = [],
          bytes_sent_counter = 0, uncompressed_bytes_counter = 0\<rparr> = Some (st, dst', f', s')
      \<and> data dst' = [1, 1, 1, 1] \<and> compress_type dst' = NO_COMPRESSION)
   \<and> (\<exists>dst' f' s'.
      serialize_chunk (\<lambda>x. x) (11 / 10)
        \<lparr>num_rows = 1, serialized = [1, 1, 1, 1], meta_is_nulls = [False], meta_is_consts = [False],
          meta_slot_id_map = [0]\<rparr>
        \<lparr>data = [], compress_type = ZLIB, uncompressed_size = 0, is_nulls = [], is_consts = [],
          slot_id_map = [], data_size = 0\<rparr>
        False 1
        \<lparr>compress_codec = Some \<lparr>max_input_size = 100, max_compressed_len = (\<lambda>n. n + 4),
               compress = (\<lambda>input cap. Some [7])\<rparr>,
          sender_compress_type = LZ4, compression_scratch = [],
          bytes_sent_counter = 0, uncompressed_bytes_counter = 0\<rparr> = Some (OK, dst', f', s')
      \<and> compress_type dst' = LZ4)
   \<and> (\<exists>dst' f' s'.
      serialize_chunk (\<lambda>x. x) (11 / 10)
        \<lparr>num_rows = 1, serialized = [1, 1, 1, 1], meta_is_nulls = [False], meta_is_consts = [False],
          meta_slot_id_map = [0]\<rparr>
        \<lparr>data = [], compress_type = ZLIB, uncompressed_size = 0, is_nulls = [], is_consts = [],
          slot_id_map = [], data_size = 0\<rparr>
        False 1
        \<lparr>compress_codec = Some \<lparr>max_input_size = 100, max_compressed_len = (\<lambda>n. 2 ^ 32 + 2),
               compress = (\<lambda>input cap. if cap < 4 then None else Some input)\<rparr>,
          sender_compress_type = LZ4, compression_scratch = [],
          bytes_sent_counter = 0, uncompressed_bytes_counter = 0\<rparr> = Some (OK, dst', f', s')
      \<and> compress_type dst' = LZ4)"
proof -
  define src where "src = \<lparr>num_rows = 1, serialized = [1, 1, 1, 1], meta_is_nulls = [False],
                meta_is_consts = [False], meta_slot_id_map = [0]\<rparr>"
  define dst where "dst = \<lparr>data = [], compress_type = ZLIB, uncompressed_size = 0, is_nulls = [],
         is_consts = [], slot_id_map = [], data_size = 0\<rparr>"
  define s1 where "s1 = \<lparr>compress_codec = Some \<lparr>max_input_size = 100, max_compressed_len = (\<lambda>n. n + 4),
               compress = (\<lambda>input cap. Some input)\<rparr>,
         sender_compress_type = LZ4, compression_scratch = [],
         bytes_sent_counter = 0, uncompressed_bytes_counter = 0\<rparr>"
  define s2 where "s2 = \<lparr>compress_codec = Some \<lparr>max_input_size = 100, max_compressed_len = (\<lambda>n. n + 4),
               compress = (\<lambda>input cap. Some [7])\<rparr>,
         sender_compress_type = LZ4, compression_scratch = [],
         bytes_sent_counter = 0, uncompressed_bytes_counter = 0\<rparr>"
  define s3 where "s3 = \<lparr>compress_codec = Some \<lparr>max_input_size = 100, max_compressed_len = (\<lambda>n. 2 ^ 32 + 2),
               compress = (\<lambda>input cap. if cap < 4 then None else Some input)\<rparr>,
         sender_compress_type = LZ4, compression_scratch = [],
         bytes_sent_counter = 0, uncompressed_bytes_counter = 0\<rparr>"
  have g: "grow_scratch \<lparr>max_input_size = 100, max_compressed_len = (\<lambda>n. n + 4), compress = c\<rparr>
             (Suc (Suc (Suc (Suc 0)))) [] = Some (replicate 8 0)"
    "grow_scratch \<lparr>max_input_size = 100, max_compressed_len = (\<lambda>n. 2 ^ 32 + 2), compress = c\<rparr>
             (Suc (Suc (Suc (Suc 0)))) [] = Some (replicate 2 0)" for c
    by (simp_all add: grow_scratch_def max_compressed_size_def)
  have x1: "\<not> ratio_exceeds_threshold (\<lambda>x. x) (11 / 10) src s1"
    using g by (simp add: ratio_exceeds_threshold_def s1_def src_def run_compress_def ratio_exceeds_def)
  have x2: "ratio_exceeds_threshold (\<lambda>x. x) (11 / 10) src s2"
    using g by (simp add: ratio_exceeds_threshold_def s2_def src_def run_compress_def ratio_exceeds_def)
  have x3: "ratio_exceeds_threshold (\<lambda>x. x) (11 / 10) src s3"
    using g by (simp add: ratio_exceeds_threshold_def s3_def src_def run_compress_def ratio_exceeds_def)
  have "\<exists>dst' f' s'. serialize_chunk (\<lambda>x. x) (11 / 10) src dst True 1 s1 = Some (OK, dst', f', s')"
    using g by (auto simp: serialize_chunk_def serialize_into_def s1_def src_def run_compress_def
        exceed_max_input_size_def Let_def split: prod.splits)
  then obtain dst1 f1 s1' where
    r1: "serialize_chunk (\<lambda>x. x) (11 / 10) src dst True 1 s1 = Some (OK, dst1, f1, s1')" by blast
  have "\<exists>dst' f' s'. serialize_chunk (\<lambda>x. x) (11 / 10) src dst False 1 s2 = Some (OK, dst', f', s')"
    using g by (auto simp: serialize_chunk_def serialize_into_def s2_def src_def run_compress_def
        exceed_max_input_size_def Let_def split: prod.splits)
  then obtain dst2 f2 s2' where
    r2: "serialize_chunk (\<lambda>x. x) (11 / 10) src dst False 1 s2 = Some (OK, dst2, f2, s2')" by blast
  have "\<exists>dst' f' s'. serialize_chunk (\<lambda>x. x) (11 / 10) src dst False 1 s3 = Some (OK, dst', f', s')"
    using g by (auto simp: serialize_chunk_def serialize_into_def s3_def src_def run_compress_def
        exceed_max_input_size_def Let_def split: prod.splits)
  then obtain dst3 f3 s3' where
    r3: "serialize_chunk (\<lambda>x. x) (11 / 10) src dst False 1 s3 = Some (OK, dst3, f3, s3')" by blast
  have e: "serialized src = [1, 1, 1, 1]" "serialized src \<noteq> []" "sender_compress_type s2 = LZ4"
    "sender_compress_type s3 = LZ4"
    by (simp_all add: src_def s2_def s3_def)
  have a1: "data dst1 = [1, 1, 1, 1] \<and> compress_type dst1 = NO_COMPRESSION"
    using serialize_chunk_compression_threshold [OF r1] x1 e by metis
  have a2: "compress_type dst2 = LZ4"
    using serialize_chunk_compression_threshold [OF r2] x2 e by metis
  have a3: "compress_type dst3 = LZ4"
    using serialize_chunk_compression_threshold [OF r3] x3 e by metis
  show ?thesis using r1 r2 r3 a1 a2 a3 unfolding src_def dst_def s1_def s2_def s3_def by blast
qed

subsection \<open>Channels and the constructor of the sender\<close>

record TUniqueId =
  hi :: int
  lo :: int

record TNetworkAddress =
  hostname :: string
  port :: int

record TPlanFragmentDestination =
  fragment_instance_id :: TUniqueId
  brpc_server :: TNetworkAddress

text \<open>
  \<^verbatim>\<open>PTransmitChunkParams\<close>, the request of \<^verbatim>\<open>transmit_chunk\<close>: the chunks not yet
  sent, the end-of-stream flag and the sequence number.
\<close>

record PTransmitChunkParams =
  chunks :: "ChunkPB list"
  eos :: bool
  sequence :: nat

text \<open>
  What a channel does on the wire, in the order it does it: \<open>Transmit n\<close> is the call
  of \<^verbatim>\<open>_brpc_stub->transmit_chunk\<close> (or \<^verbatim>\<open>transmit_data\<close>) with sequence number \<open>n\<close>,
  \<open>Join n\<close> is the return of \<^verbatim>\<open>brpc::Join\<close> on the call id of that RPC.
\<close>

datatype rpc_event = Transmit nat | Join nat

text \<open>
  \<^verbatim>\<open>DataStreamSender::Channel\<close>. The members keep their names, without the leading
  underscore. \<open>batch\<close> is the row batch being filled, as its number of rows and its
  capacity; \<open>chunk\<close> is the chunk that \<^verbatim>\<open>add_rows_selective\<close> fills. A closure is
  given by whether it has been allocated and by the sequence number of the RPC last
  issued through its controller (\<open>closure_call\<close> for \<^verbatim>\<open>_closure\<close>,
  \<open>chunk_closure_call\<close> for \<^verbatim>\<open>_chunk_closure\<close>). \<open>rpc_events\<close> is not a member: it
  records the calls the channel has made on its stub and on \<^verbatim>\<open>brpc::Join\<close>.
\<close>

record Channel =
  buffer_size :: int
  channel_fragment_instance_id :: TUniqueId
  channel_dest_node_id :: int
  num_data_bytes_sent :: int
  request_seq :: nat
  need_close :: bool
  brpc_dest_addr :: TNetworkAddress
  is_transfer_chain :: bool
  send_query_statistics_with_every_batch :: bool
  is_inited :: bool
  is_first_chunk :: bool
  current_request_bytes :: nat
  chunk_request :: PTransmitChunkParams
  batch :: "(nat \<times> nat) option"
  chunk :: "Chunk option"
  has_brpc_stub :: bool
  has_closure :: bool
  closure_call :: "nat option"
  has_chunk_closure :: bool
  chunk_closure_call :: "nat option"
  rpc_events :: "rpc_event list"

text \<open>The constructor \<^verbatim>\<open>Channel(parent, row_desc, brpc_dest, fragment_instance_id, ...)\<close>.\<close>

definition new_Channel :: "TNetworkAddress \<Rightarrow> TUniqueId \<Rightarrow> int \<Rightarrow> int \<Rightarrow> bool \<Rightarrow> bool \<Rightarrow> Channel" where
  "new_Channel brpc_dest fid dest_node buffer_sz transfer_chain stats_with_every_batch =
     \<lparr>buffer_size = buffer_sz,
      channel_fragment_instance_id = fid,
      channel_dest_node_id = dest_node,
      num_data_bytes_sent = 0,
      request_seq = 0,
      need_close = False,
      brpc_dest_addr = brpc_dest,
      is_transfer_chain = transfer_chain,
      send_query_statistics_with_every_batch = stats_with_every_batch,
      is_inited = False,
      is_first_chunk = True,
      current_request_bytes = 0,
      chunk_request = \<lparr>chunks = [], eos = False, sequence = 0\<rparr>,
      batch = None,
      chunk = None,
      has_brpc_stub = False,
      has_closure = False,
      closure_call = None,
      has_chunk_closure = False,
      chunk_closure_call = None,
      rpc_events = []\<rparr>"

text \<open>
  The channels of a sender: the channel objects the constructor has allocated (an
  object is named by its position in \<open>objects\<close>), the shared pointers
  \<^verbatim>\<open>_channel_shared_ptrs\<close> and the raw pointers \<^verbatim>\<open>_channels\<close>.
\<close>

record sender_channels =
  objects :: "Channel list"
  channel_shared_ptrs :: "nat list"
  channels :: "nat list"

text \<open>
  One round of the loop over the destinations in the constructor
  \<^verbatim>\<open>DataStreamSender::DataStreamSender\<close>; \<open>index_of\<close> is the local map
  \<^verbatim>\<open>fragment_id_to_channel_index\<close>, whose key is \<^verbatim>\<open>fragment_instance_id.lo\<close>.
\<close>

definition add_destination ::
  "int \<Rightarrow> int \<Rightarrow> bool \<Rightarrow> TPlanFragmentDestination list \<Rightarrow> nat
     \<Rightarrow> (int \<rightharpoonup> nat) \<times> sender_channels \<Rightarrow> (int \<rightharpoonup> nat) \<times> sender_channels" where
  "add_destination dest_node per_channel_buffer_size stats_with_every_batch destinations i =
     (\<lambda>(index_of, cs).
        let is_chain = (i = 0);
            fid = fragment_instance_id (destinations ! i)
        in case index_of (lo fid) of
             None \<Rightarrow>
               (let ptrs = channel_shared_ptrs cs @ [length (objects cs)]
                in (index_of(lo fid \<mapsto> length ptrs - 1),
                    cs\<lparr>objects := objects cs
                           @ [new_Channel (brpc_server (destinations ! i)) fid dest_node
                                per_channel_buffer_size is_chain stats_with_every_batch],
                       channel_shared_ptrs := ptrs,
                       channels := channels cs @ [last ptrs]\<rparr>))
           | Some k \<Rightarrow>
               (let ptrs = channel_shared_ptrs cs @ [channel_shared_ptrs cs ! k]
                in (index_of,
                    cs\<lparr>channel_shared_ptrs := ptrs,
                       channels := channels cs @ [last ptrs]\<rparr>)))"

definition construct_channels ::
  "int \<Rightarrow> int \<Rightarrow> bool \<Rightarrow> TPlanFragmentDestination list \<Rightarrow> sender_channels" where
  "construct_channels dest_node per_channel_buffer_size stats_with_every_batch destinations =
     snd (fold (add_destination dest_node per_channel_buffer_size stats_with_every_batch destinations)
            [0..<length destinations]
            (Map.empty, \<lparr>objects = [], channel_shared_ptrs = [], channels = []\<rparr>))"

text \<open>The key of the map for destination \<open>i\<close>.\<close>

definition dest_lo :: "TPlanFragmentDestination list \<Rightarrow> nat \<Rightarrow> int" where
  "dest_lo destinations i = lo (fragment_instance_id (destinations ! i))"

text \<open>
  The loop invariant of the constructor after \<open>k\<close> destinations: the two pointer lists
  agree and have \<open>k\<close> entries, the map sends the low word of every destination seen to
  an entry with that destination's object, every object carries the low word of the
  destinations that point to it and is pointed to, and there are as many objects as
  low words seen.
\<close>

definition channels_inv ::
  "TPlanFragmentDestination list \<Rightarrow> nat \<Rightarrow> (int \<rightharpoonup> nat) \<times> sender_channels \<Rightarrow> bool" where
  "channels_inv ds k = (\<lambda>(m, cs).
     length (channel_shared_ptrs cs) = k \<and> channels cs = channel_shared_ptrs cs
     \<and> (\<forall>i<k. \<exists>j<k. m (dest_lo ds i) = Some j \<and> channel_shared_ptrs cs ! j = channel_shared_ptrs cs ! i)
     \<and> (\<forall>x j. m x = Some j \<longrightarrow> j < k \<and> dest_lo ds j = x)
     \<and> (\<forall>i<k. channel_shared_ptrs cs ! i < length (objects cs)
            \<and> lo (channel_fragment_instance_id (objects cs ! (channel_shared_ptrs cs ! i))) = dest_lo ds i)
     \<and> (\<forall>a<length (objects cs). \<exists>i<k. channel_shared_ptrs cs ! i = a)
     \<and> length (objects cs) = card (dest_lo ds ` {..<k}))"

lemma channels_inv_init:
  "channels_inv ds 0 (Map.empty, \<lparr>objects = [], channel_shared_ptrs = [], channels = []\<rparr>)"
  by (simp add: channels_inv_def)

lemma channels_invI:
  assumes "length sp = k"
    and "\<forall>i<k. \<exists>j<k. m (dest_lo ds i) = Some j \<and> sp ! j = sp ! i"
    and "\<forall>x j. m x = Some j \<longrightarrow> j < k \<and> dest_lo ds j = x"
    and "\<forall>i<k. sp ! i < length objs
            \<and> lo (channel_fragment_instance_id (objs ! (sp ! i))) = dest_lo ds i"
    and "\<forall>a<length objs. \<exists>i<k. sp ! i = a"
    and "length objs = card (dest_lo ds ` {..<k})"
  shows "channels_inv ds k (m, \<lparr>objects = objs, channel_shared_ptrs = sp, channels = sp\<rparr>)"
  using assms unfolding channels_inv_def by simp

lemma sender_channels_eq:
  "cs\<lparr>objects := a, channel_shared_ptrs := b, channels := c\<rparr>
     = \<lparr>objects = a, channel_shared_ptrs = b, channels = c\<rparr>"
  "cs\<lparr>channel_shared_ptrs := b, channels := c\<rparr>
     = \<lparr>objects = objects cs, channel_shared_ptrs = b, channels = c\<rparr>"
  by simp_all

lemma new_Channel_lo [simp]:
  "channel_fragment_instance_id (new_Channel a fid b c d e) = fid"
  by (simp add: new_Channel_def)

lemma channels_inv_step:
  assumes inv: "channels_inv ds k (m, cs)" and k: "k < length ds"
  shows "channels_inv ds (Suc k) (add_destination dn bs st ds k (m, cs))"
proof -
  let ?sp = "channel_shared_ptrs cs"
  let ?objs = "objects cs"
  from inv have
    l: "length ?sp = k" and ch: "channels cs = ?sp"
    and i2: "\<forall>i<k. \<exists>j<k. m (dest_lo ds i) = Some j \<and> ?sp ! j = ?sp ! i"
    and i2': "\<forall>x j. m x = Some j \<longrightarrow> j < k \<and> dest_lo ds j = x"
    and i3: "\<forall>i<k. ?sp ! i < length ?objs
            \<and> lo (channel_fragment_instance_id (?objs ! (?sp ! i))) = dest_lo ds i"
    and i4: "\<forall>a<length ?objs. \<exists>i<k. ?sp ! i = a"
    and i6: "length ?objs = card (dest_lo ds ` {..<k})"
    by (auto simp: channels_inv_def)
  have img: "dest_lo ds ` {..<Suc k} = insert (dest_lo ds k) (dest_lo ds ` {..<k})"
    by (auto simp: lessThan_Suc)
  show ?thesis
  proof (cases "m (dest_lo ds k)")
    case None
    have notin: "dest_lo ds k \<notin> dest_lo ds ` {..<k}"
    proof
      assume "dest_lo ds k \<in> dest_lo ds ` {..<k}"
      then obtain i where "i < k" "dest_lo ds i = dest_lo ds k" by auto
      with i2 None show False by force
    qed
    define obj where "obj = new_Channel (brpc_server (ds ! k)) (fragment_instance_id (ds ! k)) dn bs (k = 0) st"
    have r: "add_destination dn bs st ds k (m, cs) =
          (m(dest_lo ds k \<mapsto> k),
           \<lparr>objects = ?objs @ [obj], channel_shared_ptrs = ?sp @ [length ?objs],
              channels = ?sp @ [length ?objs]\<rparr>)"
      using None l ch by (simp add: add_destination_def dest_lo_def Let_def obj_def)
    have objlo: "lo (channel_fragment_instance_id obj) = dest_lo ds k"
      by (simp add: obj_def dest_lo_def)
    have c: "card (dest_lo ds ` {..<Suc k}) = Suc (card (dest_lo ds ` {..<k}))"
      using notin by (simp add: img)
    have a2: "\<forall>i<Suc k. \<exists>j<Suc k. (m(dest_lo ds k \<mapsto> k)) (dest_lo ds i) = Some j
                \<and> (?sp @ [length ?objs]) ! j = (?sp @ [length ?objs]) ! i"
    proof (intro allI impI)
      fix i assume "i < Suc k"
      then consider "i < k" | "i = k" by linarith
      then show "\<exists>j<Suc k. (m(dest_lo ds k \<mapsto> k)) (dest_lo ds i) = Some j
                \<and> (?sp @ [length ?objs]) ! j = (?sp @ [length ?objs]) ! i"
      proof cases
        case 1
        then obtain j where j: "j < k" "m (dest_lo ds i) = Some j" "?sp ! j = ?sp ! i"
          using i2 by blast
        have "dest_lo ds i \<noteq> dest_lo ds k" using j None by auto
        then show ?thesis using j 1 l by (intro exI [of _ j]) (simp add: nth_append)
      next
        case 2
        then show ?thesis by (intro exI [of _ k]) simp
      qed
    qed
    have a2': "\<forall>x j. (m(dest_lo ds k \<mapsto> k)) x = Some j \<longrightarrow> j < Suc k \<and> dest_lo ds j = x"
      using i2' by (auto simp: less_Suc_eq)
    have a3: "\<forall>i<Suc k. (?sp @ [length ?objs]) ! i < length (?objs @ [obj])
            \<and> lo (channel_fragment_instance_id ((?objs @ [obj]) ! ((?sp @ [length ?objs]) ! i))) = dest_lo ds i"
    proof (intro allI impI)
      fix i assume "i < Suc k"
      then consider "i < k" | "i = k" by linarith
      then show "(?sp @ [length ?objs]) ! i < length (?objs @ [obj])
            \<and> lo (channel_fragment_instance_id ((?objs @ [obj]) ! ((?sp @ [length ?objs]) ! i))) = dest_lo ds i"
      proof cases
        case 1
        then have "?sp ! i < length ?objs"
          "lo (channel_fragment_instance_id (?objs ! (?sp ! i))) = dest_lo ds i"
          using i3 by auto
        then show ?thesis using 1 l by (simp add: nth_append)
      next
        case 2
        then show ?thesis using l objlo by (simp add: nth_append)
      qed
    qed
    have a4: "\<forall>a<length (?objs @ [obj]). \<exists>i<Suc k. (?sp @ [length ?objs]) ! i = a"
    proof (intro allI impI)
      fix a assume "a < length (?objs @ [obj])"
      then consider "a < length ?objs" | "a = length ?objs" by fastforce
      then show "\<exists>i<Suc k. (?sp @ [length ?objs]) ! i = a"
      proof cases
        case 1
        then obtain i where "i < k" "?sp ! i = a" using i4 by blast
        then show ?thesis using l by (intro exI [of _ i]) (simp add: nth_append)
      next
        case 2
        then show ?thesis using l by (intro exI [of _ k]) (simp add: nth_append)
      qed
    qed
    have l': "length (?sp @ [length ?objs]) = Suc k" using l by simp
    have c': "length (?objs @ [obj]) = card (dest_lo ds ` {..<Suc k})" using c i6 by simp
    show ?thesis
      unfolding r
      by (rule channels_invI [OF l' a2 a2' a3 a4 c'])
  next
    case (Some j)
    then have j: "j < k" "dest_lo ds j = dest_lo ds k" using i2' by auto
    have r: "add_destination dn bs st ds k (m, cs) =
          (m, \<lparr>objects = ?objs, channel_shared_ptrs = ?sp @ [?sp ! j], channels = ?sp @ [?sp ! j]\<rparr>)"
      using Some l ch by (simp add: add_destination_def dest_lo_def Let_def)
    have c: "card (dest_lo ds ` {..<Suc k}) = card (dest_lo ds ` {..<k})"
    proof -
      have "j \<in> {..<k}" using j by simp
      then have "dest_lo ds j \<in> dest_lo ds ` {..<k}" by (rule imageI)
      then have "dest_lo ds k \<in> dest_lo ds ` {..<k}" using j by simp
      then show ?thesis by (simp add: img insert_absorb)
    qed
    have a2: "\<forall>i<Suc k. \<exists>j'<Suc k. m (dest_lo ds i) = Some j'
                \<and> (?sp @ [?sp ! j]) ! j' = (?sp @ [?sp ! j]) ! i"
    proof (intro allI impI)
      fix i assume "i < Suc k"
      then consider "i < k" | "i = k" by linarith
      then show "\<exists>j'<Suc k. m (dest_lo ds i) = Some j'
                \<and> (?sp @ [?sp ! j]) ! j' = (?sp @ [?sp ! j]) ! i"
      proof cases
        case 1
        then obtain j' where "j' < k" "m (dest_lo ds i) = Some j'" "?sp ! j' = ?sp ! i"
          using i2 by blast
        then show ?thesis using 1 l by (intro exI [of _ j']) (simp add: nth_append)
      next
        case 2
        then show ?thesis using Some j l by (intro exI [of _ j]) (simp add: nth_append)
      qed
    qed
    have a2': "\<forall>x j. m x = Some j \<longrightarrow> j < Suc k \<and> dest_lo ds j = x"
      using i2' by (auto simp: less_Suc_eq)
    have a3: "\<forall>i<Suc k. (?sp @ [?sp ! j]) ! i < length ?objs
            \<and> lo (channel_fragment_instance_id (?objs ! ((?sp @ [?sp ! j]) ! i))) = dest_lo ds i"
    proof (intro allI impI)
      fix i assume "i < Suc k"
      then consider "i < k" | "i = k" by linarith
      then show "(?sp @ [?sp ! j]) ! i < length ?objs
            \<and> lo (channel_fragment_instance_id (?objs ! ((?sp @ [?sp ! j]) ! i))) = dest_lo ds i"
      proof cases
        case 1
        then have "?sp ! i < length ?objs"
          "lo (channel_fragment_instance_id (?objs ! (?sp ! i))) = dest_lo ds i"
          using i3 by auto
        then show ?thesis using 1 l by (simp add: nth_append)
      next
        case 2
        have "?sp ! j < length ?objs"
          "lo (channel_fragment_instance_id (?objs ! (?sp ! j))) = dest_lo ds j"
          using i3 j by auto
        then show ?thesis using 2 l j by (simp add: nth_append)
      qed
    qed
    have a4: "\<forall>a<length ?objs. \<exists>i<Suc k. (?sp @ [?sp ! j]) ! i = a"
    proof (intro allI impI)
      fix a assume "a < length ?objs"
      then obtain i where "i < k" "?sp ! i = a" using i4 by blast
      then show "\<exists>i<Suc k. (?sp @ [?sp ! j]) ! i = a"
        using l by (intro exI [of _ i]) (simp add: nth_append)
    qed
    have l': "length (?sp @ [?sp ! j]) = Suc k" using l by simp
    have c': "length ?objs = card (dest_lo ds ` {..<Suc k})" using c i6 by simp
    show ?thesis
      unfolding r
      by (rule channels_invI [OF l' a2 a2' a3 a4 c'])
  qed
qed

lemma channels_inv_fold:
  "k \<le> length ds \<Longrightarrow>
   channels_inv ds k (fold (add_destination dn bs st ds) [0..<k]
      (Map.empty, \<lparr>objects = [], channel_shared_ptrs = [], channels = []\<rparr>))"
proof (induction k)
  case 0
  then show ?case by (simp add: channels_inv_init)
next
  case (Suc k)
  then have "channels_inv ds k (fold (add_destination dn bs st ds) [0..<k]
      (Map.empty, \<lparr>objects = [], channel_shared_ptrs = [], channels = []\<rparr>))" by simp
  moreover obtain m cs where "fold (add_destination dn bs st ds) [0..<k]
      (Map.empty, \<lparr>objects = [], channel_shared_ptrs = [], channels = []\<rparr>) = (m, cs)"
    by (cases "fold (add_destination dn bs st ds) [0..<k]
      (Map.empty, \<lparr>objects = [], channel_shared_ptrs = [], channels = []\<rparr>)") 
  ultimately show ?case using channels_inv_step [of ds k m cs dn bs st] Suc.prems by simp
qed


text \<open>
  Claim C7, as stated, fails: the map is keyed by the low word of the id only. Two
  destinations whose fragment instance ids differ in the high word get one channel
  object, so there are fewer objects than distinct ids.
\<close>

theorem constructor_shared_lo_counterexample:
  "construct_channels 7 1024 False
     [\<lparr>fragment_instance_id = \<lparr>hi = 1, lo = 5\<rparr>, brpc_server = \<lparr>hostname = ''a'', port = 1\<rparr>\<rparr>,
      \<lparr>fragment_instance_id = \<lparr>hi = 2, lo = 5\<rparr>, brpc_server = \<lparr>hostname = ''b'', port = 1\<rparr>\<rparr>]
     = \<lparr>objects = [new_Channel \<lparr>hostname = ''a'', port = 1\<rparr> \<lparr>hi = 1, lo = 5\<rparr> 7 1024 True False],
        channel_shared_ptrs = [0, 0], channels = [0, 0]\<rparr>
   \<and> \<lparr>hi = 1, lo = 5\<rparr> \<noteq> \<lparr>hi = 2, lo = (5 :: int)\<rparr>"
  by (simp add: construct_channels_def add_destination_def Let_def)

text \<open>
  Claim C7, amended. The constructor makes one entry in the channel list per
  destination, and exactly one channel object per distinct value of
  \<^verbatim>\<open>fragment_instance_id.lo\<close>: two destinations have the same channel object exactly
  when their ids have the same low word, the object of a destination carries that low
  word, and every object is in the list.
\<close>

theorem constructor_shares_channels:
  "length (channels (construct_channels dn bs st ds)) = length ds
   \<and> channels (construct_channels dn bs st ds) = channel_shared_ptrs (construct_channels dn bs st ds)
   \<and> (\<forall>i j. i < length ds \<and> j < length ds \<longrightarrow>
         (channels (construct_channels dn bs st ds) ! i = channels (construct_channels dn bs st ds) ! j)
           = (dest_lo ds i = dest_lo ds j))
   \<and> length (objects (construct_channels dn bs st ds)) = card (dest_lo ds ` {..<length ds})
   \<and> (\<forall>i<length ds.
         channels (construct_channels dn bs st ds) ! i < length (objects (construct_channels dn bs st ds))
         \<and> lo (channel_fragment_instance_id
                 (objects (construct_channels dn bs st ds) ! (channels (construct_channels dn bs st ds) ! i)))
             = dest_lo ds i)
   \<and> set (channels (construct_channels dn bs st ds))
       = {..<length (objects (construct_channels dn bs st ds))}"
proof -
  obtain m cs where f: "fold (add_destination dn bs st ds) [0..<length ds]
      (Map.empty, \<lparr>objects = [], channel_shared_ptrs = [], channels = []\<rparr>) = (m, cs)"
    by (cases "fold (add_destination dn bs st ds) [0..<length ds]
      (Map.empty, \<lparr>objects = [], channel_shared_ptrs = [], channels = []\<rparr>)")
  have cs: "construct_channels dn bs st ds = cs"
    by (simp add: construct_channels_def f)
  let ?k = "length ds"
  let ?sp = "channel_shared_ptrs cs"
  let ?objs = "objects cs"
  have "channels_inv ds ?k (m, cs)"
    using channels_inv_fold [of ?k ds dn bs st] f by simp
  then have
    l: "length ?sp = ?k" and ch: "channels cs = ?sp"
    and i2: "\<forall>i<?k. \<exists>j<?k. m (dest_lo ds i) = Some j \<and> ?sp ! j = ?sp ! i"
    and i3: "\<forall>i<?k. ?sp ! i < length ?objs
            \<and> lo (channel_fragment_instance_id (?objs ! (?sp ! i))) = dest_lo ds i"
    and i4: "\<forall>a<length ?objs. \<exists>i<?k. ?sp ! i = a"
    and i6: "length ?objs = card (dest_lo ds ` {..<?k})"
    by (auto simp: channels_inv_def)
  have same: "\<forall>i j. i < ?k \<and> j < ?k \<longrightarrow> (?sp ! i = ?sp ! j) = (dest_lo ds i = dest_lo ds j)"
  proof (intro allI impI)
    fix i j assume ij: "i < ?k \<and> j < ?k"
    show "(?sp ! i = ?sp ! j) = (dest_lo ds i = dest_lo ds j)"
    proof
      assume "?sp ! i = ?sp ! j"
      then show "dest_lo ds i = dest_lo ds j" using i3 ij by metis
    next
      assume e: "dest_lo ds i = dest_lo ds j"
      obtain a where a: "m (dest_lo ds i) = Some a" "?sp ! a = ?sp ! i" using i2 ij by blast
      obtain b where b: "m (dest_lo ds j) = Some b" "?sp ! b = ?sp ! j" using i2 ij by blast
      from a b e show "?sp ! i = ?sp ! j" by simp
    qed
  qed
  have all: "set ?sp = {..<length ?objs}"
  proof
    show "set ?sp \<subseteq> {..<length ?objs}"
      using i3 l by (auto simp: in_set_conv_nth)
    show "{..<length ?objs} \<subseteq> set ?sp"
      using i4 l by (auto simp: in_set_conv_nth)
  qed
  show ?thesis
    unfolding cs ch using l same i6 i3 all by blast
qed

text \<open>
  The theorem at three destinations, the first and the third with the same id: they
  share their channel object.
\<close>

theorem constructor_shares_channels_witness:
  "(0 :: nat) < length [\<lparr>fragment_instance_id = \<lparr>hi = 1, lo = 5\<rparr>, brpc_server = \<lparr>hostname = ''a'', port = 1\<rparr>\<rparr>,
      \<lparr>fragment_instance_id = \<lparr>hi = 1, lo = 6\<rparr>, brpc_server = \<lparr>hostname = ''b'', port = 1\<rparr>\<rparr>,
      \<lparr>fragment_instance_id = \<lparr>hi = 1, lo = 5\<rparr>, brpc_server = \<lparr>hostname = ''a'', port = 1\<rparr>\<rparr>]
   \<and> (2 :: nat) < length [\<lparr>fragment_instance_id = \<lparr>hi = 1, lo = 5\<rparr>, brpc_server = \<lparr>hostname = ''a'', port = 1\<rparr>\<rparr>,
      \<lparr>fragment_instance_id = \<lparr>hi = 1, lo = 6\<rparr>, brpc_server = \<lparr>hostname = ''b'', port = 1\<rparr>\<rparr>,
      \<lparr>fragment_instance_id = \<lparr>hi = 1, lo = 5\<rparr>, brpc_server = \<lparr>hostname = ''a'', port = 1\<rparr>\<rparr>]
   \<and> channels (construct_channels 7 1024 False
     [\<lparr>fragment_instance_id = \<lparr>hi = 1, lo = 5\<rparr>, brpc_server = \<lparr>hostname = ''a'', port = 1\<rparr>\<rparr>,
      \<lparr>fragment_instance_id = \<lparr>hi = 1, lo = 6\<rparr>, brpc_server = \<lparr>hostname = ''b'', port = 1\<rparr>\<rparr>,
      \<lparr>fragment_instance_id = \<lparr>hi = 1, lo = 5\<rparr>, brpc_server = \<lparr>hostname = ''a'', port = 1\<rparr>\<rparr>]) ! 0
     = channels (construct_channels 7 1024 False
     [\<lparr>fragment_instance_id = \<lparr>hi = 1, lo = 5\<rparr>, brpc_server = \<lparr>hostname = ''a'', port = 1\<rparr>\<rparr>,
      \<lparr>fragment_instance_id = \<lparr>hi = 1, lo = 6\<rparr>, brpc_server = \<lparr>hostname = ''b'', port = 1\<rparr>\<rparr>,
      \<lparr>fragment_instance_id = \<lparr>hi = 1, lo = 5\<rparr>, brpc_server = \<lparr>hostname = ''a'', port = 1\<rparr>\<rparr>]) ! 2"
proof -
  define ds where "ds = [\<lparr>fragment_instance_id = \<lparr>hi = 1, lo = 5\<rparr>, brpc_server = \<lparr>hostname = ''a'', port = 1\<rparr>\<rparr>,
      \<lparr>fragment_instance_id = \<lparr>hi = 1, lo = 6\<rparr>, brpc_server = \<lparr>hostname = ''b'', port = 1\<rparr>\<rparr>,
      \<lparr>fragment_instance_id = \<lparr>hi = 1, lo = 5\<rparr>, brpc_server = \<lparr>hostname = ''a'', port = 1\<rparr>\<rparr>]"
  have l: "(0 :: nat) < length ds" "(2 :: nat) < length ds" by (simp_all add: ds_def)
  have e: "dest_lo ds 0 = dest_lo ds 2" by (simp add: ds_def dest_lo_def)
  have "channels (construct_channels 7 1024 False ds) ! 0 = channels (construct_channels 7 1024 False ds) ! 2"
    using constructor_shares_channels [of 7 1024 False ds] l e by blast
  then show ?thesis using l unfolding ds_def by blast
qed

subsection \<open>The operations of a channel\<close>

text \<open>
  The members of the sender that a channel uses through \<^verbatim>\<open>_parent\<close>: those of
  \<^verbatim>\<open>serialize_chunk\<close>, the threshold \<^verbatim>\<open>_request_bytes_threshold\<close>, \<^verbatim>\<open>_is_vectorized\<close>
  and \<^verbatim>\<open>_close_status\<close>; \<open>logged_errors\<close> is the error log of the \<^verbatim>\<open>RuntimeState\<close>.
\<close>

record channel_parent = sender_compression +
  request_bytes_threshold :: nat
  is_vectorized :: bool
  close_status :: status
  logged_errors :: "status list"

text \<open>
  What a channel takes from outside. \<open>rpc_outcome n\<close> is the status with which the RPC
  of sequence number \<open>n\<close> ends: \<^verbatim>\<open>ThriftRpcError\<close> when the controller has failed, the
  status of the result otherwise; \<^verbatim>\<open>brpc::Join\<close> returns when it is there. The other
  fields are the rounding of a real number to a \<^verbatim>\<open>double\<close>,
  \<^verbatim>\<open>config::rpc_compress_ratio_threshold\<close>, \<^verbatim>\<open>config::vector_chunk_size\<close>,
  the row size of the row descriptor, the operations of \<^verbatim>\<open>vectorized::Chunk\<close> and the
  sizes that \<^verbatim>\<open>RowBatch::serialize\<close> reports for a batch of \<open>n\<close> rows, none of which is
  among the sources.
\<close>

record channel_env =
  rpc_outcome :: "nat \<Rightarrow> status"
  round_to_double :: "real \<Rightarrow> real"
  rpc_compress_ratio_threshold :: real
  config_vector_chunk_size :: nat
  row_size :: int
  append_selective :: "Chunk \<Rightarrow> Chunk \<Rightarrow> nat list \<Rightarrow> nat \<Rightarrow> nat \<Rightarrow> Chunk"
  clone_empty_with_tuple :: "Chunk \<Rightarrow> Chunk"
  resize_columns_0 :: "Chunk \<Rightarrow> Chunk"
  row_batch_bytes :: "nat \<Rightarrow> nat \<times> nat"

text \<open>
  The functions below are total: where the C++ would dereference a null pointer (a
  call before \<^verbatim>\<open>init\<close>, or on a channel whose destination is unreachable) the model
  goes on as if the object were there, and where \<^verbatim>\<open>serialize_chunk\<close> throws, which ends
  the call of the channel there, the model returns \<^verbatim>\<open>InternalError\<close> in its place, so
  that what the C++ does up to that point is a prefix of what the model does.
\<close>

text \<open>\<^verbatim>\<open>Channel::init\<close>.\<close>

definition channel_init :: "channel_env \<Rightarrow> Channel \<Rightarrow> status \<times> Channel" where
  "channel_init env ch =
     (if is_inited ch then (OK, ch)
      else
        let capacity = nat (max 1 (buffer_size ch div max (row_size env) 1));
            ch1 = ch\<lparr>batch := Some (0, capacity)\<rparr>
        in if hostname (brpc_dest_addr ch1) = [] then (InternalError, ch1)
           else
             let ch2 = ch1\<lparr>has_chunk_closure := True\<rparr>
             in if lo (channel_fragment_instance_id ch2) = - 1
                then (OK, ch2\<lparr>is_inited := True\<rparr>)
                else (OK, ch2\<lparr>has_brpc_stub := True, need_close := True, is_inited := True\<rparr>))"

text \<open>\<^verbatim>\<open>Channel::_wait_last_brpc\<close> and \<^verbatim>\<open>Channel::_wait_prev_request\<close>.\<close>

definition wait_last_brpc :: "channel_env \<Rightarrow> Channel \<Rightarrow> status \<times> Channel" where
  "wait_last_brpc env ch =
     (case closure_call ch of
        None \<Rightarrow> (OK, ch)
      | Some n \<Rightarrow> (rpc_outcome env n, ch\<lparr>rpc_events := rpc_events ch @ [Join n]\<rparr>))"

definition wait_prev_request :: "channel_env \<Rightarrow> Channel \<Rightarrow> status \<times> Channel" where
  "wait_prev_request env ch =
     (if request_seq ch = 0 then (OK, ch)
      else case chunk_closure_call ch of
             None \<Rightarrow> (OK, ch)
           | Some n \<Rightarrow> (rpc_outcome env n, ch\<lparr>rpc_events := rpc_events ch @ [Join n]\<rparr>))"

text \<open>\<^verbatim>\<open>Channel::send_batch(batch, eos)\<close>; the batch itself plays no part here.\<close>

definition send_batch :: "channel_env \<Rightarrow> bool \<Rightarrow> Channel \<Rightarrow> status \<times> Channel" where
  "send_batch env eos_in ch =
     (let (st, ch1) = (if \<not> has_closure ch then (OK, ch\<lparr>has_closure := True\<rparr>)
                       else wait_last_brpc env ch)
      in if st \<noteq> OK then (st, ch1)
         else (OK, ch1\<lparr>rpc_events := rpc_events ch1 @ [Transmit (request_seq ch1)],
                      closure_call := Some (request_seq ch1),
                      request_seq := request_seq ch1 + 1\<rparr>))"

text \<open>\<^verbatim>\<open>Channel::_do_send_chunk_rpc(request, attachment)\<close>: the request with its sequence
  number, and the channel.\<close>

definition do_send_chunk_rpc ::
  "PTransmitChunkParams \<Rightarrow> Channel \<Rightarrow> status \<times> PTransmitChunkParams \<times> Channel" where
  "do_send_chunk_rpc request ch =
     (OK, request\<lparr>sequence := request_seq ch\<rparr>,
      ch\<lparr>rpc_events := rpc_events ch @ [Transmit (request_seq ch)],
         chunk_closure_call := Some (request_seq ch),
         request_seq := request_seq ch + 1\<rparr>)"

text \<open>
  \<^verbatim>\<open>DataStreamSender::construct_brpc_attachment\<close>: the data of every chunk moves to
  the attachment, and the chunk keeps its size in \<^verbatim>\<open>data_size\<close>.
\<close>

definition construct_brpc_attachment :: "PTransmitChunkParams \<Rightarrow> PTransmitChunkParams \<times> slice" where
  "construct_brpc_attachment params =
     (params\<lparr>chunks := map (\<lambda>c. c\<lparr>data_size := length (data c), data := []\<rparr>) (chunks params)\<rparr>,
      concat (map data (chunks params)))"

text \<open>
  \<^verbatim>\<open>Channel::send_one_chunk(chunk, eos, is_real_sent)\<close>, in the two blocks it
  consists of. The first appends the chunk, if there is one, to the request: the
  status, the sender and the channel.
\<close>

definition append_chunk ::
  "channel_env \<Rightarrow> Chunk option \<Rightarrow> channel_parent \<times> Channel \<Rightarrow> status \<times> channel_parent \<times> Channel" where
  "append_chunk env chunk_in = (\<lambda>(parent, ch).
     case chunk_in of
       None \<Rightarrow> (OK, parent, ch)
     | Some c \<Rightarrow>
         (case serialize_chunk (round_to_double env) (rpc_compress_ratio_threshold env) c
                 \<lparr>data = [], compress_type = NO_COMPRESSION, uncompressed_size = 0,
                   is_nulls = [], is_consts = [], slot_id_map = [], data_size = 0\<rparr>
                 (is_first_chunk ch) 1 parent of
            None \<Rightarrow> (InternalError, parent, ch)
          | Some (st, pchunk, first, parent1) \<Rightarrow>
              (let ch1 = ch\<lparr>chunk_request :=
                              (chunk_request ch)\<lparr>chunks := chunks (chunk_request ch) @ [pchunk]\<rparr>,
                            is_first_chunk := first\<rparr>
               in if st \<noteq> OK then (st, parent1, ch1)
                  else (OK, parent1,
                        ch1\<lparr>current_request_bytes :=
                               current_request_bytes ch1 + length (data pchunk)\<rparr>))))"

text \<open>
  The second sends the request when enough bytes have accumulated or the stream ends:
  the status, \<^verbatim>\<open>*is_real_sent\<close>, the sender and the channel.
\<close>

definition send_one_chunk ::
  "channel_env \<Rightarrow> Chunk option \<Rightarrow> bool \<Rightarrow> channel_parent \<times> Channel
     \<Rightarrow> status \<times> bool \<times> channel_parent \<times> Channel" where
  "send_one_chunk env chunk_in eos_in pc =
     (let (st, parent1, ch1) = append_chunk env chunk_in pc
      in if st \<noteq> OK then (st, False, parent1, ch1)
         else if current_request_bytes ch1 > request_bytes_threshold parent1 \<or> eos_in
         then (let (st, ch2) = wait_prev_request env ch1
               in if st \<noteq> OK then (st, False, parent1, ch2)
                  else
                    (let request = fst (construct_brpc_attachment ((chunk_request ch2)\<lparr>eos := eos_in\<rparr>));
                         (st, request1, ch3) = do_send_chunk_rpc request ch2
                     in if st \<noteq> OK then (st, False, parent1, ch3\<lparr>chunk_request := request1\<rparr>)
                        else (OK, True, parent1,
                              ch3\<lparr>chunk_request := request1\<lparr>chunks := []\<rparr>,
                                  current_request_bytes := 0\<rparr>)))
         else (OK, False, parent1, ch1))"

text \<open>\<^verbatim>\<open>Channel::send_chunk_request(params, attachment)\<close>.\<close>

definition send_chunk_request ::
  "channel_env \<Rightarrow> PTransmitChunkParams \<Rightarrow> Channel \<Rightarrow> status \<times> PTransmitChunkParams \<times> Channel" where
  "send_chunk_request env params ch =
     (let (st, ch1) = wait_prev_request env ch
      in if st \<noteq> OK then (st, params, ch1)
         else do_send_chunk_rpc params ch1)"

text \<open>\<^verbatim>\<open>DataStreamSender::serialize_batch(src, dest, num_receivers)\<close>, for a batch of
  \<open>n\<close> rows.\<close>

definition serialize_batch_rows ::
  "channel_env \<Rightarrow> nat \<Rightarrow> nat \<Rightarrow> 'a sender_compression_scheme \<Rightarrow> 'a sender_compression_scheme" where
  "serialize_batch_rows env n num_receivers parent =
     (let (uncompressed_bytes, bytes) = row_batch_bytes env n
      in parent\<lparr>bytes_sent_counter := bytes_sent_counter parent + bytes * num_receivers,
                uncompressed_bytes_counter :=
                  uncompressed_bytes_counter parent + uncompressed_bytes * num_receivers\<rparr>)"

text \<open>\<^verbatim>\<open>Channel::send_current_batch(eos)\<close> and \<^verbatim>\<open>Channel::add_row(row)\<close>.\<close>

definition send_current_batch ::
  "channel_env \<Rightarrow> bool \<Rightarrow> channel_parent \<times> Channel \<Rightarrow> status \<times> channel_parent \<times> Channel" where
  "send_current_batch env eos_in = (\<lambda>(parent, ch).
     let n = (case batch ch of None \<Rightarrow> 0 | Some (n, cap) \<Rightarrow> n);
         parent1 = serialize_batch_rows env n 1 parent;
         ch1 = ch\<lparr>batch := map_option (\<lambda>(n, cap). (0, cap)) (batch ch)\<rparr>;
         (st, ch2) = send_batch env eos_in ch1
     in (st, parent1, ch2))"

definition add_row :: "channel_env \<Rightarrow> channel_parent \<times> Channel \<Rightarrow> status \<times> channel_parent \<times> Channel" where
  "add_row env = (\<lambda>(parent, ch).
     case batch ch of
       None \<Rightarrow> (OK, parent, ch)
     | Some (n, cap) \<Rightarrow>
         if n < cap then (OK, parent, ch\<lparr>batch := Some (n + 1, cap)\<rparr>)
         else (let (st, parent1, ch1) = send_current_batch env False (parent, ch)
               in if st \<noteq> OK then (st, parent1, ch1)
                  else (OK, parent1, ch1\<lparr>batch := map_option (\<lambda>(n, cap). (n + 1, cap)) (batch ch1)\<rparr>)))"

text \<open>\<^verbatim>\<open>Channel::_send_current_chunk(eos)\<close> and \<^verbatim>\<open>Channel::add_rows_selective\<close>.\<close>

definition send_current_chunk ::
  "channel_env \<Rightarrow> bool \<Rightarrow> channel_parent \<times> Channel \<Rightarrow> status \<times> channel_parent \<times> Channel" where
  "send_current_chunk env eos_in = (\<lambda>(parent, ch).
     let (st, is_real_sent, parent1, ch1) = send_one_chunk env (chunk ch) eos_in (parent, ch)
     in if st \<noteq> OK then (st, parent1, ch1)
        else (OK, parent1, ch1\<lparr>chunk := map_option (resize_columns_0 env) (chunk ch1)\<rparr>))"

definition add_rows_selective ::
  "channel_env \<Rightarrow> Chunk \<Rightarrow> nat list \<Rightarrow> nat \<Rightarrow> nat \<Rightarrow> channel_parent \<times> Channel
     \<Rightarrow> status \<times> channel_parent \<times> Channel" where
  "add_rows_selective env src indexes from size_in = (\<lambda>(parent, ch).
     let ch1 = (if chunk ch = None then ch\<lparr>chunk := Some (clone_empty_with_tuple env src)\<rparr> else ch);
         full = (case chunk ch1 of None \<Rightarrow> False
                 | Some c \<Rightarrow> num_rows c + size_in > config_vector_chunk_size env);
         (st, parent2, ch2) = (if full then send_current_chunk env False (parent, ch1)
                               else (OK, parent, ch1))
     in if st \<noteq> OK then (st, parent2, ch2)
        else (OK, parent2,
              ch2\<lparr>chunk := map_option (\<lambda>c. append_selective env c src indexes from size_in)
                               (chunk ch2)\<rparr>))"

text \<open>\<^verbatim>\<open>Channel::close_internal\<close>, \<^verbatim>\<open>Channel::close\<close> and \<^verbatim>\<open>Channel::close_wait\<close>.\<close>

definition close_internal ::
  "channel_env \<Rightarrow> channel_parent \<times> Channel \<Rightarrow> status \<times> channel_parent \<times> Channel" where
  "close_internal env = (\<lambda>(parent, ch).
     if \<not> need_close ch then (OK, parent, ch)
     else if is_vectorized parent
     then (if (case chunk ch of None \<Rightarrow> False | Some c \<Rightarrow> num_rows c > 0)
           then send_current_chunk env True (parent, ch)
           else (let (st, is_real_sent, parent1, ch1) = send_one_chunk env None True (parent, ch)
                 in (st, parent1, ch1)))
     else (if (case batch ch of None \<Rightarrow> False | Some (n, cap) \<Rightarrow> n > 0)
           then send_current_batch env True (parent, ch)
           else (let (st, ch1) = send_batch env True ch in (st, parent, ch1))))"

definition channel_close :: "channel_env \<Rightarrow> channel_parent \<times> Channel \<Rightarrow> channel_parent \<times> Channel" where
  "channel_close env pc =
     (let (st, parent1, ch1) = close_internal env pc
      in (parent1\<lparr>logged_errors := logged_errors parent1 @ [st]\<rparr>, ch1))"

definition close_wait :: "channel_env \<Rightarrow> channel_parent \<times> Channel \<Rightarrow> channel_parent \<times> Channel" where
  "close_wait env = (\<lambda>(parent, ch).
     let (parent1, ch1) =
           (if need_close ch
            then (if is_vectorized parent
                  then (let (st, ch1) = wait_prev_request env ch
                        in ((if st \<noteq> OK \<and> close_status parent = OK
                             then parent\<lparr>close_status := st\<rparr> else parent),
                            ch1\<lparr>need_close := False\<rparr>))
                  else (let (st, ch1) = wait_last_brpc env ch
                        in (parent\<lparr>logged_errors := logged_errors parent @ [st]\<rparr>,
                            ch1\<lparr>need_close := False\<rparr>)))
            else (parent, ch))
     in (parent1, ch1\<lparr>batch := None, chunk := None\<rparr>))"

subsection \<open>Calls on a channel, and the order of its RPCs\<close>

text \<open>The public member functions of a channel, as a caller may invoke them.\<close>

datatype channel_call =
    Call_init
  | Call_add_row
  | Call_send_batch bool
  | Call_add_rows_selective Chunk "nat list" nat nat
  | Call_send_one_chunk "Chunk option" bool
  | Call_send_chunk_request PTransmitChunkParams
  | Call_close
  | Call_close_wait

fun apply_call ::
  "channel_env \<Rightarrow> channel_call \<Rightarrow> channel_parent \<times> Channel \<Rightarrow> status \<times> channel_parent \<times> Channel" where
  "apply_call env Call_init (parent, ch) =
     (let (st, ch1) = channel_init env ch in (st, parent, ch1))"
| "apply_call env Call_add_row pc = add_row env pc"
| "apply_call env (Call_send_batch eos_in) (parent, ch) =
     (let (st, ch1) = send_batch env eos_in ch in (st, parent, ch1))"
| "apply_call env (Call_add_rows_selective src indexes from size_in) pc =
     add_rows_selective env src indexes from size_in pc"
| "apply_call env (Call_send_one_chunk chunk_in eos_in) pc =
     (let (st, is_real_sent, parent1, ch1) = send_one_chunk env chunk_in eos_in pc
      in (st, parent1, ch1))"
| "apply_call env (Call_send_chunk_request params) (parent, ch) =
     (let (st, params1, ch1) = send_chunk_request env params ch in (st, parent, ch1))"
| "apply_call env Call_close pc = (let (parent1, ch1) = channel_close env pc in (OK, parent1, ch1))"
| "apply_call env Call_close_wait pc = (let (parent1, ch1) = close_wait env pc in (OK, parent1, ch1))"

text \<open>
  A caller goes on as it likes after a call, whatever the status: the run of a list of
  calls gives the statuses returned, the sender and the channel.
\<close>

fun run_calls ::
  "channel_env \<Rightarrow> channel_call list \<Rightarrow> channel_parent \<times> Channel \<Rightarrow> status list \<times> channel_parent \<times> Channel" where
  "run_calls env [] pc = ([], pc)"
| "run_calls env (c # cs) pc =
     (let (st, pc1) = apply_call env c pc;
          (sts, pc2) = run_calls env cs pc1
      in (st # sts, pc2))"

text \<open>
  A sender is vectorized or not: on a vectorized sender the chunk functions are called,
  on any other the row functions.
\<close>

fun call_allowed :: "bool \<Rightarrow> channel_call \<Rightarrow> bool" where
  "call_allowed vec Call_add_row = (\<not> vec)"
| "call_allowed vec (Call_send_batch eos_in) = (\<not> vec)"
| "call_allowed vec (Call_add_rows_selective src indexes from size_in) = vec"
| "call_allowed vec (Call_send_one_chunk chunk_in eos_in) = vec"
| "call_allowed vec (Call_send_chunk_request params) = vec"
| "call_allowed vec Call_init = True"
| "call_allowed vec Call_close = True"
| "call_allowed vec Call_close_wait = True"

text \<open>
  The RPCs of a channel are in order: reading the events from the start, with the RPC
  in flight (issued and not yet joined) and the next sequence number, \<open>Transmit n\<close> is
  in order when no RPC is in flight, \<open>n\<close> is the next sequence number, and RPC \<open>n - 1\<close>,
  if there is one, has ended with status \<^verbatim>\<open>OK\<close>; \<open>Join n\<close> ends the flight of RPC \<open>n\<close>.
\<close>

definition rpc_step :: "(nat \<Rightarrow> status) \<Rightarrow> rpc_event \<Rightarrow> nat option \<times> nat \<Rightarrow> (nat option \<times> nat) option" where
  "rpc_step outcome ev = (\<lambda>(in_flight, next).
     case ev of
       Transmit n \<Rightarrow>
         if in_flight = None \<and> n = next \<and> (n = 0 \<or> outcome (n - 1) = OK)
         then Some (Some n, Suc n) else None
     | Join n \<Rightarrow> Some (if in_flight = Some n then None else in_flight, next))"

definition rpc_order_ok :: "(nat \<Rightarrow> status) \<Rightarrow> rpc_event list \<Rightarrow> bool" where
  "rpc_order_ok outcome evs = (fold_option (rpc_step outcome) evs (None, 0) \<noteq> None)"

text \<open>
  The invariant of a channel's wire: the events so far are in order and leave at most
  the last RPC in flight, the next sequence number is \<open>request_seq\<close>, and the closure
  of the sender's kind holds the last RPC.
\<close>

definition wire_inv ::
  "(nat \<Rightarrow> status) \<Rightarrow> bool \<Rightarrow> rpc_event list \<Rightarrow> nat \<Rightarrow> nat option \<Rightarrow> nat option \<Rightarrow> bool \<Rightarrow> bool" where
  "wire_inv outcome vec evs seq chunk_call call has_cl =
     (\<exists>in_flight. fold_option (rpc_step outcome) evs (None, 0) = Some (in_flight, seq)
        \<and> (in_flight = None \<or> (0 < seq \<and> in_flight = Some (seq - 1)))
        \<and> (if vec then chunk_call else call) = (if seq = 0 then None else Some (seq - 1))
        \<and> (\<not> vec \<longrightarrow> has_cl = (0 < seq)))"

definition wire_quiet ::
  "(nat \<Rightarrow> status) \<Rightarrow> bool \<Rightarrow> rpc_event list \<Rightarrow> nat \<Rightarrow> nat option \<Rightarrow> nat option \<Rightarrow> bool \<Rightarrow> bool" where
  "wire_quiet outcome vec evs seq chunk_call call has_cl =
     (fold_option (rpc_step outcome) evs (None, 0) = Some (None, seq)
        \<and> (seq = 0 \<or> outcome (seq - 1) = OK)
        \<and> (if vec then chunk_call else call) = (if seq = 0 then None else Some (seq - 1))
        \<and> (\<not> vec \<longrightarrow> has_cl = (0 < seq)))"

definition channel_inv :: "channel_env \<Rightarrow> bool \<Rightarrow> Channel \<Rightarrow> bool" where
  "channel_inv env vec ch =
     wire_inv (rpc_outcome env) vec (rpc_events ch) (request_seq ch) (chunk_closure_call ch)
       (closure_call ch) (has_closure ch)"

definition channel_quiet :: "channel_env \<Rightarrow> bool \<Rightarrow> Channel \<Rightarrow> bool" where
  "channel_quiet env vec ch =
     wire_quiet (rpc_outcome env) vec (rpc_events ch) (request_seq ch) (chunk_closure_call ch)
       (closure_call ch) (has_closure ch)"

lemma fold_option_snoc:
  "fold_option f (xs @ [x]) s = (case fold_option f xs s of None \<Rightarrow> None | Some s' \<Rightarrow> f x s')"
  by (simp add: fold_option_append split: option.splits)

lemma wire_quiet_inv: "wire_quiet outcome vec evs seq cc c h \<Longrightarrow> wire_inv outcome vec evs seq cc c h"
  by (auto simp: wire_quiet_def wire_inv_def)

lemma wire_join:
  assumes "wire_inv outcome vec evs seq cc c h" and "0 < seq"
  shows "wire_inv outcome vec (evs @ [Join (seq - 1)]) seq cc c h"
    and "outcome (seq - 1) = OK \<Longrightarrow> wire_quiet outcome vec (evs @ [Join (seq - 1)]) seq cc c h"
  using assms
  by (auto simp: wire_inv_def wire_quiet_def fold_option_snoc rpc_step_def)

lemma wire_transmit:
  assumes "wire_quiet outcome vec evs seq cc c h"
  shows "wire_inv outcome True (evs @ [Transmit seq]) (Suc seq) (Some seq) c' h'"
    and "wire_inv outcome False (evs @ [Transmit seq]) (Suc seq) cc' (Some seq) True"
  using assms
  by (auto simp: wire_inv_def wire_quiet_def fold_option_snoc rpc_step_def)

lemma wire_start: "wire_quiet outcome vec [] 0 None None False"
  by (simp add: wire_quiet_def)

text \<open>The two waits.\<close>

lemma wait_prev_request_inv:
  assumes "channel_inv env True ch" and "wait_prev_request env ch = (st, ch')"
  shows "channel_inv env True ch'" and "st = OK \<Longrightarrow> channel_quiet env True ch'"
    and "request_seq ch' = request_seq ch"
    and "st \<noteq> OK \<Longrightarrow> 0 < request_seq ch \<and> st = rpc_outcome env (request_seq ch - 1)"
proof -
  show "request_seq ch' = request_seq ch"
    using assms(2) by (auto simp: wait_prev_request_def split: if_splits option.splits)
  show "st \<noteq> OK \<Longrightarrow> 0 < request_seq ch \<and> st = rpc_outcome env (request_seq ch - 1)"
    using assms by (auto simp: wait_prev_request_def channel_inv_def wire_inv_def
        split: if_splits option.splits)
  show "channel_inv env True ch'"
  proof (cases "request_seq ch = 0")
    case True
    then show ?thesis using assms by (simp add: wait_prev_request_def)
  next
    case False
    then have cc: "chunk_closure_call ch = Some (request_seq ch - 1)"
      using assms(1) by (auto simp: channel_inv_def wire_inv_def)
    then have "ch' = ch\<lparr>rpc_events := rpc_events ch @ [Join (request_seq ch - 1)]\<rparr>"
      using assms(2) False by (simp add: wait_prev_request_def)
    then show ?thesis using wire_join(1) [of "rpc_outcome env" True "rpc_events ch" "request_seq ch"]
        assms(1) False by (simp add: channel_inv_def)
  qed
  show "st = OK \<Longrightarrow> channel_quiet env True ch'"
  proof (cases "request_seq ch = 0")
    case True
    assume "st = OK"
    have "ch' = ch" using assms(2) True by (simp add: wait_prev_request_def)
    moreover have "rpc_events ch = [] \<or> True" by simp
    ultimately show ?thesis using assms(1) True
      by (auto simp: channel_inv_def channel_quiet_def wire_inv_def wire_quiet_def)
  next
    case False
    assume ok: "st = OK"
    have cc: "chunk_closure_call ch = Some (request_seq ch - 1)"
      using assms(1) False by (auto simp: channel_inv_def wire_inv_def)
    then have e: "ch' = ch\<lparr>rpc_events := rpc_events ch @ [Join (request_seq ch - 1)]\<rparr>"
      and o: "rpc_outcome env (request_seq ch - 1) = OK"
      using assms(2) False ok by (auto simp: wait_prev_request_def)
    show ?thesis using wire_join(2) [of "rpc_outcome env" True "rpc_events ch" "request_seq ch"]
        assms(1) False o unfolding e by (simp add: channel_inv_def channel_quiet_def)
  qed
qed


lemma channel_inv_update [simp]:
  "channel_inv env vec (ch\<lparr>need_close := a1\<rparr>) = channel_inv env vec ch"
  "channel_inv env vec (ch\<lparr>is_inited := a2\<rparr>) = channel_inv env vec ch"
  "channel_inv env vec (ch\<lparr>is_first_chunk := a3\<rparr>) = channel_inv env vec ch"
  "channel_inv env vec (ch\<lparr>current_request_bytes := a4\<rparr>) = channel_inv env vec ch"
  "channel_inv env vec (ch\<lparr>chunk_request := a5\<rparr>) = channel_inv env vec ch"
  "channel_inv env vec (ch\<lparr>batch := a6\<rparr>) = channel_inv env vec ch"
  "channel_inv env vec (ch\<lparr>chunk := a7\<rparr>) = channel_inv env vec ch"
  "channel_inv env vec (ch\<lparr>has_brpc_stub := a8\<rparr>) = channel_inv env vec ch"
  "channel_inv env vec (ch\<lparr>has_chunk_closure := a9\<rparr>) = channel_inv env vec ch"
  by (simp_all add: channel_inv_def)

lemma channel_quiet_update [simp]:
  "channel_quiet env vec (ch\<lparr>need_close := a1\<rparr>) = channel_quiet env vec ch"
  "channel_quiet env vec (ch\<lparr>is_inited := a2\<rparr>) = channel_quiet env vec ch"
  "channel_quiet env vec (ch\<lparr>is_first_chunk := a3\<rparr>) = channel_quiet env vec ch"
  "channel_quiet env vec (ch\<lparr>current_request_bytes := a4\<rparr>) = channel_quiet env vec ch"
  "channel_quiet env vec (ch\<lparr>chunk_request := a5\<rparr>) = channel_quiet env vec ch"
  "channel_quiet env vec (ch\<lparr>batch := a6\<rparr>) = channel_quiet env vec ch"
  "channel_quiet env vec (ch\<lparr>chunk := a7\<rparr>) = channel_quiet env vec ch"
  "channel_quiet env vec (ch\<lparr>has_brpc_stub := a8\<rparr>) = channel_quiet env vec ch"
  "channel_quiet env vec (ch\<lparr>has_chunk_closure := a9\<rparr>) = channel_quiet env vec ch"
  by (simp_all add: channel_quiet_def)

lemma wait_last_brpc_inv:
  assumes "channel_inv env False ch" and "wait_last_brpc env ch = (st, ch')" and "has_closure ch"
  shows "channel_inv env False ch'" and "st = OK \<Longrightarrow> channel_quiet env False ch'"
proof -
  have pos: "0 < request_seq ch" and cc: "closure_call ch = Some (request_seq ch - 1)"
    using assms(1,3) by (auto simp: channel_inv_def wire_inv_def split: if_splits)
  have e: "ch' = ch\<lparr>rpc_events := rpc_events ch @ [Join (request_seq ch - 1)]\<rparr>"
    and o: "st = rpc_outcome env (request_seq ch - 1)"
    using assms(2) cc by (auto simp: wait_last_brpc_def)
  show "channel_inv env False ch'"
    using wire_join(1) [of "rpc_outcome env" False "rpc_events ch" "request_seq ch"] assms(1) pos
    unfolding e by (simp add: channel_inv_def)
  show "st = OK \<Longrightarrow> channel_quiet env False ch'"
    using wire_join(2) [of "rpc_outcome env" False "rpc_events ch" "request_seq ch"] assms(1) pos o
    unfolding e by (simp add: channel_inv_def channel_quiet_def)
qed

lemma wait_last_brpc_inv_any:
  assumes "channel_inv env False ch" and "wait_last_brpc env ch = (st, ch')"
  shows "channel_inv env False ch'"
proof (cases "closure_call ch")
  case None
  then show ?thesis using assms by (simp add: wait_last_brpc_def)
next
  case (Some n)
  then have "has_closure ch" using assms(1)
    by (auto simp: channel_inv_def wire_inv_def split: if_splits)
  then show ?thesis using wait_last_brpc_inv(1) [OF assms] by simp
qed

lemma do_send_chunk_rpc_inv:
  assumes "channel_quiet env True ch" and "do_send_chunk_rpc request ch = (st, request', ch')"
  shows "channel_inv env True ch'" and "st = OK"
proof -
  have e: "ch' = ch\<lparr>rpc_events := rpc_events ch @ [Transmit (request_seq ch)],
         chunk_closure_call := Some (request_seq ch),
         request_seq := request_seq ch + 1\<rparr>" and "st = OK"
    using assms(2) by (auto simp: do_send_chunk_rpc_def)
  then show "st = OK" by simp
  show "channel_inv env True ch'"
    using wire_transmit(1) [of "rpc_outcome env" True "rpc_events ch" "request_seq ch"
        "chunk_closure_call ch" "closure_call ch" "has_closure ch" "closure_call ch" "has_closure ch"]
      assms(1)
    unfolding e by (simp add: channel_inv_def channel_quiet_def)
qed

lemma send_batch_inv:
  assumes "channel_inv env False ch" and "send_batch env eos_in ch = (st, ch')"
  shows "channel_inv env False ch'"
proof (cases "has_closure ch")
  case False
  then have z: "request_seq ch = 0" "closure_call ch = None"
    using assms(1) by (auto simp: channel_inv_def wire_inv_def split: if_splits)
  have q: "channel_quiet env False ch"
    using assms(1) z False by (auto simp: channel_inv_def channel_quiet_def wire_inv_def wire_quiet_def)
  have e: "ch' = ch\<lparr>has_closure := True, rpc_events := rpc_events ch @ [Transmit (request_seq ch)],
                      closure_call := Some (request_seq ch),
                      request_seq := request_seq ch + 1\<rparr>"
    using assms(2) False by (simp add: send_batch_def)
  show ?thesis
    using wire_transmit(2) [of "rpc_outcome env" False "rpc_events ch" "request_seq ch"
        "chunk_closure_call ch" "closure_call ch" "has_closure ch" "chunk_closure_call ch"] q
    unfolding e by (simp add: channel_inv_def channel_quiet_def)
next
  case True
  obtain st1 ch1 where w: "wait_last_brpc env ch = (st1, ch1)" by (cases "wait_last_brpc env ch")
  note i = wait_last_brpc_inv [OF assms(1) w True]
  show ?thesis
  proof (cases "st1 = OK")
    case False
    then have "ch' = ch1" using assms(2) True w by (simp add: send_batch_def)
    then show ?thesis using i(1) by simp
  next
    case ok: True
    then have e: "ch' = ch1\<lparr>rpc_events := rpc_events ch1 @ [Transmit (request_seq ch1)],
                      closure_call := Some (request_seq ch1),
                      request_seq := request_seq ch1 + 1\<rparr>"
      using assms(2) True w by (simp add: send_batch_def)
    have h: "has_closure ch1" using w True by (auto simp: wait_last_brpc_def split: option.splits)
    show ?thesis
      using wire_transmit(2) [of "rpc_outcome env" False "rpc_events ch1" "request_seq ch1"
          "chunk_closure_call ch1" "closure_call ch1" "has_closure ch1" "chunk_closure_call ch1"]
        i(2) [OF ok] h
      unfolding e by (simp add: channel_inv_def channel_quiet_def)
  qed
qed

lemma serialize_chunk_is_vectorized:
  "serialize_chunk r t c d f n parent = Some (st, d', f', parent') \<Longrightarrow>
     is_vectorized parent' = is_vectorized parent"
  by (auto simp: serialize_chunk_def Let_def split: option.splits if_splits prod.splits)

lemma append_chunk_inv:
  assumes "channel_inv env vec ch" and "append_chunk env chunk_in (parent, ch) = (st, parent', ch')"
  shows "channel_inv env vec ch'" and "is_vectorized parent' = is_vectorized parent"
  using assms
  by (auto simp: append_chunk_def Let_def split: option.splits prod.splits if_splits
      dest: serialize_chunk_is_vectorized)

lemma send_one_chunk_inv:
  assumes "channel_inv env True ch"
    and "send_one_chunk env chunk_in eos_in (parent, ch) = (st, sent, parent', ch')"
  shows "channel_inv env True ch'" and "is_vectorized parent' = is_vectorized parent"
proof -
  obtain st1 parent1 ch1 where pre: "append_chunk env chunk_in (parent, ch) = (st1, parent1, ch1)"
    by (metis prod_cases3)
  note i1 = append_chunk_inv [OF assms(1) pre]
  obtain st2 ch2 where w: "wait_prev_request env ch1 = (st2, ch2)" by (cases "wait_prev_request env ch1")
  note iw = wait_prev_request_inv(1,2) [OF i1(1) w]
  obtain st3 r3 ch3 where d: "do_send_chunk_rpc
      (fst (construct_brpc_attachment ((chunk_request ch2)\<lparr>eos := eos_in\<rparr>))) ch2 = (st3, r3, ch3)"
    by (metis prod_cases3)
  have i3: "st2 = OK \<Longrightarrow> channel_inv env True ch3"
    using do_send_chunk_rpc_inv(1) [OF _ d] iw(2) by simp
  show "is_vectorized parent' = is_vectorized parent"
    using assms(2) i1(2)
    by (auto simp: send_one_chunk_def pre w d Let_def split: if_splits)
  show "channel_inv env True ch'"
    using assms(2) i1(1) iw(1) i3
    by (auto simp: send_one_chunk_def pre w d Let_def split: if_splits)
qed

lemma send_chunk_request_inv:
  assumes "channel_inv env True ch" and "send_chunk_request env params ch = (st, params', ch')"
  shows "channel_inv env True ch'"
proof -
  obtain st2 ch2 where w: "wait_prev_request env ch = (st2, ch2)" by (cases "wait_prev_request env ch")
  note iw = wait_prev_request_inv(1,2) [OF assms(1) w]
  show ?thesis
  proof (cases "st2 = OK")
    case True
    then have "do_send_chunk_rpc params ch2 = (st, params', ch')"
      using assms(2) w by (simp add: send_chunk_request_def)
    then show ?thesis using do_send_chunk_rpc_inv(1) iw(2) True by blast
  next
    case False
    then have "ch' = ch2" using assms(2) w by (simp add: send_chunk_request_def)
    then show ?thesis using iw(1) by simp
  qed
qed


lemma send_current_batch_inv:
  assumes "channel_inv env False ch" and "send_current_batch env eos_in (parent, ch) = (st, parent', ch')"
  shows "channel_inv env False ch'" and "is_vectorized parent' = is_vectorized parent"
proof -
  obtain st2 ch2 where b: "send_batch env eos_in (ch\<lparr>batch := map_option (\<lambda>(n, cap). (0, cap)) (batch ch)\<rparr>)
      = (st2, ch2)" by (metis prod.exhaust)
  have "channel_inv env False ch2" using send_batch_inv [OF _ b] assms(1) by simp
  then show "channel_inv env False ch'"
    using assms(2) b by (auto simp: send_current_batch_def Let_def split: prod.splits)
  show "is_vectorized parent' = is_vectorized parent"
    using assms(2) by (auto simp: send_current_batch_def serialize_batch_rows_def Let_def split: prod.splits)
qed

lemma add_row_inv:
  assumes "channel_inv env False ch" and "add_row env (parent, ch) = (st, parent', ch')"
  shows "channel_inv env False ch'" and "is_vectorized parent' = is_vectorized parent"
proof -
  obtain st2 p2 ch2 where b: "send_current_batch env False (parent, ch) = (st2, p2, ch2)"
    by (metis prod_cases3)
  note i = send_current_batch_inv [OF assms(1) b]
  show "channel_inv env False ch'"
    using assms i b by (auto simp: add_row_def Let_def split: option.splits prod.splits if_splits)
  show "is_vectorized parent' = is_vectorized parent"
    using assms i b by (auto simp: add_row_def Let_def split: option.splits prod.splits if_splits)
qed

lemma send_current_chunk_inv:
  assumes "channel_inv env True ch" and "send_current_chunk env eos_in (parent, ch) = (st, parent', ch')"
  shows "channel_inv env True ch'" and "is_vectorized parent' = is_vectorized parent"
proof -
  obtain st2 sent p2 ch2 where b: "send_one_chunk env (chunk ch) eos_in (parent, ch) = (st2, sent, p2, ch2)"
    by (metis prod_cases4)
  note i = send_one_chunk_inv [OF assms(1) b]
  show "channel_inv env True ch'"
    using assms(2) i b by (auto simp: send_current_chunk_def Let_def split: if_splits)
  show "is_vectorized parent' = is_vectorized parent"
    using assms(2) i b by (auto simp: send_current_chunk_def Let_def split: if_splits)
qed

lemma add_rows_selective_inv:
  assumes "channel_inv env True ch"
    and "add_rows_selective env src indexes from size_in (parent, ch) = (st, parent', ch')"
  shows "channel_inv env True ch'" and "is_vectorized parent' = is_vectorized parent"
proof -
  define ch1 where "ch1 = (if chunk ch = None then ch\<lparr>chunk := Some (clone_empty_with_tuple env src)\<rparr> else ch)"
  have i1: "channel_inv env True ch1" using assms(1) by (simp add: ch1_def)
  obtain st2 p2 ch2 where b: "send_current_chunk env False (parent, ch1) = (st2, p2, ch2)"
    by (metis prod_cases3)
  note i = send_current_chunk_inv [OF i1 b]
  have r: "add_rows_selective env src indexes from size_in (parent, ch) =
     (let full = (case chunk ch1 of None \<Rightarrow> False
                 | Some c \<Rightarrow> num_rows c + size_in > config_vector_chunk_size env);
         (st, parent2, ch2) = (if full then send_current_chunk env False (parent, ch1)
                               else (OK, parent, ch1))
     in if st \<noteq> OK then (st, parent2, ch2)
        else (OK, parent2,
              ch2\<lparr>chunk := map_option (\<lambda>c. append_selective env c src indexes from size_in)
                               (chunk ch2)\<rparr>))"
    by (simp add: add_rows_selective_def ch1_def Let_def)
  show "channel_inv env True ch'"
    using assms(2) i i1 b unfolding r by (auto simp: Let_def split: if_splits)
  show "is_vectorized parent' = is_vectorized parent"
    using assms(2) i i1 b unfolding r by (auto simp: Let_def split: if_splits)
qed

lemma close_internal_inv:
  assumes "channel_inv env (is_vectorized parent) ch"
    and "close_internal env (parent, ch) = (st, parent', ch')"
  shows "channel_inv env (is_vectorized parent) ch'" and "is_vectorized parent' = is_vectorized parent"
proof -
  obtain st1 p1 ch1 where a: "send_current_chunk env True (parent, ch) = (st1, p1, ch1)"
    by (metis prod_cases3)
  obtain st2 sent p2 ch2 where b: "send_one_chunk env None True (parent, ch) = (st2, sent, p2, ch2)"
    by (metis prod_cases4)
  obtain st3 p3 ch3 where c: "send_current_batch env True (parent, ch) = (st3, p3, ch3)"
    by (metis prod_cases3)
  obtain st4 ch4 where d: "send_batch env True ch = (st4, ch4)" by (metis prod.exhaust)
  show "channel_inv env (is_vectorized parent) ch'"
  proof (cases "is_vectorized parent")
    case True
    then show ?thesis
      using assms send_current_chunk_inv(1) [OF _ a] send_one_chunk_inv(1) [OF _ b] a b
      by (auto simp: close_internal_def Let_def split: if_splits)
  next
    case False
    then show ?thesis
      using assms send_current_batch_inv(1) [OF _ c] send_batch_inv [OF _ d] c d
      by (auto simp: close_internal_def Let_def split: if_splits)
  qed
  show "is_vectorized parent' = is_vectorized parent"
  proof (cases "is_vectorized parent")
    case True
    then show ?thesis
      using assms send_current_chunk_inv(2) [OF _ a] send_one_chunk_inv(2) [OF _ b] a b
      by (auto simp: close_internal_def Let_def split: if_splits)
  next
    case False
    then show ?thesis
      using assms send_current_batch_inv(2) [OF _ c] c d
      by (auto simp: close_internal_def Let_def split: if_splits)
  qed
qed

lemma channel_close_inv:
  assumes "channel_inv env (is_vectorized parent) ch"
    and "channel_close env (parent, ch) = (parent', ch')"
  shows "channel_inv env (is_vectorized parent) ch'" and "is_vectorized parent' = is_vectorized parent"
proof -
  obtain st1 p1 ch1 where a: "close_internal env (parent, ch) = (st1, p1, ch1)"
    by (metis prod_cases3)
  note i = close_internal_inv [OF assms(1) a]
  show "channel_inv env (is_vectorized parent) ch'" and "is_vectorized parent' = is_vectorized parent"
    using assms(2) i a by (auto simp: channel_close_def Let_def)
qed

lemma close_wait_inv:
  assumes "channel_inv env (is_vectorized parent) ch"
    and "close_wait env (parent, ch) = (parent', ch')"
  shows "channel_inv env (is_vectorized parent) ch'" and "is_vectorized parent' = is_vectorized parent"
proof -
  obtain st1 ch1 where a: "wait_prev_request env ch = (st1, ch1)" by (metis prod.exhaust)
  obtain st2 ch2 where b: "wait_last_brpc env ch = (st2, ch2)" by (metis prod.exhaust)
  show "channel_inv env (is_vectorized parent) ch'"
  proof (cases "is_vectorized parent")
    case True
    then show ?thesis
      using assms wait_prev_request_inv(1) [OF _ a] a
      by (auto simp: close_wait_def Let_def split: if_splits)
  next
    case False
    then show ?thesis
      using assms wait_last_brpc_inv_any [OF _ b] b
      by (auto simp: close_wait_def Let_def split: if_splits)
  qed
  show "is_vectorized parent' = is_vectorized parent"
    using assms(2) a b by (auto simp: close_wait_def Let_def split: if_splits)
qed

lemma channel_init_inv:
  assumes "channel_inv env vec ch" and "channel_init env ch = (st, ch')"
  shows "channel_inv env vec ch'"
  using assms by (auto simp: channel_init_def Let_def split: if_splits)

lemma apply_call_inv:
  assumes "channel_inv env (is_vectorized parent) ch" and "call_allowed (is_vectorized parent) c"
    and "apply_call env c (parent, ch) = (st, parent', ch')"
  shows "channel_inv env (is_vectorized parent) ch' \<and> is_vectorized parent' = is_vectorized parent"
proof (cases c)
  case Call_init
  then show ?thesis using assms channel_init_inv [of env "is_vectorized parent" ch]
    by (auto simp: Let_def split: prod.splits)
next
  case Call_add_row
  then show ?thesis using assms add_row_inv [of env ch parent st parent' ch'] by auto
next
  case (Call_send_batch e)
  then show ?thesis using assms send_batch_inv [of env ch e]
    by (auto simp: Let_def split: prod.splits)
next
  case (Call_add_rows_selective src ix f sz)
  then show ?thesis using assms add_rows_selective_inv [of env ch src ix f sz parent st parent' ch']
    by auto
next
  case (Call_send_one_chunk co e)
  then show ?thesis using assms send_one_chunk_inv [of env ch co e parent]
    by (auto simp: Let_def split: prod.splits)
next
  case (Call_send_chunk_request ps)
  then show ?thesis using assms send_chunk_request_inv [of env ch ps]
    by (auto simp: Let_def split: prod.splits)
next
  case Call_close
  then show ?thesis using assms channel_close_inv [of env parent ch parent' ch']
    by (auto simp: Let_def split: prod.splits)
next
  case Call_close_wait
  then show ?thesis using assms close_wait_inv [of env parent ch parent' ch']
    by (auto simp: Let_def split: prod.splits)
qed

lemma run_calls_inv:
  assumes "channel_inv env (is_vectorized parent) ch"
    and "list_all (call_allowed (is_vectorized parent)) calls"
    and "run_calls env calls (parent, ch) = (sts, parent', ch')"
  shows "channel_inv env (is_vectorized parent) ch' \<and> is_vectorized parent' = is_vectorized parent"
  using assms
proof (induction calls arbitrary: parent ch sts)
  case Nil
  then show ?case by simp
next
  case (Cons c calls)
  obtain st p1 ch1 where a: "apply_call env c (parent, ch) = (st, p1, ch1)" by (metis prod_cases3)
  obtain sts2 where r: "run_calls env calls (p1, ch1) = (sts2, parent', ch')"
    using Cons.prems(3) a by (auto simp: Let_def split: prod.splits)
  have i: "channel_inv env (is_vectorized parent) ch1 \<and> is_vectorized p1 = is_vectorized parent"
    using apply_call_inv [OF Cons.prems(1) _ a] Cons.prems(2) by simp
  then have "channel_inv env (is_vectorized p1) ch'  \<and> is_vectorized parent' = is_vectorized p1"
    using Cons.IH [of p1 ch1 sts2] Cons.prems(2) r by simp
  then show ?case using i by simp
qed

lemma new_Channel_inv: "channel_inv env vec (new_Channel a f d b t s)"
  by (simp add: channel_inv_def new_Channel_def wire_inv_def)

lemma channel_inv_order: "channel_inv env vec ch \<Longrightarrow> rpc_order_ok (rpc_outcome env) (rpc_events ch)"
  by (auto simp: channel_inv_def wire_inv_def rpc_order_ok_def)

text \<open>The status of a failed RPC comes back from the next attempt to send.\<close>

lemma failed_rpc_is_reported:
  assumes "channel_inv env vec ch" and "0 < request_seq ch"
    and "rpc_outcome env (request_seq ch - 1) \<noteq> OK"
  shows "vec \<Longrightarrow> fst (send_chunk_request env params ch) = rpc_outcome env (request_seq ch - 1)"
    and "vec \<Longrightarrow> fst (send_one_chunk env None True (parent, ch)) = rpc_outcome env (request_seq ch - 1)"
    and "\<not> vec \<Longrightarrow> fst (send_batch env eos_in ch) = rpc_outcome env (request_seq ch - 1)"
proof -
  have c: "vec \<Longrightarrow> chunk_closure_call ch = Some (request_seq ch - 1)"
    "\<not> vec \<Longrightarrow> closure_call ch = Some (request_seq ch - 1) \<and> has_closure ch"
    using assms(1,2) by (auto simp: channel_inv_def wire_inv_def)
  show "vec \<Longrightarrow> fst (send_chunk_request env params ch) = rpc_outcome env (request_seq ch - 1)"
    using c assms(2,3) by (simp add: send_chunk_request_def wait_prev_request_def)
  show "vec \<Longrightarrow> fst (send_one_chunk env None True (parent, ch)) = rpc_outcome env (request_seq ch - 1)"
    using c assms(2,3) by (simp add: send_one_chunk_def append_chunk_def wait_prev_request_def)
  show "\<not> vec \<Longrightarrow> fst (send_batch env eos_in ch) = rpc_outcome env (request_seq ch - 1)"
    using c assms(2,3) by (simp add: send_batch_def wait_last_brpc_def)
qed


text \<open>What the order says about the events before a \<open>Transmit\<close>.\<close>

lemma rpc_run_sound:
  "fold_option (rpc_step outcome) evs (None, 0) = Some (in_flight, next) \<Longrightarrow>
     (\<forall>k<next. Transmit k \<in> set evs)
     \<and> (\<forall>k<next. in_flight \<noteq> Some k \<longrightarrow> Join k \<in> set evs)
     \<and> (\<forall>k. in_flight = Some k \<longrightarrow> k < next)"
proof (induction evs arbitrary: in_flight "next" rule: rev_induct)
  case Nil
  then show ?case by simp
next
  case (snoc e evs)
  from snoc.prems obtain f0 n0 where
    r: "fold_option (rpc_step outcome) evs (None, 0) = Some (f0, n0)"
    and s: "rpc_step outcome e (f0, n0) = Some (in_flight, next)"
    by (auto simp: fold_option_snoc split: option.splits)
  note ih = snoc.IH [OF r]
  show ?case
  proof (cases e)
    case (Transmit n)
    then have "f0 = None" "n = n0" "in_flight = Some n" "next = Suc n"
      using s by (auto simp: rpc_step_def split: if_splits)
    then show ?thesis using ih Transmit by (auto simp: less_Suc_eq)
  next
    case (Join n)
    then have "next = n0" "in_flight = (if f0 = Some n then None else f0)"
      using s by (auto simp: rpc_step_def)
    then show ?thesis using ih Join by (auto split: if_splits)
  qed
qed

lemma rpc_order_ok_before_transmit:
  assumes "rpc_order_ok outcome (pre @ Transmit (Suc n) # post)"
  shows "Transmit n \<in> set pre \<and> Join n \<in> set pre \<and> outcome n = OK"
proof -
  from assms obtain f0 n0 where
    r: "fold_option (rpc_step outcome) pre (None, 0) = Some (f0, n0)"
    and s: "rpc_step outcome (Transmit (Suc n)) (f0, n0) \<noteq> None"
    by (auto simp: rpc_order_ok_def fold_option_append split: option.splits)
  from s have "f0 = None" "n0 = Suc n" "outcome n = OK"
    by (auto simp: rpc_step_def split: if_splits)
  then show ?thesis using rpc_run_sound [OF r] by auto
qed

text \<open>
  Claim C4. Whatever a caller does with a channel of a vectorized sender (chunk
  functions) or of another sender (row functions), from its construction on: the RPCs
  of the channel are in order, that is, an RPC is issued only when no RPC of the channel
  is in flight, with the next sequence number, and after the RPC before it has been
  joined and has ended with \<^verbatim>\<open>OK\<close>; and once the last RPC has ended with an error, the
  next attempt to send returns that error to its caller (and issues nothing).
\<close>

theorem channel_rpcs_in_order:
  assumes "list_all (call_allowed (is_vectorized parent)) calls"
    and "run_calls env calls (parent, new_Channel addr fid dest_node buffer_sz chain stats)
           = (sts, parent', ch')"
  shows "rpc_order_ok (rpc_outcome env) (rpc_events ch')
     \<and> (\<forall>pre post n. rpc_events ch' = pre @ Transmit (Suc n) # post \<longrightarrow>
           Transmit n \<in> set pre \<and> Join n \<in> set pre \<and> rpc_outcome env n = OK)
     \<and> (0 < request_seq ch' \<and> rpc_outcome env (request_seq ch' - 1) \<noteq> OK \<longrightarrow>
          (if is_vectorized parent
           then fst (send_chunk_request env params ch') = rpc_outcome env (request_seq ch' - 1)
                \<and> fst (send_one_chunk env None True (parent', ch'))
                    = rpc_outcome env (request_seq ch' - 1)
                \<and> rpc_order_ok (rpc_outcome env)
                     (rpc_events (snd (snd (send_chunk_request env params ch'))))
           else fst (send_batch env eos_in ch') = rpc_outcome env (request_seq ch' - 1)))"
proof -
  have i: "channel_inv env (is_vectorized parent) ch'"
    using run_calls_inv [OF new_Channel_inv assms] by simp
  then have o: "rpc_order_ok (rpc_outcome env) (rpc_events ch')" by (rule channel_inv_order)
  have b: "\<forall>pre post n. rpc_events ch' = pre @ Transmit (Suc n) # post \<longrightarrow>
           Transmit n \<in> set pre \<and> Join n \<in> set pre \<and> rpc_outcome env n = OK"
    using o rpc_order_ok_before_transmit by metis
  have c: "is_vectorized parent \<Longrightarrow> rpc_order_ok (rpc_outcome env)
                     (rpc_events (snd (snd (send_chunk_request env params ch'))))"
  proof -
    assume v: "is_vectorized parent"
    obtain st ps ch2 where r: "send_chunk_request env params ch' = (st, ps, ch2)"
      by (metis prod_cases3)
    have "channel_inv env True ch2" using send_chunk_request_inv [OF _ r] i v by simp
    then show ?thesis using r channel_inv_order by fastforce
  qed
  show ?thesis
    using o b c failed_rpc_is_reported [OF i] by (simp split: if_splits)
qed


text \<open>
  The theorem at a vectorized channel whose second RPC fails: after \<^verbatim>\<open>init\<close>, three
  calls of \<^verbatim>\<open>send_one_chunk\<close> with the end-of-stream flag issue RPC 0, join it and
  issue RPC 1, and then join RPC 1 and return its error; nothing more is issued.
\<close>

theorem channel_rpcs_in_order_witness:
  "list_all (call_allowed True)
     [Call_init, Call_send_one_chunk None True, Call_send_one_chunk None True,
      Call_send_one_chunk None True]
   \<and> (\<exists>sts parent' ch'.
        run_calls
          \<lparr>rpc_outcome = (\<lambda>n. if n = 1 then ThriftRpcError else OK),
            round_to_double = (\<lambda>x. x), rpc_compress_ratio_threshold = 11 / 10, config_vector_chunk_size = 4096, row_size = 8,
            append_selective = (\<lambda>c src ix f n. c), clone_empty_with_tuple = (\<lambda>c. c),
            resize_columns_0 = (\<lambda>c. c), row_batch_bytes = (\<lambda>n. (n, n))\<rparr>
          [Call_init, Call_send_one_chunk None True, Call_send_one_chunk None True,
           Call_send_one_chunk None True]
          (\<lparr>compress_codec = None, sender_compress_type = NO_COMPRESSION, compression_scratch = [],
             bytes_sent_counter = 0, uncompressed_bytes_counter = 0, request_bytes_threshold = 1024,
             is_vectorized = True, close_status = OK, logged_errors = []\<rparr>,
           new_Channel \<lparr>hostname = ''be1'', port = 8060\<rparr> \<lparr>hi = 1, lo = 5\<rparr> 7 1024 True False)
          = (sts, parent', ch')
        \<and> sts = [OK, OK, OK, ThriftRpcError]
        \<and> rpc_events ch' = [Transmit 0, Join 0, Transmit 1, Join 1]
        \<and> rpc_order_ok (\<lambda>n. if n = 1 then ThriftRpcError else OK) (rpc_events ch')
        \<and> fst (send_chunk_request
                 \<lparr>rpc_outcome = (\<lambda>n. if n = 1 then ThriftRpcError else OK),
                   round_to_double = (\<lambda>x. x), rpc_compress_ratio_threshold = 11 / 10, config_vector_chunk_size = 4096, row_size = 8,
                   append_selective = (\<lambda>c src ix f n. c), clone_empty_with_tuple = (\<lambda>c. c),
                   resize_columns_0 = (\<lambda>c. c), row_batch_bytes = (\<lambda>n. (n, n))\<rparr>
                 \<lparr>chunks = [], eos = False, sequence = 0\<rparr> ch') = ThriftRpcError)"
proof -
  define env where "env = \<lparr>rpc_outcome = (\<lambda>n. if n = 1 then ThriftRpcError else OK),
            round_to_double = (\<lambda>x. x), rpc_compress_ratio_threshold = 11 / 10, config_vector_chunk_size = 4096, row_size = 8,
            append_selective = (\<lambda>c src ix f n. c), clone_empty_with_tuple = (\<lambda>c. c),
            resize_columns_0 = (\<lambda>c. c), row_batch_bytes = (\<lambda>n. (n, n))\<rparr>"
  define parent where "parent = \<lparr>compress_codec = None, sender_compress_type = NO_COMPRESSION,
             compression_scratch = [],
             bytes_sent_counter = 0, uncompressed_bytes_counter = 0, request_bytes_threshold = 1024,
             is_vectorized = True, close_status = OK, logged_errors = []\<rparr>"
  define calls where "calls = [Call_init, Call_send_one_chunk None True, Call_send_one_chunk None True,
      Call_send_one_chunk None True]"
  define ch0 where "ch0 = new_Channel \<lparr>hostname = ''be1'', port = 8060\<rparr> \<lparr>hi = 1, lo = 5\<rparr> 7 1024 True False"
  obtain sts parent' ch' where r: "run_calls env calls (parent, ch0) = (sts, parent', ch')"
    by (metis prod_cases3)
  have a: "list_all (call_allowed (is_vectorized parent)) calls"
    by (simp add: calls_def parent_def)
  have o: "rpc_outcome env = (\<lambda>n. if n = 1 then ThriftRpcError else OK)" by (simp add: env_def)
  have e: "sts = [OK, OK, OK, ThriftRpcError]"
    "rpc_events ch' = [Transmit 0, Join 0, Transmit 1, Join 1]" "request_seq ch' = 2"
    using r
    by (auto simp: calls_def env_def parent_def ch0_def new_Channel_def channel_init_def
        send_one_chunk_def append_chunk_def wait_prev_request_def do_send_chunk_rpc_def
        construct_brpc_attachment_def Let_def)
  note t = channel_rpcs_in_order [OF a r [unfolded ch0_def], of "\<lparr>chunks = [], eos = False, sequence = 0\<rparr>" True]
  have "rpc_order_ok (rpc_outcome env) (rpc_events ch')" using t by blast
  moreover have "fst (send_chunk_request env \<lparr>chunks = [], eos = False, sequence = 0\<rparr> ch') = ThriftRpcError"
    using t e(3) by (simp add: o parent_def)
  ultimately show ?thesis
    using r e a unfolding o unfolding env_def parent_def calls_def ch0_def by auto
qed

subsection \<open>Sending a row batch\<close>

datatype TPartitionType =
  UNPARTITIONED | RANDOM | HASH_PARTITIONED | RANGE_PARTITIONED | BUCKET_SHFFULE_HASH_PARTITIONED

text \<open>
  The members of the sender that \<^verbatim>\<open>send\<close> reads and writes, added to those a
  channel uses: \<open>sender_channels\<close> is
  \<^verbatim>\<open>_channels\<close> (each entry names a channel object), \<open>ignore_rows\<close> is the value of the
  counter \<^verbatim>\<open>IgnoreRows\<close>, and \<open>current_pb_batch\<close> says which of the two buffers
  \<^verbatim>\<open>_pb_batch1\<close> and \<^verbatim>\<open>_pb_batch2\<close> is the current one.
\<close>

record ('e, 'p) sender_partition = channel_parent +
  part_type :: TPartitionType
  sender_channels :: "nat list"
  partition_expr_ctxs :: "'e list"
  partition_infos :: "'p list"
  ignore_not_found :: bool
  ignore_rows :: nat
  current_channel_idx :: nat
  current_pb_batch :: nat

text \<open>
  Expressions, range keys, partitions and hash functions are not among the sources;
  they are parameters: \<^verbatim>\<open>ExprContext::get_value\<close> (\<open>None\<close> is the null pointer),
  \<^verbatim>\<open>PartRangeKey::from_value\<close> and \<^verbatim>\<open>neg_infinite\<close>, \<^verbatim>\<open>PartRange::compare_key\<close>, the
  distribution expressions, the bucket count and the id of a \<^verbatim>\<open>PartitionInfo\<close>,
  \<^verbatim>\<open>RawValue::zlib_crc32\<close> and \<^verbatim>\<open>RawValue::get_hash_value_fvn\<close> (for a value of an
  expression and for a partition id).
\<close>

record ('row, 'e, 'p, 'v, 'k) partition_env =
  get_value :: "'e \<Rightarrow> 'row \<Rightarrow> 'v option"
  from_value :: "'e \<Rightarrow> 'v \<Rightarrow> status \<times> 'k"
  neg_infinite :: 'k
  compare_key :: "'p \<Rightarrow> 'k \<Rightarrow> int"
  distributed_expr_ctxs :: "'p \<Rightarrow> 'e list"
  distributed_bucket :: "'p \<Rightarrow> nat"
  partition_id :: "'p \<Rightarrow> int"
  zlib_crc32 :: "'e \<Rightarrow> 'v option \<Rightarrow> nat \<Rightarrow> nat"
  get_hash_value_fvn :: "'e \<Rightarrow> 'v option \<Rightarrow> nat \<Rightarrow> nat"
  get_hash_value_fvn_id :: "int \<Rightarrow> nat \<Rightarrow> nat"

text \<open>
  The channels are used through two of their functions, which are parameters here
  (any behaviour of a channel is allowed): each takes the channel object, its argument
  and the state of all channel objects, and gives a status and the new state. What
  \<^verbatim>\<open>send\<close> calls on its channels is recorded, in order.
\<close>

record ('row, 'cs) channel_ops =
  op_add_row :: "nat \<Rightarrow> 'row \<Rightarrow> 'cs \<Rightarrow> status \<times> 'cs"
  op_send_batch :: "nat \<Rightarrow> 'row list \<Rightarrow> 'cs \<Rightarrow> status \<times> 'cs"

datatype 'row channel_event = AddRow nat 'row | SendBatch nat "'row list"

text \<open>
  \<^verbatim>\<open>DataStreamSender::binary_find_partition\<close>, with the C++ \<^verbatim>\<open>int\<close> indexes; the loop
  keeps \<open>0 \<le> low\<close> and \<open>high < size\<close>, so \<open>mid\<close> is an index of the array.
\<close>

function binary_search :: "('p \<Rightarrow> 'k \<Rightarrow> int) \<Rightarrow> 'p list \<Rightarrow> 'k \<Rightarrow> int \<Rightarrow> int \<Rightarrow> int" where
  "binary_search cmp ps key low high =
     (if low \<le> high
      then (let mid = low + (high - low) div 2;
                c = cmp (ps ! nat mid) key
            in if c = 0 then mid
               else if c < 0 then binary_search cmp ps key (mid + 1) high
               else binary_search cmp ps key low (mid - 1))
      else - 1)"
  by pat_completeness auto
termination
  by (relation "measure (\<lambda>(cmp, ps, key, low, high). nat (high - low + 1))") auto

declare binary_search.simps [simp del]

definition binary_find_partition ::
  "('row, 'e, 'p, 'v, 'k) partition_env \<Rightarrow> 'p list \<Rightarrow> 'k \<Rightarrow> int" where
  "binary_find_partition env infos key =
     binary_search (compare_key env) infos key 0 (int (length infos) - 1)"

text \<open>
  \<^verbatim>\<open>DataStreamSender::find_partition\<close>: the status, \<^verbatim>\<open>*info\<close> and \<^verbatim>\<open>*ignore\<close>. The
  result is \<open>None\<close> where the C++ reads \<^verbatim>\<open>_partition_infos[0]\<close> of an empty vector.
\<close>

definition find_partition ::
  "('row, 'e, 'p, 'v, 'k) partition_env \<Rightarrow> ('e, 'p, 'z) sender_partition_scheme \<Rightarrow> 'row \<Rightarrow> bool
     \<Rightarrow> (status \<times> 'p option \<times> bool) option" where
  "find_partition env s row ignore_in =
     (case partition_expr_ctxs s of
        [] \<Rightarrow> (case partition_infos s of
                 [] \<Rightarrow> None
               | p # ps \<Rightarrow> Some (OK, Some p, ignore_in))
      | ctx # ctxs \<Rightarrow>
          (let (st, tmpPartKey) =
                 (case get_value env ctx row of
                    Some partition_val \<Rightarrow> from_value env ctx partition_val
                  | None \<Rightarrow> (OK, neg_infinite env))
           in if st \<noteq> OK then Some (st, None, False)
              else
                (let part_index = binary_find_partition env (partition_infos s) tmpPartKey
                 in if part_index < 0
                    then (if ignore_not_found s then Some (OK, None, True)
                          else Some (InternalError, None, False))
                    else Some (OK, Some (partition_infos s ! nat part_index), False))))"

text \<open>
  \<^verbatim>\<open>DataStreamSender::process_distribute\<close>: \<open>None\<close> is the division by a bucket count
  of zero; the 32-bit hash value is a natural number below \<open>2^32\<close>.
\<close>

definition process_distribute ::
  "('row, 'e, 'p, 'v, 'k) partition_env \<Rightarrow> 'row \<Rightarrow> 'p \<Rightarrow> (status \<times> nat) option" where
  "process_distribute env row part =
     (let hash_val = fold (\<lambda>ctx h. zlib_crc32 env ctx (get_value env ctx row) h mod 2 ^ 32)
                       (distributed_expr_ctxs env part) 0
      in if distributed_bucket env part = 0 then None
         else Some (OK, get_hash_value_fvn_id env (partition_id env part)
                          (hash_val mod distributed_bucket env part)))"

text \<open>\<^verbatim>\<open>DataStreamSender::compute_range_part_code\<close>: the status, \<^verbatim>\<open>*hash_value\<close> and
  \<^verbatim>\<open>*ignore\<close>.\<close>

definition compute_range_part_code ::
  "('row, 'e, 'p, 'v, 'k) partition_env \<Rightarrow> ('e, 'p, 'z) sender_partition_scheme \<Rightarrow> 'row \<Rightarrow> nat \<Rightarrow> bool
     \<Rightarrow> (status \<times> nat \<times> bool) option" where
  "compute_range_part_code env s row hash_in ignore_in =
     (case find_partition env s row ignore_in of
        None \<Rightarrow> None
      | Some (st, part, ignore) \<Rightarrow>
          if st \<noteq> OK then Some (st, hash_in, ignore)
          else if ignore then Some (OK, hash_in, ignore)
          else (case part of
                  None \<Rightarrow> None
                | Some p \<Rightarrow>
                    (case process_distribute env row p of
                       None \<Rightarrow> None
                     | Some (st, code) \<Rightarrow> Some (st, code, ignore))))"

text \<open>
  The loop of the range branch of \<^verbatim>\<open>send\<close> over the rows of the batch: the local
  count of ignored rows, the state of the channels and the calls made on them. The
  result is \<open>None\<close> for the division by a channel count of zero.
\<close>

fun send_range_rows ::
  "('row, 'e, 'p, 'v, 'k) partition_env \<Rightarrow> ('row, 'cs) channel_ops
     \<Rightarrow> ('e, 'p, 'z) sender_partition_scheme \<Rightarrow> 'row list
     \<Rightarrow> nat \<times> 'cs \<times> 'row channel_event list
     \<Rightarrow> (status \<times> nat \<times> 'cs \<times> 'row channel_event list) option" where
  "send_range_rows env ops s [] (ignore_count, cs, evs) = Some (OK, ignore_count, cs, evs)"
| "send_range_rows env ops s (row # rows) (ignore_count, cs, evs) =
     (case compute_range_part_code env s row 0 False of
        None \<Rightarrow> None
      | Some (st, hash_val, ignore) \<Rightarrow>
          if st \<noteq> OK then Some (st, ignore_count, cs, evs)
          else if ignore then send_range_rows env ops s rows (ignore_count + 1, cs, evs)
          else if length (sender_channels s) = 0 then None
          else
            (let target = sender_channels s ! (hash_val mod length (sender_channels s));
                 (st, cs1) = op_add_row ops target row cs
             in if st \<noteq> OK then Some (st, ignore_count, cs1, evs @ [AddRow target row])
                else send_range_rows env ops s rows (ignore_count, cs1, evs @ [AddRow target row])))"

text \<open>The loop of the hash branch of \<^verbatim>\<open>send\<close>.\<close>

fun send_hash_rows ::
  "('row, 'e, 'p, 'v, 'k) partition_env \<Rightarrow> ('row, 'cs) channel_ops
     \<Rightarrow> ('e, 'p, 'z) sender_partition_scheme \<Rightarrow> 'row list
     \<Rightarrow> 'cs \<times> 'row channel_event list
     \<Rightarrow> (status \<times> 'cs \<times> 'row channel_event list) option" where
  "send_hash_rows env ops s [] (cs, evs) = Some (OK, cs, evs)"
| "send_hash_rows env ops s (row # rows) (cs, evs) =
     (let hash_val = fold (\<lambda>ctx h. get_hash_value_fvn env ctx (get_value env ctx row) h)
                       (partition_expr_ctxs s) 0
      in if length (sender_channels s) = 0 then None
         else
           (let target = sender_channels s ! (hash_val mod length (sender_channels s));
                (st, cs1) = op_add_row ops target row cs
            in if st \<noteq> OK then Some (st, cs1, evs @ [AddRow target row])
               else send_hash_rows env ops s rows (cs1, evs @ [AddRow target row])))"

text \<open>The loop over the channels of the first branch of \<^verbatim>\<open>send\<close>.\<close>

fun send_batch_to_all ::
  "('row, 'cs) channel_ops \<Rightarrow> 'row list \<Rightarrow> nat list \<Rightarrow> 'cs \<times> 'row channel_event list
     \<Rightarrow> status \<times> 'cs \<times> 'row channel_event list" where
  "send_batch_to_all ops rows [] (cs, evs) = (OK, cs, evs)"
| "send_batch_to_all ops rows (c # channels_left) (cs, evs) =
     (let (st, cs1) = op_send_batch ops c rows cs
      in if st \<noteq> OK then (st, cs1, evs @ [SendBatch c rows])
         else send_batch_to_all ops rows channels_left (cs1, evs @ [SendBatch c rows]))"

text \<open>
  \<^verbatim>\<open>DataStreamSender::send(state, batch)\<close>: the status, the sender, the state of the
  channels and the calls made on the channels. \<^verbatim>\<open>serialize_batch\<close> always returns
  \<^verbatim>\<open>OK\<close>; its byte counters are left out.
\<close>

definition send ::
  "('row, 'e, 'p, 'v, 'k) partition_env \<Rightarrow> ('row, 'cs) channel_ops \<Rightarrow> 'row list
     \<Rightarrow> ('e, 'p, 'z) sender_partition_scheme \<times> 'cs
     \<Rightarrow> (status \<times> ('e, 'p, 'z) sender_partition_scheme \<times> 'cs \<times> 'row channel_event list) option" where
  "send env ops batch_rows = (\<lambda>(s, cs).
     if part_type s = UNPARTITIONED \<or> length (sender_channels s) = 1
     then (let (st, cs1, evs) = send_batch_to_all ops batch_rows (sender_channels s) (cs, [])
           in if st \<noteq> OK then Some (st, s, cs1, evs)
              else Some (OK, s\<lparr>current_pb_batch := (if current_pb_batch s = 1 then 2 else 1)\<rparr>,
                         cs1, evs))
     else if part_type s = RANDOM
     then (if current_channel_idx s < length (sender_channels s)
           then (let current_channel = sender_channels s ! current_channel_idx s;
                     (st, cs1) = op_send_batch ops current_channel batch_rows cs
                 in if st \<noteq> OK then Some (st, s, cs1, [SendBatch current_channel batch_rows])
                    else Some (OK,
                               s\<lparr>current_channel_idx :=
                                    (current_channel_idx s + 1) mod length (sender_channels s)\<rparr>,
                               cs1, [SendBatch current_channel batch_rows]))
           else None)
     else if part_type s = HASH_PARTITIONED
     then (case send_hash_rows env ops s batch_rows (cs, []) of
             None \<Rightarrow> None
           | Some (st, cs1, evs) \<Rightarrow> Some (st, s, cs1, evs))
     else (case send_range_rows env ops s batch_rows (0, cs, []) of
             None \<Rightarrow> None
           | Some (st, ignore_count, cs1, evs) \<Rightarrow>
               if st \<noteq> OK then Some (st, s, cs1, evs)
               else Some (OK, s\<lparr>ignore_rows := ignore_rows s + ignore_count\<rparr>, cs1, evs)))"

text \<open>
  The range key of a row, and the rows that find no partition: the key is there and
  the binary search returns a negative index.
\<close>

definition row_key_status ::
  "('row, 'e, 'p, 'v, 'k) partition_env \<Rightarrow> ('e, 'p, 'z) sender_partition_scheme \<Rightarrow> 'row \<Rightarrow> status \<times> 'k" where
  "row_key_status env s row =
     (case get_value env (hd (partition_expr_ctxs s)) row of
        Some partition_val \<Rightarrow> from_value env (hd (partition_expr_ctxs s)) partition_val
      | None \<Rightarrow> (OK, neg_infinite env))"

definition finds_no_partition ::
  "('row, 'e, 'p, 'v, 'k) partition_env \<Rightarrow> ('e, 'p, 'z) sender_partition_scheme \<Rightarrow> 'row \<Rightarrow> bool" where
  "finds_no_partition env s row =
     (binary_find_partition env (partition_infos s) (snd (row_key_status env s row)) < 0)"

text \<open>The key of a row is in no partition range: no range compares equal to it.\<close>

definition matches_no_range ::
  "('row, 'e, 'p, 'v, 'k) partition_env \<Rightarrow> ('e, 'p, 'z) sender_partition_scheme \<Rightarrow> 'row \<Rightarrow> bool" where
  "matches_no_range env s row =
     list_all (\<lambda>p. compare_key env p (snd (row_key_status env s row)) \<noteq> 0) (partition_infos s)"

text \<open>
  The partitions are in ascending order for a key: a range below the key has only
  ranges below the key before it, a range above the key only such ranges after it.
\<close>

definition ascending_for :: "('p \<Rightarrow> 'k \<Rightarrow> int) \<Rightarrow> 'p list \<Rightarrow> 'k \<Rightarrow> bool" where
  "ascending_for cmp ps key =
     (\<forall>i<length ps. \<forall>j<length ps. i \<le> j \<longrightarrow>
        (cmp (ps ! j) key < 0 \<longrightarrow> cmp (ps ! i) key < 0)
        \<and> (cmp (ps ! i) key > 0 \<longrightarrow> cmp (ps ! j) key > 0))"

subsection \<open>The binary search and the range branch\<close>

lemma binary_search_result:
  "binary_search cmp ps key low high = r \<Longrightarrow>
     r = - 1 \<or> (low \<le> r \<and> r \<le> high \<and> cmp (ps ! nat r) key = 0)"
proof (induction cmp ps key low high arbitrary: r rule: binary_search.induct)
  case (1 cmp ps key low high)
  show ?case
  proof (cases "low \<le> high")
    case False
    then show ?thesis using "1.prems" by (simp add: binary_search.simps [of cmp ps key low high])
  next
    case True
    define mid where "mid = low + (high - low) div 2"
    have m: "low \<le> mid" "mid \<le> high" using True by (auto simp: mid_def)
    consider "cmp (ps ! nat mid) key = 0" | "cmp (ps ! nat mid) key < 0" | "cmp (ps ! nat mid) key > 0"
      by linarith
    then show ?thesis
    proof cases
      case 1
      then have "r = mid" using "1.prems" True by (simp add: binary_search.simps [of cmp ps key low high] mid_def Let_def)
      then show ?thesis using 1 m by simp
    next
      case 2
      then have "binary_search cmp ps key (mid + 1) high = r"
        using "1.prems" True by (simp add: binary_search.simps [of cmp ps key low high] mid_def Let_def)
      from "1.IH"(1) [OF True mid_def refl _ _ this] 2 m show ?thesis by auto
    next
      case 3
      then have "binary_search cmp ps key low (mid - 1) = r"
        using "1.prems" True by (simp add: binary_search.simps [of cmp ps key low high] mid_def Let_def)
      from "1.IH"(2) [OF True mid_def refl _ _ this] 3 m show ?thesis by auto
    qed
  qed
qed

lemma binary_search_complete:
  "0 \<le> low \<Longrightarrow> high < int (length ps) \<Longrightarrow> ascending_for cmp ps key \<Longrightarrow>
   low \<le> m \<Longrightarrow> m \<le> high \<Longrightarrow> cmp (ps ! nat m) key = 0 \<Longrightarrow>
     0 \<le> binary_search cmp ps key low high"
proof (induction cmp ps key low high rule: binary_search.induct)
  case (1 cmp ps key low high)
  have True: "low \<le> high" using "1.prems" by simp
  define mid where "mid = low + (high - low) div 2"
  have mr: "low \<le> mid" "mid \<le> high" using True by (auto simp: mid_def)
  have idx: "nat m < length ps" "nat mid < length ps" using "1.prems" mr by auto
  consider "cmp (ps ! nat mid) key = 0" | "cmp (ps ! nat mid) key < 0" | "cmp (ps ! nat mid) key > 0"
    by linarith
  then show ?case
  proof cases
    case 1
    then have "binary_search cmp ps key low high = mid" using True by (simp add: binary_search.simps [of cmp ps key low high] mid_def Let_def)
    then show ?thesis using mr "1.prems"(1) by simp
  next
    case 2
    have "mid < m"
    proof (rule ccontr)
      assume "\<not> mid < m"
      then have "nat m \<le> nat mid" using "1.prems" by auto
      then have "cmp (ps ! nat m) key < 0"
        using "1.prems"(3) idx 2 unfolding ascending_for_def by blast
      then show False using "1.prems"(6) by simp
    qed
    then have "0 \<le> binary_search cmp ps key (mid + 1) high"
      using "1.IH"(1) [OF True mid_def refl _ _ _ _ "1.prems"(3)] 2 "1.prems" mr by simp
    then show ?thesis using True 2 by (simp add: binary_search.simps [of cmp ps key low high] mid_def Let_def)
  next
    case 3
    have "m < mid"
    proof (rule ccontr)
      assume "\<not> m < mid"
      then have "nat mid \<le> nat m" using "1.prems" mr by auto
      then have "cmp (ps ! nat m) key > 0"
        using "1.prems"(3) idx 3 unfolding ascending_for_def by blast
      then show False using "1.prems"(6) by simp
    qed
    then have "0 \<le> binary_search cmp ps key low (mid - 1)"
      using "1.IH"(2) [OF True mid_def refl _ _ _ _ "1.prems"(3)] 3 "1.prems" mr by simp
    then show ?thesis using True 3 by (simp add: binary_search.simps [of cmp ps key low high] mid_def Let_def)
  qed
qed

lemma binary_find_partition_index:
  "0 \<le> binary_find_partition env infos key \<Longrightarrow>
     nat (binary_find_partition env infos key) < length infos
     \<and> compare_key env (infos ! nat (binary_find_partition env infos key)) key = 0"
  using binary_search_result [of "compare_key env" infos key 0 "int (length infos) - 1", OF refl]
  by (auto simp: binary_find_partition_def)

lemma binary_find_partition_neg:
  "binary_find_partition env infos key < 0 \<longleftrightarrow> binary_find_partition env infos key = - 1"
  using binary_search_result [of "compare_key env" infos key 0 "int (length infos) - 1", OF refl]
  by (auto simp: binary_find_partition_def)

lemma no_range_no_partition:
  "list_all (\<lambda>p. compare_key env p key \<noteq> 0) infos \<Longrightarrow> binary_find_partition env infos key < 0"
proof (rule ccontr)
  assume a: "list_all (\<lambda>p. compare_key env p key \<noteq> 0) infos"
    and "\<not> binary_find_partition env infos key < 0"
  then have "0 \<le> binary_find_partition env infos key" by simp
  from binary_find_partition_index [OF this] a show False
    by (auto simp: list_all_length)
qed

lemma ascending_no_partition:
  assumes "ascending_for (compare_key env) infos key"
  shows "binary_find_partition env infos key < 0
           \<longleftrightarrow> list_all (\<lambda>p. compare_key env p key \<noteq> 0) infos"
proof
  assume n: "binary_find_partition env infos key < 0"
  show "list_all (\<lambda>p. compare_key env p key \<noteq> 0) infos"
  proof (rule ccontr)
    assume "\<not> list_all (\<lambda>p. compare_key env p key \<noteq> 0) infos"
    then obtain i where i: "i < length infos" "compare_key env (infos ! i) key = 0"
      by (auto simp: list_all_length)
    have "0 \<le> binary_search (compare_key env) infos key 0 (int (length infos) - 1)"
      using binary_search_complete [of 0 "int (length infos) - 1" infos "compare_key env" key "int i"]
        assms i by simp
    then show False using n by (simp add: binary_find_partition_def)
  qed
next
  assume "list_all (\<lambda>p. compare_key env p key \<noteq> 0) infos"
  then show "binary_find_partition env infos key < 0" by (rule no_range_no_partition)
qed


text \<open>The rows that were handed to \<^verbatim>\<open>add_row\<close>, in order.\<close>

fun added_rows :: "'row channel_event list \<Rightarrow> 'row list" where
  "added_rows [] = []"
| "added_rows (AddRow c r # evs) = r # added_rows evs"
| "added_rows (SendBatch c rs # evs) = added_rows evs"

text \<open>
  The range branch is taken and runs without a division by zero: the partition type is
  \<^verbatim>\<open>RANGE_PARTITIONED\<close>, there is more than one channel and at least one partition
  expression, and every partition has a bucket.
\<close>

definition range_ready ::
  "('row, 'e, 'p, 'v, 'k) partition_env \<Rightarrow> ('e, 'p, 'z) sender_partition_scheme \<Rightarrow> bool" where
  "range_ready env s =
     (part_type s = RANGE_PARTITIONED \<and> 1 < length (sender_channels s)
      \<and> partition_expr_ctxs s \<noteq> []
      \<and> list_all (\<lambda>p. 0 < distributed_bucket env p) (partition_infos s))"

lemma added_rows_append: "added_rows (xs @ ys) = added_rows xs @ added_rows ys"
  by (induction xs rule: added_rows.induct) auto

lemma compute_range_part_code_cases:
  assumes "range_ready env s"
  shows "fst (row_key_status env s row) \<noteq> OK \<Longrightarrow>
           compute_range_part_code env s row 0 False = Some (fst (row_key_status env s row), 0, False)"
    and "fst (row_key_status env s row) = OK \<Longrightarrow> finds_no_partition env s row \<Longrightarrow> ignore_not_found s \<Longrightarrow>
           compute_range_part_code env s row 0 False = Some (OK, 0, True)"
    and "fst (row_key_status env s row) = OK \<Longrightarrow> finds_no_partition env s row \<Longrightarrow> \<not> ignore_not_found s \<Longrightarrow>
           compute_range_part_code env s row 0 False = Some (InternalError, 0, False)"
    and "fst (row_key_status env s row) = OK \<Longrightarrow> \<not> finds_no_partition env s row \<Longrightarrow>
           \<exists>code. compute_range_part_code env s row 0 False = Some (OK, code, False)"
proof -
  obtain ctx ctxs where c: "partition_expr_ctxs s = ctx # ctxs"
    using assms by (auto simp: range_ready_def neq_Nil_conv)
  obtain st key where k: "row_key_status env s row = (st, key)" by (cases "row_key_status env s row")
  have k': "(case get_value env ctx row of
                    Some partition_val \<Rightarrow> from_value env ctx partition_val
                  | None \<Rightarrow> (OK, neg_infinite env)) = (st, key)"
    using k c by (simp add: row_key_status_def split: option.splits)
  show "fst (row_key_status env s row) \<noteq> OK \<Longrightarrow>
           compute_range_part_code env s row 0 False = Some (fst (row_key_status env s row), 0, False)"
    using k k' c by (simp add: compute_range_part_code_def find_partition_def)
  show "fst (row_key_status env s row) = OK \<Longrightarrow> finds_no_partition env s row \<Longrightarrow> ignore_not_found s \<Longrightarrow>
           compute_range_part_code env s row 0 False = Some (OK, 0, True)"
    using k k' c by (simp add: compute_range_part_code_def find_partition_def finds_no_partition_def)
  show "fst (row_key_status env s row) = OK \<Longrightarrow> finds_no_partition env s row \<Longrightarrow> \<not> ignore_not_found s \<Longrightarrow>
           compute_range_part_code env s row 0 False = Some (InternalError, 0, False)"
    using k k' c by (simp add: compute_range_part_code_def find_partition_def finds_no_partition_def)
  show "fst (row_key_status env s row) = OK \<Longrightarrow> \<not> finds_no_partition env s row \<Longrightarrow>
           \<exists>code. compute_range_part_code env s row 0 False = Some (OK, code, False)"
  proof -
    assume ok: "fst (row_key_status env s row) = OK" and f: "\<not> finds_no_partition env s row"
    then have nn: "0 \<le> binary_find_partition env (partition_infos s) key"
      using k by (simp add: finds_no_partition_def)
    from binary_find_partition_index [OF nn]
    have "nat (binary_find_partition env (partition_infos s) key) < length (partition_infos s)" by simp
    then have "0 < distributed_bucket env
                     (partition_infos s ! nat (binary_find_partition env (partition_infos s) key))"
      using assms by (simp add: range_ready_def list_all_length)
    then show ?thesis
      using k k' c ok nn
      by (simp add: compute_range_part_code_def find_partition_def process_distribute_def Let_def)
  qed
qed

lemma send_range_rows_ignoring:
  assumes "range_ready env s" and "ignore_not_found s"
    and "list_all (\<lambda>row. fst (row_key_status env s row) = OK) rows"
    and "\<forall>c r cs. fst (op_add_row ops c r cs) = OK"
  shows "\<exists>cs' evs'. send_range_rows env ops s rows (ic, cs, evs)
            = Some (OK, ic + length (filter (finds_no_partition env s) rows), cs', evs')
          \<and> added_rows evs' = added_rows evs @ filter (\<lambda>r. \<not> finds_no_partition env s r) rows"
  using assms(3)
proof (induction rows arbitrary: ic cs evs)
  case Nil
  then show ?case by simp
next
  case (Cons row rows)
  have ok: "fst (row_key_status env s row) = OK" and rest: "list_all (\<lambda>row. fst (row_key_status env s row) = OK) rows"
    using Cons.prems by auto
  have nz: "length (sender_channels s) \<noteq> 0" using assms(1) by (auto simp: range_ready_def)
  show ?case
  proof (cases "finds_no_partition env s row")
    case True
    from Cons.IH [OF rest, of "ic + 1" cs evs] obtain cs' evs' where
      "send_range_rows env ops s rows (ic + 1, cs, evs)
            = Some (OK, ic + 1 + length (filter (finds_no_partition env s) rows), cs', evs')"
      "added_rows evs' = added_rows evs @ filter (\<lambda>r. \<not> finds_no_partition env s r) rows"
      by blast
    then show ?thesis
      using compute_range_part_code_cases(2) [OF assms(1) ok True assms(2)] True
      by simp
  next
    case False
    obtain code where c: "compute_range_part_code env s row 0 False = Some (OK, code, False)"
      using compute_range_part_code_cases(4) [OF assms(1) ok False] by blast
    define target where "target = sender_channels s ! (code mod length (sender_channels s))"
    obtain st1 cs1 where a: "op_add_row ops target row cs = (st1, cs1)" by (cases "op_add_row ops target row cs")
    have st1: "st1 = OK" using assms(4) a by (metis fst_conv)
    from Cons.IH [OF rest, of ic cs1 "evs @ [AddRow target row]"] obtain cs' evs' where
      r: "send_range_rows env ops s rows (ic, cs1, evs @ [AddRow target row])
            = Some (OK, ic + length (filter (finds_no_partition env s) rows), cs', evs')"
      "added_rows evs' = added_rows (evs @ [AddRow target row]) @ filter (\<lambda>r. \<not> finds_no_partition env s r) rows"
      by blast
    have "send_range_rows env ops s (row # rows) (ic, cs, evs)
            = send_range_rows env ops s rows (ic, cs1, evs @ [AddRow target row])"
      using c nz a st1 by (simp add: target_def Let_def)
    then show ?thesis using r False by (simp add: added_rows_append)
  qed
qed

lemma send_range_rows_failing:
  assumes "range_ready env s" and "\<not> ignore_not_found s"
    and "\<not> list_all (\<lambda>r. \<not> finds_no_partition env s r) rows"
  shows "\<exists>st cs' evs'. send_range_rows env ops s rows (ic, cs, evs) = Some (st, ic, cs', evs')
          \<and> st \<noteq> OK
          \<and> (list_all (\<lambda>row. fst (row_key_status env s row) = OK) rows
               \<and> (\<forall>c r cs. fst (op_add_row ops c r cs) = OK) \<longrightarrow>
               st = InternalError
               \<and> added_rows evs' = added_rows evs @ takeWhile (\<lambda>r. \<not> finds_no_partition env s r) rows)"
  using assms(3)
proof (induction rows arbitrary: cs evs)
  case Nil
  then show ?case by simp
next
  case (Cons row rows)
  have nz: "length (sender_channels s) \<noteq> 0" using assms(1) by (auto simp: range_ready_def)
  show ?case
  proof (cases "fst (row_key_status env s row) = OK")
    case False
    then show ?thesis
      using compute_range_part_code_cases(1) [OF assms(1) False] by simp
  next
    case ok: True
    show ?thesis
    proof (cases "finds_no_partition env s row")
      case True
      then show ?thesis
        using compute_range_part_code_cases(3) [OF assms(1) ok True assms(2)] by simp
    next
      case False
      then have rest: "\<not> list_all (\<lambda>r. \<not> finds_no_partition env s r) rows"
        using Cons.prems by simp
      obtain code where c: "compute_range_part_code env s row 0 False = Some (OK, code, False)"
        using compute_range_part_code_cases(4) [OF assms(1) ok False] by blast
      define target where "target = sender_channels s ! (code mod length (sender_channels s))"
      obtain st1 cs1 where a: "op_add_row ops target row cs = (st1, cs1)"
        by (cases "op_add_row ops target row cs")
      show ?thesis
      proof (cases "st1 = OK")
        case nok: False
        have e: "send_range_rows env ops s (row # rows) (ic, cs, evs)
                = Some (st1, ic, cs1, evs @ [AddRow target row])"
          using c nz a nok by (simp add: target_def Let_def)
        have nall: "\<not> (\<forall>c r cs. fst (op_add_row ops c r cs) = OK)"
          using a nok by (metis fst_conv)
        show ?thesis
          by (intro exI [of _ st1] exI [of _ cs1] exI [of _ "evs @ [AddRow target row]"])
            (use e nok nall in blast)
      next
        case st1: True
        from Cons.IH [OF rest, of cs1 "evs @ [AddRow target row]"] obtain st cs' evs' where
          r: "send_range_rows env ops s rows (ic, cs1, evs @ [AddRow target row]) = Some (st, ic, cs', evs')"
          "st \<noteq> OK"
          "list_all (\<lambda>row. fst (row_key_status env s row) = OK) rows
               \<and> (\<forall>c r cs. fst (op_add_row ops c r cs) = OK) \<longrightarrow>
               st = InternalError
               \<and> added_rows evs' = added_rows (evs @ [AddRow target row])
                    @ takeWhile (\<lambda>r. \<not> finds_no_partition env s r) rows"
          by blast
        have "send_range_rows env ops s (row # rows) (ic, cs, evs)
                = send_range_rows env ops s rows (ic, cs1, evs @ [AddRow target row])"
          using c nz a st1 by (simp add: target_def Let_def)
        then show ?thesis using r False by (simp add: added_rows_append)
      qed
    qed
  qed
qed


text \<open>
  An example for the range branch: rows and keys are integers, the only partition
  expression yields the row, a partition is a range \<open>[lo, hi)\<close> with one bucket, and the
  channels accept every row and every batch.
\<close>

definition example_partition_env :: "(int, unit, int \<times> int, int, int) partition_env" where
  "example_partition_env =
     \<lparr>get_value = (\<lambda>ctx row. Some row),
      from_value = (\<lambda>ctx v. (OK, v)),
      neg_infinite = - 1000,
      compare_key = (\<lambda>p key. if key < fst p then 1 else if snd p \<le> key then - 1 else 0),
      distributed_expr_ctxs = (\<lambda>p. []),
      distributed_bucket = (\<lambda>p. 1),
      partition_id = fst,
      zlib_crc32 = (\<lambda>ctx v h. h),
      get_hash_value_fvn = (\<lambda>ctx v h. h),
      get_hash_value_fvn_id = (\<lambda>i h. nat \<bar>i\<bar> + h)\<rparr>"

definition example_channel_ops :: "(int, unit) channel_ops" where
  "example_channel_ops = \<lparr>op_add_row = (\<lambda>c row cs. (OK, cs)), op_send_batch = (\<lambda>c rows cs. (OK, cs))\<rparr>"

definition example_range_sender :: "nat list \<Rightarrow> bool \<Rightarrow> (unit, int \<times> int) sender_partition" where
  "example_range_sender chans ignore =
     \<lparr>compress_codec = None, sender_compress_type = NO_COMPRESSION, compression_scratch = [],
      bytes_sent_counter = 0, uncompressed_bytes_counter = 0, request_bytes_threshold = 1024,
      is_vectorized = False, close_status = OK, logged_errors = [],
      part_type = RANGE_PARTITIONED, sender_channels = chans, partition_expr_ctxs = [()],
      partition_infos = [(0, 10), (10, 20)], ignore_not_found = ignore, ignore_rows = 0,
      current_channel_idx = 0, current_pb_batch = 1\<rparr>"

lemma example_finds: "finds_no_partition example_partition_env (example_range_sender chans ig) 50"
  "\<not> finds_no_partition example_partition_env (example_range_sender chans ig) 15"
  by (simp_all add: finds_no_partition_def row_key_status_def example_partition_env_def
      example_range_sender_def binary_find_partition_def binary_search.simps Let_def)

text \<open>
  Claim C8, as stated, fails when the sender has one channel: \<^verbatim>\<open>send\<close> then takes its
  first branch, also for \<^verbatim>\<open>RANGE_PARTITIONED\<close>, and no partition is looked up. The row
  50 finds no partition and \<^verbatim>\<open>ignore_not_found\<close> is false, but \<^verbatim>\<open>send\<close> returns \<^verbatim>\<open>OK\<close>
  and has sent the batch with the row to the channel.
\<close>

theorem range_send_one_channel_counterexample:
  "send example_partition_env example_channel_ops [50] (example_range_sender [0] False, ())
     = Some (OK, (example_range_sender [0] False)\<lparr>current_pb_batch := 2\<rparr>, (), [SendBatch 0 [50]])
   \<and> part_type (example_range_sender [0] False) = RANGE_PARTITIONED
   \<and> \<not> ignore_not_found (example_range_sender [0] False)
   \<and> finds_no_partition example_partition_env (example_range_sender [0] False) 50"
  using example_finds(1) [of "[0]" False]
  by (simp add: send_def example_range_sender_def example_channel_ops_def)

text \<open>
  Claim C8, amended. Under \<^verbatim>\<open>RANGE_PARTITIONED\<close> with more than one channel and a
  partition expression (and no partition with zero buckets): if \<^verbatim>\<open>ignore_not_found\<close> is
  true, and no key conversion and no channel fails, \<^verbatim>\<open>send\<close> returns \<^verbatim>\<open>OK\<close>, adds
  exactly the rows that find a partition to the channels, and adds the number of the
  rows that find none to \<^verbatim>\<open>IgnoreRows\<close>; if \<^verbatim>\<open>ignore_not_found\<close> is false and a row
  finds no partition, \<^verbatim>\<open>send\<close> returns an error and leaves \<^verbatim>\<open>IgnoreRows\<close> alone, and
  the error is \<^verbatim>\<open>InternalError\<close>, raised at the first such row, when nothing else
  fails. A row whose key is in no range finds no partition, and with the partitions in
  ascending order only such rows find none.
\<close>

theorem range_send_unmatched_rows:
  assumes "range_ready env s"
  shows "(ignore_not_found s
            \<and> list_all (\<lambda>row. fst (row_key_status env s row) = OK) rows
            \<and> (\<forall>c r cs. fst (op_add_row ops c r cs) = OK) \<longrightarrow>
          (\<exists>cs' evs. send env ops rows (s, cs)
               = Some (OK, s\<lparr>ignore_rows := ignore_rows s
                                 + length (filter (finds_no_partition env s) rows)\<rparr>, cs', evs)
             \<and> added_rows evs = filter (\<lambda>r. \<not> finds_no_partition env s r) rows))
       \<and> (\<not> ignore_not_found s \<and> \<not> list_all (\<lambda>r. \<not> finds_no_partition env s r) rows \<longrightarrow>
          (\<exists>st cs' evs. send env ops rows (s, cs) = Some (st, s, cs', evs) \<and> st \<noteq> OK
             \<and> (list_all (\<lambda>row. fst (row_key_status env s row) = OK) rows
                   \<and> (\<forall>c r cs. fst (op_add_row ops c r cs) = OK) \<longrightarrow>
                 st = InternalError
                 \<and> added_rows evs = takeWhile (\<lambda>r. \<not> finds_no_partition env s r) rows)))
       \<and> (\<forall>row. matches_no_range env s row \<longrightarrow> finds_no_partition env s row)
       \<and> (\<forall>row. ascending_for (compare_key env) (partition_infos s) (snd (row_key_status env s row))
             \<longrightarrow> finds_no_partition env s row = matches_no_range env s row)"
proof -
  have br: "part_type s \<noteq> UNPARTITIONED" "length (sender_channels s) \<noteq> 1" "part_type s \<noteq> RANDOM"
    "part_type s \<noteq> HASH_PARTITIONED"
    using assms by (auto simp: range_ready_def)
  have sd: "send env ops rows (s, cs) =
     (case send_range_rows env ops s rows (0, cs, []) of
             None \<Rightarrow> None
           | Some (st, ignore_count, cs1, evs) \<Rightarrow>
               if st \<noteq> OK then Some (st, s, cs1, evs)
               else Some (OK, s\<lparr>ignore_rows := ignore_rows s + ignore_count\<rparr>, cs1, evs))"
    using br by (simp add: send_def)
  have a: "ignore_not_found s
            \<and> list_all (\<lambda>row. fst (row_key_status env s row) = OK) rows
            \<and> (\<forall>c r cs. fst (op_add_row ops c r cs) = OK) \<longrightarrow>
          (\<exists>cs' evs. send env ops rows (s, cs)
               = Some (OK, s\<lparr>ignore_rows := ignore_rows s
                                 + length (filter (finds_no_partition env s) rows)\<rparr>, cs', evs)
             \<and> added_rows evs = filter (\<lambda>r. \<not> finds_no_partition env s r) rows)"
  proof
    assume h: "ignore_not_found s
            \<and> list_all (\<lambda>row. fst (row_key_status env s row) = OK) rows
            \<and> (\<forall>c r cs. fst (op_add_row ops c r cs) = OK)"
    from send_range_rows_ignoring [OF assms, of rows ops 0 cs "[]"] h obtain cs' evs' where
      "send_range_rows env ops s rows (0, cs, [])
            = Some (OK, 0 + length (filter (finds_no_partition env s) rows), cs', evs')"
      "added_rows evs' = added_rows [] @ filter (\<lambda>r. \<not> finds_no_partition env s r) rows"
      by blast
    then show "\<exists>cs' evs. send env ops rows (s, cs)
               = Some (OK, s\<lparr>ignore_rows := ignore_rows s
                                 + length (filter (finds_no_partition env s) rows)\<rparr>, cs', evs)
             \<and> added_rows evs = filter (\<lambda>r. \<not> finds_no_partition env s r) rows"
      unfolding sd by simp
  qed
  have b: "\<not> ignore_not_found s \<and> \<not> list_all (\<lambda>r. \<not> finds_no_partition env s r) rows \<longrightarrow>
          (\<exists>st cs' evs. send env ops rows (s, cs) = Some (st, s, cs', evs) \<and> st \<noteq> OK
             \<and> (list_all (\<lambda>row. fst (row_key_status env s row) = OK) rows
                   \<and> (\<forall>c r cs. fst (op_add_row ops c r cs) = OK) \<longrightarrow>
                 st = InternalError
                 \<and> added_rows evs = takeWhile (\<lambda>r. \<not> finds_no_partition env s r) rows))"
  proof
    assume h: "\<not> ignore_not_found s \<and> \<not> list_all (\<lambda>r. \<not> finds_no_partition env s r) rows"
    from send_range_rows_failing [OF assms, of rows ops 0 cs "[]"] h obtain st cs' evs' where
      r: "send_range_rows env ops s rows (0, cs, []) = Some (st, 0, cs', evs')" "st \<noteq> OK"
      "list_all (\<lambda>row. fst (row_key_status env s row) = OK) rows
               \<and> (\<forall>c r cs. fst (op_add_row ops c r cs) = OK) \<longrightarrow>
               st = InternalError
               \<and> added_rows evs' = added_rows [] @ takeWhile (\<lambda>r. \<not> finds_no_partition env s r) rows"
      by blast
    have "send env ops rows (s, cs) = Some (st, s, cs', evs')"
      unfolding sd using r(1,2) by simp
    then show "\<exists>st cs' evs. send env ops rows (s, cs) = Some (st, s, cs', evs) \<and> st \<noteq> OK
             \<and> (list_all (\<lambda>row. fst (row_key_status env s row) = OK) rows
                   \<and> (\<forall>c r cs. fst (op_add_row ops c r cs) = OK) \<longrightarrow>
                 st = InternalError
                 \<and> added_rows evs = takeWhile (\<lambda>r. \<not> finds_no_partition env s r) rows)"
      using r(2,3) by auto
  qed
  have c: "\<forall>row. matches_no_range env s row \<longrightarrow> finds_no_partition env s row"
    by (simp add: matches_no_range_def finds_no_partition_def no_range_no_partition)
  have d: "\<forall>row. ascending_for (compare_key env) (partition_infos s) (snd (row_key_status env s row))
             \<longrightarrow> finds_no_partition env s row = matches_no_range env s row"
    by (simp add: matches_no_range_def finds_no_partition_def ascending_no_partition)
  show ?thesis using a b c d by blast
qed

text \<open>
  The theorem at two channels and the rows 15, 50 and 5: with \<^verbatim>\<open>ignore_not_found\<close> the
  rows 15 and 5 are added and one row is counted; without it \<^verbatim>\<open>send\<close> returns
  \<^verbatim>\<open>InternalError\<close> after it has added the row 15.
\<close>

theorem range_send_unmatched_rows_witness:
  "range_ready example_partition_env (example_range_sender [0, 1] True)
   \<and> (\<exists>cs' evs. send example_partition_env example_channel_ops [15, 50, 5]
                   (example_range_sender [0, 1] True, ())
          = Some (OK, (example_range_sender [0, 1] True)\<lparr>ignore_rows := 1\<rparr>, cs', evs)
        \<and> added_rows evs = [15, 5])
   \<and> range_ready example_partition_env (example_range_sender [0, 1] False)
   \<and> (\<exists>cs' evs. send example_partition_env example_channel_ops [15, 50, 5]
                   (example_range_sender [0, 1] False, ())
          = Some (InternalError, example_range_sender [0, 1] False, cs', evs)
        \<and> added_rows evs = [15])"
proof -
  have f: "finds_no_partition example_partition_env (example_range_sender chans ig) 50"
    "\<not> finds_no_partition example_partition_env (example_range_sender chans ig) 15"
    "\<not> finds_no_partition example_partition_env (example_range_sender chans ig) 5" for chans ig
    by (simp_all add: finds_no_partition_def row_key_status_def example_partition_env_def
      example_range_sender_def binary_find_partition_def binary_search.simps Let_def)
  have r: "range_ready example_partition_env (example_range_sender [0, 1] ig)" for ig
    by (simp add: range_ready_def example_range_sender_def example_partition_env_def)
  have k: "list_all (\<lambda>row. fst (row_key_status example_partition_env (example_range_sender [0, 1] ig) row) = OK)
             [15, 50, 5]" for ig
    by (simp add: row_key_status_def example_partition_env_def)
  have o: "\<forall>c r cs. fst (op_add_row example_channel_ops c r cs) = OK"
    by (simp add: example_channel_ops_def)
  have i: "ignore_not_found (example_range_sender [0, 1] True)"
    "\<not> ignore_not_found (example_range_sender [0, 1] False)"
    "ignore_rows (example_range_sender [0, 1] True) = 0"
    by (simp_all add: example_range_sender_def)
  note t1 = range_send_unmatched_rows [OF r [of True], of "[15, 50, 5]" example_channel_ops "()"]
  note t2 = range_send_unmatched_rows [OF r [of False], of "[15, 50, 5]" example_channel_ops "()"]
  have a: "\<exists>cs' evs. send example_partition_env example_channel_ops [15, 50, 5]
                   (example_range_sender [0, 1] True, ())
          = Some (OK, (example_range_sender [0, 1] True)\<lparr>ignore_rows := 1\<rparr>, cs', evs)
        \<and> added_rows evs = [15, 5]"
    using t1 k o i f by simp
  have b: "\<exists>cs' evs. send example_partition_env example_channel_ops [15, 50, 5]
                   (example_range_sender [0, 1] False, ())
          = Some (InternalError, example_range_sender [0, 1] False, cs', evs)
        \<and> added_rows evs = [15]"
    using t2 k o i f by auto
  show ?thesis using a b r by blast
qed

subsection \<open>Sending a chunk\<close>

text \<open>
  The members of the sender that \<^verbatim>\<open>send_chunk\<close> adds: the scratch vectors of the hash
  shuffle and the request of the broadcast (\<^verbatim>\<open>_chunk_request\<close>,
  \<^verbatim>\<open>_current_request_bytes\<close> and \<^verbatim>\<open>_is_first_chunk\<close> of the sender, which a channel has
  under the same names). The element type of \<^verbatim>\<open>_channel_row_idx_start_points\<close> is
  declared in the header, which is not among the sources; it holds row counts, which
  are below \<open>2^16\<close>, and is a list of natural numbers here.
\<close>

record ('e, 'p) DataStreamSender = "('e, 'p) sender_partition" +
  hash_values :: "nat list"
  channel_row_idx_start_points :: "nat list"
  row_indexes :: "nat list"
  sender_chunk_request :: PTransmitChunkParams
  sender_current_request_bytes :: nat
  sender_is_first_chunk :: bool

text \<open>
  The hash functions of a column are parameters: \<^verbatim>\<open>Column::fvn_hash\<close> and
  \<^verbatim>\<open>Column::crc32_hash\<close> of the column that a partition expression evaluates to on the
  chunk, for a row and the hash value so far, and \<^verbatim>\<open>HashUtil::FNV_SEED\<close>.
\<close>

record 'e chunk_hash_env =
  fvn_hash :: "'e \<Rightarrow> Chunk \<Rightarrow> nat \<Rightarrow> nat \<Rightarrow> nat"
  crc32_hash :: "'e \<Rightarrow> Chunk \<Rightarrow> nat \<Rightarrow> nat \<Rightarrow> nat"
  FNV_SEED :: nat

text \<open>
  The functions of a channel that \<^verbatim>\<open>send_chunk\<close> calls are parameters, as for
  \<^verbatim>\<open>send\<close>, and the calls are recorded in order. The fragment instance id of a
  channel is set by its constructor and assigned nowhere else, so
  \<^verbatim>\<open>get_fragment_instance_id\<close> does not depend on the state of the channels.
\<close>

record 'cs chunk_channel_ops =
  op_add_rows_selective :: "nat \<Rightarrow> Chunk \<Rightarrow> nat list \<Rightarrow> nat \<Rightarrow> nat \<Rightarrow> 'cs \<Rightarrow> status \<times> 'cs"
  op_send_one_chunk :: "nat \<Rightarrow> Chunk \<Rightarrow> bool \<Rightarrow> 'cs \<Rightarrow> status \<times> bool \<times> 'cs"
  op_send_chunk_request ::
    "nat \<Rightarrow> PTransmitChunkParams \<Rightarrow> slice \<Rightarrow> 'cs \<Rightarrow> status \<times> PTransmitChunkParams \<times> 'cs"
  op_get_fragment_instance_id :: "nat \<Rightarrow> TUniqueId"

datatype chunk_channel_event =
    AddRowsSelective nat "nat list" nat nat
  | SendOneChunk nat bool
  | SendChunkRequest nat

text \<open>The 32-bit hash value of every row: the seed, run through every partition column.\<close>

definition compute_hash_values ::
  "'e chunk_hash_env \<Rightarrow> TPartitionType \<Rightarrow> 'e list \<Rightarrow> Chunk \<Rightarrow> nat \<Rightarrow> nat list" where
  "compute_hash_values env ptype exprs chunk_in n_rows =
     (if ptype = HASH_PARTITIONED
      then fold (\<lambda>e hv. map (\<lambda>i. fvn_hash env e chunk_in i (hv ! i) mod 2 ^ 32) [0..<n_rows])
             exprs (replicate n_rows (FNV_SEED env mod 2 ^ 32))
      else fold (\<lambda>e hv. map (\<lambda>i. crc32_hash env e chunk_in i (hv ! i) mod 2 ^ 32) [0..<n_rows])
             exprs (replicate n_rows 0))"

text \<open>
  The three loops that compute the row indexes of each channel. In all of them the
  result is \<open>None\<close> when an index is out of the range of its vector. The first counts
  the rows of each channel and overwrites the hash value of the row with the channel
  index, a \<^verbatim>\<open>uint16_t\<close>.
\<close>

definition count_row :: "nat \<Rightarrow> nat \<Rightarrow> nat list \<times> nat list \<Rightarrow> (nat list \<times> nat list) option" where
  "count_row num_channels i = (\<lambda>(hv, sp).
     if i < length hv \<and> num_channels \<noteq> 0
     then (let channel_index = (hv ! i mod num_channels) mod 2 ^ 16
           in if channel_index < length sp
              then Some (hv[i := channel_index], sp[channel_index := sp ! channel_index + 1])
              else None)
     else None)"

text \<open>The second turns the counts into running sums, so that the last is the number of rows.\<close>

definition prefix_sum :: "nat \<Rightarrow> nat list \<Rightarrow> nat list option" where
  "prefix_sum i sp =
     (if i < length sp \<and> 0 < i then Some (sp[i := sp ! i + sp ! (i - 1)]) else None)"

text \<open>
  The third runs from the last row down to the first (\<open>fill_row_indexes hv i\<close> handles the
  rows below \<open>i\<close>) and puts each row before the rows of its channel already placed.
\<close>

fun fill_row_indexes :: "nat list \<Rightarrow> nat \<Rightarrow> nat list \<times> nat list \<Rightarrow> (nat list \<times> nat list) option" where
  "fill_row_indexes hv 0 st = Some st"
| "fill_row_indexes hv (Suc i) (sp, ri) =
     (if i < length hv \<and> hv ! i < length sp \<and> 0 < sp ! (hv ! i) \<and> sp ! (hv ! i) - 1 < length ri
      then fill_row_indexes hv i (sp[hv ! i := sp ! (hv ! i) - 1], ri[sp ! (hv ! i) - 1 := i])
      else None)"

definition compute_row_indexes ::
  "nat \<Rightarrow> nat \<Rightarrow> nat list \<Rightarrow> nat list \<Rightarrow> (nat list \<times> nat list \<times> nat list) option" where
  "compute_row_indexes n_rows num_channels hv ri =
     (case fold_option (count_row num_channels) [0..<n_rows] (hv, replicate (num_channels + 1) 0) of
        None \<Rightarrow> None
      | Some (hv1, sp1) \<Rightarrow>
          (case fold_option prefix_sum [1..<num_channels + 1] sp1 of
             None \<Rightarrow> None
           | Some sp2 \<Rightarrow>
               (case fill_row_indexes hv1 n_rows (sp2, ri) of
                  None \<Rightarrow> None
                | Some (sp3, ri3) \<Rightarrow> Some (hv1, sp3, ri3))))"

text \<open>
  The loop over the channels that hands each channel its rows; \<open>None\<close> stands for a
  start point past the next one, where the size would wrap around.
\<close>

fun dispatch_channels ::
  "'cs chunk_channel_ops \<Rightarrow> Chunk \<Rightarrow> nat list \<Rightarrow> nat list \<Rightarrow> nat list \<Rightarrow> nat list
     \<Rightarrow> 'cs \<times> chunk_channel_event list \<Rightarrow> (status \<times> 'cs \<times> chunk_channel_event list) option" where
  "dispatch_channels ops chunk_in sp ri chans [] (cs, evs) = Some (OK, cs, evs)"
| "dispatch_channels ops chunk_in sp ri chans (i # is) (cs, evs) =
     (if \<not> (Suc i < length sp \<and> i < length chans \<and> sp ! i \<le> sp ! Suc i) then None
      else
        (let from = sp ! i;
             size_i = sp ! Suc i - from
         in if size_i = 0 then dispatch_channels ops chunk_in sp ri chans is (cs, evs)
            else if lo (op_get_fragment_instance_id ops (chans ! i)) = - 1
            then dispatch_channels ops chunk_in sp ri chans is (cs, evs)
            else (let (st, cs1) = op_add_rows_selective ops (chans ! i) chunk_in ri from size_i cs
                  in if st \<noteq> OK
                     then Some (st, cs1, evs @ [AddRowsSelective (chans ! i) ri from size_i])
                     else dispatch_channels ops chunk_in sp ri chans is
                            (cs1, evs @ [AddRowsSelective (chans ! i) ri from size_i]))))"

text \<open>
  The loop over the channels of the broadcast branch. Every channel is given the
  request of the sender itself and writes into it (its sequence number, for one), so
  the request goes from one call to the next.
\<close>

fun send_request_to_all ::
  "'cs chunk_channel_ops \<Rightarrow> slice \<Rightarrow> nat list
     \<Rightarrow> PTransmitChunkParams \<times> 'cs \<times> chunk_channel_event list
     \<Rightarrow> status \<times> PTransmitChunkParams \<times> 'cs \<times> chunk_channel_event list" where
  "send_request_to_all ops attachment [] (request, cs, evs) = (OK, request, cs, evs)"
| "send_request_to_all ops attachment (c # channels_left) (request, cs, evs) =
     (let (st, request1, cs1) = op_send_chunk_request ops c request attachment cs
      in if st \<noteq> OK then (st, request1, cs1, evs @ [SendChunkRequest c])
         else send_request_to_all ops attachment channels_left
                (request1, cs1, evs @ [SendChunkRequest c]))"

text \<open>
  \<^verbatim>\<open>DataStreamSender::send_chunk(state, chunk)\<close>: the status, the sender, the state of
  the channels and the calls made on the channels; \<open>to_double\<close> and \<open>threshold\<close> are
  those of \<^verbatim>\<open>serialize_chunk\<close>. The number of rows is read into a \<^verbatim>\<open>uint16_t\<close>. For a
  partition type that none of the branches names, the \<^verbatim>\<open>DCHECK(false)\<close> of the last
  branch is all there is, and \<^verbatim>\<open>OK\<close> is returned. The result is \<open>None\<close> where
  \<^verbatim>\<open>serialize_chunk\<close> throws and where an index is out of the range of its vector.
\<close>

definition send_chunk ::
  "(real \<Rightarrow> real) \<Rightarrow> real \<Rightarrow> 'e chunk_hash_env \<Rightarrow> 'cs chunk_channel_ops \<Rightarrow> Chunk
     \<Rightarrow> ('e, 'p) DataStreamSender \<times> 'cs
     \<Rightarrow> (status \<times> ('e, 'p) DataStreamSender \<times> 'cs \<times> chunk_channel_event list) option" where
  "send_chunk to_double threshold env ops chunk_in = (\<lambda>(s, cs).
     let n_rows = num_rows chunk_in mod 2 ^ 16 in
     if n_rows = 0 then Some (OK, s, cs, [])
     else if part_type s = UNPARTITIONED \<or> length (sender_channels s) = 1
     then (case serialize_chunk to_double threshold chunk_in
                  \<lparr>data = [], compress_type = NO_COMPRESSION, uncompressed_size = 0,
                    is_nulls = [], is_consts = [], slot_id_map = [], data_size = 0\<rparr>
                  (sender_is_first_chunk s) (length (sender_channels s)) s of
             None \<Rightarrow> None
           | Some (st, pchunk, first, s1) \<Rightarrow>
               (let s2 = s1\<lparr>sender_chunk_request :=
                              (sender_chunk_request s1)
                                \<lparr>chunks := chunks (sender_chunk_request s1) @ [pchunk]\<rparr>,
                            sender_is_first_chunk := first\<rparr>
                in if st \<noteq> OK then Some (st, s2, cs, [])
                   else
                     (let s3 = s2\<lparr>sender_current_request_bytes :=
                                    sender_current_request_bytes s2 + length (data pchunk)\<rparr>
                      in if sender_current_request_bytes s3 > request_bytes_threshold s3
                         then (let (request, attachment) =
                                     construct_brpc_attachment (sender_chunk_request s3);
                                   (st, request1, cs1, evs) =
                                     send_request_to_all ops attachment (sender_channels s3)
                                       (request, cs, [])
                               in if st \<noteq> OK
                                  then Some (st, s3\<lparr>sender_chunk_request := request1\<rparr>, cs1, evs)
                                  else Some (OK,
                                             s3\<lparr>sender_current_request_bytes := 0,
                                                sender_chunk_request := request1\<lparr>chunks := []\<rparr>\<rparr>,
                                             cs1, evs))
                         else Some (OK, s3, cs, []))))
     else if part_type s = RANDOM
     then (if current_channel_idx s < length (sender_channels s)
           then (let c = sender_channels s ! current_channel_idx s;
                     (st, real_sent, cs1) = op_send_one_chunk ops c chunk_in False cs
                 in if st \<noteq> OK then Some (st, s, cs1, [SendOneChunk c False])
                    else Some (OK,
                               (if real_sent
                                then s\<lparr>current_channel_idx :=
                                         (current_channel_idx s + 1) mod length (sender_channels s)\<rparr>
                                else s),
                               cs1, [SendOneChunk c False]))
           else None)
     else if part_type s = HASH_PARTITIONED \<or> part_type s = BUCKET_SHFFULE_HASH_PARTITIONED
     then (let num_channels = length (sender_channels s);
               hv = compute_hash_values env (part_type s) (partition_expr_ctxs s) chunk_in n_rows
           in case compute_row_indexes n_rows num_channels hv (row_indexes s) of
                None \<Rightarrow> None
              | Some (hv1, sp, ri) \<Rightarrow>
                  (let s1 = s\<lparr>hash_values := hv1, channel_row_idx_start_points := sp,
                              row_indexes := ri\<rparr>
                   in case dispatch_channels ops chunk_in sp ri (sender_channels s) [0..<num_channels]
                             (cs, []) of
                        None \<Rightarrow> None
                      | Some (st, cs1, evs) \<Rightarrow> Some (st, s1, cs1, evs)))
     else Some (OK, s, cs, []))"

text \<open>
  The rows of channel \<open>c\<close> among the first \<open>n\<close> rows, for the channel \<open>k i\<close> of each row
  \<open>i\<close>, and the number of rows of the channels below \<open>c\<close>.
\<close>

definition rows_of_channel :: "(nat \<Rightarrow> nat) \<Rightarrow> nat \<Rightarrow> nat \<Rightarrow> nat list" where
  "rows_of_channel k n c = filter (\<lambda>i. k i = c) [0..<n]"

definition rows_below_channel :: "(nat \<Rightarrow> nat) \<Rightarrow> nat \<Rightarrow> nat \<Rightarrow> nat" where
  "rows_below_channel k n c = length (filter (\<lambda>i. k i < c) [0..<n])"

subsection \<open>The counting sort of the hash branch\<close>

text \<open>The number of rows of channel \<open>c\<close> among the first \<open>j\<close> rows.\<close>

definition cnt_lt :: "(nat \<Rightarrow> nat) \<Rightarrow> nat \<Rightarrow> nat \<Rightarrow> nat" where
  "cnt_lt k j c = length (filter (\<lambda>i. k i = c) [0..<j])"

lemma cnt_lt_0 [simp]: "cnt_lt k 0 c = 0"
  by (simp add: cnt_lt_def)

lemma cnt_lt_Suc: "cnt_lt k (Suc j) c = (if k j = c then Suc (cnt_lt k j c) else cnt_lt k j c)"
  by (simp add: cnt_lt_def)

lemma cnt_lt_rows: "cnt_lt k n c = length (rows_of_channel k n c)"
  by (simp add: cnt_lt_def rows_of_channel_def)

lemma rows_below_Suc: "rows_below_channel k n (Suc c) = rows_below_channel k n c + cnt_lt k n c"
proof (induction n)
  case 0 show ?case by (simp add: rows_below_channel_def)
next
  case (Suc n)
  then show ?case by (auto simp: rows_below_channel_def cnt_lt_def)
qed

lemma rows_below_0 [simp]: "rows_below_channel k n 0 = 0"
  by (simp add: rows_below_channel_def)

lemma rows_below_mono: "c \<le> d \<Longrightarrow> rows_below_channel k n c \<le> rows_below_channel k n d"
  by (induction d) (auto simp: rows_below_Suc le_Suc_eq)

lemma rows_below_all: "\<forall>i<n. k i < c \<Longrightarrow> rows_below_channel k n c = n"
  by (simp add: rows_below_channel_def)

lemma count_rows:
  assumes n: "0 < n" "n \<le> 2 ^ 16" and j: "j \<le> length hv"
  shows "fold_option (count_row n) [0..<j] (hv, replicate (n + 1) 0)
         = Some (map (\<lambda>i. hv ! i mod n) [0..<j] @ drop j hv,
                 map (cnt_lt (\<lambda>i. hv ! i mod n) j) [0..<n + 1])"
  using j
proof (induction j)
  case 0
  show ?case by (simp add: map_replicate_trivial [symmetric] del: replicate_Suc upt_Suc)
next
  case (Suc j)
  let ?k = "\<lambda>i. hv ! i mod n"
  have IH: "fold_option (count_row n) [0..<j] (hv, replicate (n + 1) 0)
         = Some (map ?k [0..<j] @ drop j hv, map (cnt_lt ?k j) [0..<n + 1])"
    using Suc by simp
  have jl: "j < length hv" using Suc.prems by simp
  have kj: "?k j < n" using n by simp
  have "?k j < 2 ^ 16" using kj n by linarith
  then have m: "?k j mod 2 ^ 16 = ?k j" by (rule mod_less)
  have nthj: "(map ?k [0..<j] @ drop j hv) ! j = hv ! j"
    using jl by (simp add: nth_append)
  have upd: "(map ?k [0..<j] @ drop j hv)[j := ?k j] = map ?k [0..<Suc j] @ drop (Suc j) hv"
    using jl by (intro nth_equalityI) (auto simp: nth_append nth_list_update less_Suc_eq)
  have sp: "(map (cnt_lt ?k j) [0..<n + 1])[?k j := map (cnt_lt ?k j) [0..<n + 1] ! ?k j + 1]
            = map (cnt_lt ?k (Suc j)) [0..<n + 1]"
    using kj by (intro nth_equalityI) (auto simp: nth_list_update cnt_lt_Suc simp del: upt_Suc)
  have step: "count_row n j (map ?k [0..<j] @ drop j hv, map (cnt_lt ?k j) [0..<n + 1])
        = Some (map ?k [0..<Suc j] @ drop (Suc j) hv, map (cnt_lt ?k (Suc j)) [0..<n + 1])"
    unfolding count_row_def using jl n kj
    by (simp only: prod.case nthj m Let_def upd sp) (simp del: upt_Suc)
  have "[0..<Suc j] = [0..<j] @ [j]" by simp
  then show ?case
    by (simp only: fold_option_snoc IH option.case step)
qed


lemma prefix_sums:
  assumes j: "j \<le> n"
  shows "fold_option prefix_sum [1..<j + 1] (map (cnt_lt k m) [0..<n + 1])
         = Some (map (\<lambda>c. if c \<le> j then rows_below_channel k m (Suc c) else cnt_lt k m c) [0..<n + 1])"
  using j
proof (induction j)
  case 0
  have "map (cnt_lt k m) [0..<n + 1]
        = map (\<lambda>c. if c \<le> 0 then rows_below_channel k m (Suc c) else cnt_lt k m c) [0..<n + 1]"
    by (intro nth_equalityI) (auto simp: rows_below_Suc simp del: upt_Suc)
  then show ?case by simp
next
  case (Suc j)
  let ?f = "\<lambda>j c. if c \<le> j then rows_below_channel k m (Suc c) else cnt_lt k m c"
  have IH: "fold_option prefix_sum [1..<j + 1] (map (cnt_lt k m) [0..<n + 1])
         = Some (map (?f j) [0..<n + 1])"
    using Suc by simp
  have jn: "Suc j < n + 1" using Suc.prems by simp
  have upd: "(map (?f j) [0..<n + 1])[Suc j := map (?f j) [0..<n + 1] ! Suc j + map (?f j) [0..<n + 1] ! (Suc j - 1)]
             = map (?f (Suc j)) [0..<n + 1]"
    using jn
    by (intro nth_equalityI) (auto simp: nth_list_update rows_below_Suc [of k m "Suc j"] simp del: upt_Suc)
  have step: "prefix_sum (Suc j) (map (?f j) [0..<n + 1]) = Some (map (?f (Suc j)) [0..<n + 1])"
    unfolding prefix_sum_def using jn by (simp only: upd) (simp del: upt_Suc)
  have "[1..<Suc j + 1] = [1..<j + 1] @ [Suc j]" by simp
  then show ?case
    by (simp only: fold_option_snoc IH option.case step)
qed

text \<open>
  What holds in the third loop when the rows from \<open>j\<close> on are placed: the start point
  of a channel is past the rows of the channels below it and past its own rows below
  \<open>j\<close>, and from there on its rows from \<open>j\<close> on stand in ascending order.
\<close>

definition fill_inv :: "(nat \<Rightarrow> nat) \<Rightarrow> nat \<Rightarrow> nat \<Rightarrow> nat \<Rightarrow> nat list \<times> nat list \<Rightarrow> bool" where
  "fill_inv k m n j = (\<lambda>(sp, ri).
     length sp = n + 1 \<and> m \<le> length ri \<and>
     (\<forall>c\<le>n. sp ! c = rows_below_channel k m c + cnt_lt k j c) \<and>
     (\<forall>c<n. take (cnt_lt k m c - cnt_lt k j c) (drop (sp ! c) ri) = filter (\<lambda>i. k i = c) [j..<m]))"

lemma cnt_lt_mono: "j \<le> m \<Longrightarrow> cnt_lt k j c \<le> cnt_lt k m c"
proof (induction m)
  case 0 then show ?case by simp
next
  case (Suc m) then show ?case by (auto simp: cnt_lt_Suc le_Suc_eq)
qed

lemma fill_step:
  assumes inv: "fill_inv k m n (Suc j) (sp, ri)" and j: "j < m" and kn: "\<forall>i<m. k i < n"
  shows "0 < sp ! (k j) \<and> sp ! (k j) - 1 < length ri \<and> k j < length sp \<and>
         fill_inv k m n j (sp[k j := sp ! (k j) - 1], ri[sp ! (k j) - 1 := j])"
proof -
  let ?c = "k j"
  let ?B = "rows_below_channel k m"
  have len: "length sp = n + 1" and lr: "m \<le> length ri"
    and sp: "\<And>c. c \<le> n \<Longrightarrow> sp ! c = ?B c + cnt_lt k (Suc j) c"
    and win: "\<And>c. c < n \<Longrightarrow> take (cnt_lt k m c - cnt_lt k (Suc j) c) (drop (sp ! c) ri)
                 = filter (\<lambda>i. k i = c) [Suc j..<m]"
    using inv by (auto simp: fill_inv_def)
  have cn: "?c < n" using kn j by simp
  have spc: "sp ! ?c = ?B ?c + Suc (cnt_lt k j ?c)" using sp [of ?c] cn by (simp add: cnt_lt_Suc)
  have le1: "cnt_lt k (Suc j) ?c \<le> cnt_lt k m ?c" using j by (intro cnt_lt_mono) simp
  have Bn: "?B n = m" using kn by (rule rows_below_all)
  have "?B (Suc ?c) \<le> ?B n" using cn by (intro rows_below_mono) simp
  then have BS: "?B ?c + cnt_lt k m ?c \<le> m" using Bn by (simp add: rows_below_Suc)
  have pos: "sp ! ?c - 1 = ?B ?c + cnt_lt k j ?c" using spc by simp
  have posm: "sp ! ?c - 1 < m" using pos le1 BS by (simp add: cnt_lt_Suc)
  let ?p = "sp ! ?c - 1"
  let ?sp = "sp[?c := ?p]" and ?ri = "ri[?p := j]"
  have a: "\<forall>c\<le>n. ?sp ! c = ?B c + cnt_lt k j c"
  proof (intro allI impI)
    fix c assume c: "c \<le> n"
    show "?sp ! c = ?B c + cnt_lt k j c"
    proof (cases "c = ?c")
      case True
      then show ?thesis using len cn pos by simp
    next
      case False
      then show ?thesis using sp [OF c] by (simp add: cnt_lt_Suc)
    qed
  qed
  have b: "take (cnt_lt k m c - cnt_lt k j c) (drop (?sp ! c) ?ri) = filter (\<lambda>i. k i = c) [j..<m]"
    if c: "c < n" for c
  proof (cases "c = ?c")
    case True
    have d: "cnt_lt k m c - cnt_lt k j c = Suc (cnt_lt k m c - cnt_lt k (Suc j) c)"
      using le1 True by (simp add: cnt_lt_Suc)
    have e: "?sp ! c = ?p" using True cn len by simp
    have pl: "?p < length ri" using posm lr by simp
    have f: "drop ?p ?ri = j # drop (Suc ?p) ri"
      using pl by (simp add: Cons_nth_drop_Suc [symmetric] drop_update_cancel)
    have g: "Suc ?p = sp ! c" using spc True by simp
    have h: "[j..<m] = j # [Suc j..<m]" using j by (simp add: upt_conv_Cons)
    have "take (cnt_lt k m c - cnt_lt k (Suc j) c) (drop (Suc ?p) ri)
          = filter (\<lambda>i. k i = c) [Suc j..<m]"
      unfolding g by (rule win [OF c])
    then show ?thesis
      unfolding d e f h using True by simp
  next
    case False
    have e: "?sp ! c = sp ! c" using False by simp
    have d: "cnt_lt k j c = cnt_lt k (Suc j) c" using False by (auto simp: cnt_lt_Suc)
    have h: "filter (\<lambda>i. k i = c) [j..<m] = filter (\<lambda>i. k i = c) [Suc j..<m]"
      using j False by (auto simp: upt_conv_Cons)
    have lec: "cnt_lt k (Suc j) c \<le> cnt_lt k m c" using j by (intro cnt_lt_mono) simp
    have out: "?p < sp ! c \<or> sp ! c + (cnt_lt k m c - cnt_lt k (Suc j) c) \<le> ?p"
    proof (cases "c < ?c")
      case True
      then have "?B (Suc c) \<le> ?B ?c" by (intro rows_below_mono) simp
      then have "sp ! c + (cnt_lt k m c - cnt_lt k (Suc j) c) \<le> ?B ?c"
        using sp [of c] c lec by (simp add: rows_below_Suc)
      then show ?thesis using pos by simp
    next
      case F: False
      then have "Suc ?c \<le> c" using False by simp
      then have "?B (Suc ?c) \<le> ?B c" by (rule rows_below_mono)
      then have "?p < sp ! c" using sp [of c] c pos le1 by (simp add: rows_below_Suc cnt_lt_Suc)
      then show ?thesis by simp
    qed
    have "take (cnt_lt k m c - cnt_lt k (Suc j) c) (drop (sp ! c) ?ri)
          = take (cnt_lt k m c - cnt_lt k (Suc j) c) (drop (sp ! c) ri)"
      using out by (intro nth_equalityI) (auto simp: nth_list_update)
    then show ?thesis unfolding e d h using win [OF c] by simp
  qed
  have "fill_inv k m n j (?sp, ?ri)"
    unfolding fill_inv_def using len lr a b by simp
  moreover have "0 < sp ! ?c" using spc by simp
  moreover have "?p < length ri" using posm lr by simp
  moreover have "?c < length sp" using cn len by simp
  ultimately show ?thesis by blast
qed

lemma fill_rows:
  assumes "fill_inv k m n j (sp, ri)" and "j \<le> m" and "\<forall>i<m. k i < n" and "\<forall>i<m. hv ! i = k i"
    and "m \<le> length hv"
  shows "\<exists>sp' ri'. fill_row_indexes hv j (sp, ri) = Some (sp', ri') \<and> fill_inv k m n 0 (sp', ri')"
  using assms(1,2)
proof (induction j arbitrary: sp ri)
  case 0
  then show ?case by simp
next
  case (Suc j)
  have j: "j < m" using Suc.prems by simp
  have h: "hv ! j = k j" "j < length hv" using assms(4,5) j by simp_all
  from fill_step [OF Suc.prems(1) j assms(3)]
  have a: "0 < sp ! (k j)" "sp ! (k j) - 1 < length ri" "k j < length sp"
    and b: "fill_inv k m n j (sp[k j := sp ! (k j) - 1], ri[sp ! (k j) - 1 := j])"
    by blast+
  have "fill_row_indexes hv (Suc j) (sp, ri)
        = fill_row_indexes hv j (sp[k j := sp ! (k j) - 1], ri[sp ! (k j) - 1 := j])"
    using a h by simp
  then show ?case using Suc.IH [OF b] j by simp
qed

lemma fill_inv_start:
  assumes "m \<le> length ri"
  shows "fill_inv k m n m
           (map (\<lambda>c. if c \<le> n then rows_below_channel k m (Suc c) else cnt_lt k m c) [0..<n + 1], ri)"
  unfolding fill_inv_def using assms by (simp add: rows_below_Suc del: upt_Suc)

lemma fill_inv_final:
  assumes inv: "fill_inv k m n 0 (sp, ri)" and kn: "\<forall>i<m. k i < n"
  shows "sp = map (rows_below_channel k m) [0..<n + 1]"
    and "\<forall>c<n. take (sp ! Suc c - sp ! c) (drop (sp ! c) ri) = rows_of_channel k m c"
    and "take m ri = concat (map (rows_of_channel k m) [0..<n])"
proof -
  have len: "length sp = n + 1"
    and sp: "\<And>c. c \<le> n \<Longrightarrow> sp ! c = rows_below_channel k m c"
    and win: "\<And>c. c < n \<Longrightarrow> take (cnt_lt k m c) (drop (sp ! c) ri) = rows_of_channel k m c"
    using inv by (auto simp: fill_inv_def rows_of_channel_def)
  show a: "sp = map (rows_below_channel k m) [0..<n + 1]"
    using len sp by (intro nth_equalityI) (auto simp del: upt_Suc)
  show "\<forall>c<n. take (sp ! Suc c - sp ! c) (drop (sp ! c) ri) = rows_of_channel k m c"
    using sp win by (auto simp: rows_below_Suc)
  have "c \<le> n \<Longrightarrow> take (rows_below_channel k m c) ri = concat (map (rows_of_channel k m) [0..<c])" for c
  proof (induction c)
    case 0
    show ?case by simp
  next
    case (Suc c)
    have "take (rows_below_channel k m (Suc c)) ri
          = take (rows_below_channel k m c) ri @ take (cnt_lt k m c) (drop (rows_below_channel k m c) ri)"
      by (simp add: rows_below_Suc take_add)
    also have "\<dots> = concat (map (rows_of_channel k m) [0..<c]) @ rows_of_channel k m c"
      using Suc win [of c] sp [of c] by simp
    finally show ?case by simp
  qed
  from this [of n] show "take m ri = concat (map (rows_of_channel k m) [0..<n])"
    using rows_below_all [OF kn] by simp
qed

lemma rows_of_channels_distinct:
  "distinct (concat (map (rows_of_channel k m) [0..<c]))
   \<and> set (concat (map (rows_of_channel k m) [0..<c])) = {i. i < m \<and> k i < c}"
proof (induction c)
  case 0
  show ?case by simp
next
  case (Suc c)
  then show ?case by (auto simp: rows_of_channel_def less_Suc_eq)
qed

lemma fold_map_length:
  "length hv0 = m \<Longrightarrow> length (fold (\<lambda>e hv. map (f e hv) [0..<m]) exprs hv0) = m"
  by (induction exprs arbitrary: hv0) simp_all

lemma compute_hash_values_length [simp]:
  "length (compute_hash_values env ptype exprs chunk_in m) = m"
  using fold_map_length [of "replicate m (FNV_SEED env mod 2 ^ 32)" m
          "\<lambda>e hv i. fvn_hash env e chunk_in i (hv ! i) mod 2 ^ 32" exprs]
        fold_map_length [of "replicate m 0" m
          "\<lambda>e hv i. crc32_hash env e chunk_in i (hv ! i) mod 2 ^ 32" exprs]
  by (simp add: compute_hash_values_def)

lemma compute_row_indexes_sorted:
  assumes n: "0 < n" "n \<le> 2 ^ 16" and hv: "length hv = m" and ri: "m \<le> length ri"
  shows "\<exists>sp ri'. compute_row_indexes m n hv ri = Some (map (\<lambda>i. hv ! i mod n) [0..<m], sp, ri')
           \<and> sp = map (rows_below_channel (\<lambda>i. hv ! i mod n) m) [0..<n + 1]
           \<and> (\<forall>c<n. take (sp ! Suc c - sp ! c) (drop (sp ! c) ri') = rows_of_channel (\<lambda>i. hv ! i mod n) m c)
           \<and> take m ri' = concat (map (rows_of_channel (\<lambda>i. hv ! i mod n) m) [0..<n])"
proof -
  let ?k = "\<lambda>i. hv ! i mod n"
  let ?hv = "map ?k [0..<m]"
  let ?sp2 = "map (\<lambda>c. if c \<le> n then rows_below_channel ?k m (Suc c) else cnt_lt ?k m c) [0..<n + 1]"
  have kn: "\<forall>i<m. ?k i < n" using n by simp
  have a: "fold_option (count_row n) [0..<m] (hv, replicate (n + 1) 0)
           = Some (?hv, map (cnt_lt ?k m) [0..<n + 1])"
    using count_rows [OF n, of m hv] hv by simp
  have b: "fold_option prefix_sum [1..<n + 1] (map (cnt_lt ?k m) [0..<n + 1]) = Some ?sp2"
    by (rule prefix_sums) simp
  have e: "\<forall>i<m. ?hv ! i = ?k i" by simp
  have f: "fill_inv ?k m n m (?sp2, ri)" by (rule fill_inv_start [OF ri])
  have "m \<le> length ?hv" by simp
  from fill_rows [OF f _ kn e this]
  obtain sp ri' where c: "fill_row_indexes ?hv m (?sp2, ri) = Some (sp, ri')"
    and d: "fill_inv ?k m n 0 (sp, ri')"
    by auto
  have "compute_row_indexes m n hv ri = Some (?hv, sp, ri')"
    unfolding compute_row_indexes_def by (simp only: a b c option.case prod.case)
  then show ?thesis using fill_inv_final [OF d kn] by blast
qed

text \<open>
  The calls of \<^verbatim>\<open>add_rows_selective\<close> that the hash branch makes when none of them
  fails: one for each channel that has a row and whose fragment instance id has a
  \<^verbatim>\<open>lo\<close> other than -1, in the order of the channels, with the start point and the
  number of rows of the channel.
\<close>

definition selective_calls ::
  "'cs chunk_channel_ops \<Rightarrow> nat list \<Rightarrow> (nat \<Rightarrow> nat) \<Rightarrow> nat \<Rightarrow> nat list \<Rightarrow> chunk_channel_event list" where
  "selective_calls ops chans k m ri =
     map (\<lambda>c. AddRowsSelective (chans ! c) ri (rows_below_channel k m c) (length (rows_of_channel k m c)))
       (filter (\<lambda>c. rows_of_channel k m c \<noteq> [] \<and> lo (op_get_fragment_instance_id ops (chans ! c)) \<noteq> - 1)
          [0..<length chans])"

text \<open>
  A list of calls of \<^verbatim>\<open>add_rows_selective\<close> made one after the other, each on the state
  of the channels that the one before has left, up to the first that does not return
  \<^verbatim>\<open>OK\<close>: the status of the last call made, the state of the channels and the calls
  made.
\<close>

fun run_selective_calls ::
  "'cs chunk_channel_ops \<Rightarrow> Chunk \<Rightarrow> chunk_channel_event list \<Rightarrow> 'cs \<times> chunk_channel_event list
     \<Rightarrow> status \<times> 'cs \<times> chunk_channel_event list" where
  "run_selective_calls ops chunk_in [] (cs, evs) = (OK, cs, evs)"
| "run_selective_calls ops chunk_in (AddRowsSelective c ri from size_in # calls) (cs, evs) =
     (let (st, cs1) = op_add_rows_selective ops c chunk_in ri from size_in cs
      in if st \<noteq> OK then (st, cs1, evs @ [AddRowsSelective c ri from size_in])
         else run_selective_calls ops chunk_in calls (cs1, evs @ [AddRowsSelective c ri from size_in]))"
| "run_selective_calls ops chunk_in (SendOneChunk c eos_in # calls) (cs, evs) =
     run_selective_calls ops chunk_in calls (cs, evs)"
| "run_selective_calls ops chunk_in (SendChunkRequest c # calls) (cs, evs) =
     run_selective_calls ops chunk_in calls (cs, evs)"

lemma dispatch_channels_run:
  assumes "\<forall>i\<in>set cs_idx. Suc i < length sp \<and> i < length chans \<and> sp ! i \<le> sp ! Suc i"
    and f: "f = (\<lambda>c. AddRowsSelective (chans ! c) ri (sp ! c) (sp ! Suc c - sp ! c))"
    and g: "g = (\<lambda>c. sp ! Suc c - sp ! c \<noteq> 0 \<and> lo (op_get_fragment_instance_id ops (chans ! c)) \<noteq> - 1)"
  shows "dispatch_channels ops chunk_in sp ri chans cs_idx (cs, evs)
           = Some (run_selective_calls ops chunk_in (map f (filter g cs_idx)) (cs, evs))"
  using assms(1)
proof (induction cs_idx arbitrary: cs evs)
  case Nil
  show ?case by simp
next
  case (Cons i cs_idx)
  have ok: "Suc i < length sp" "i < length chans" "sp ! i \<le> sp ! Suc i"
    and rest: "\<forall>i\<in>set cs_idx. Suc i < length sp \<and> i < length chans \<and> sp ! i \<le> sp ! Suc i"
    using Cons.prems by simp_all
  show ?case
  proof (cases "g i")
    case False
    then have "dispatch_channels ops chunk_in sp ri chans (i # cs_idx) (cs, evs)
          = dispatch_channels ops chunk_in sp ri chans cs_idx (cs, evs)"
      using ok by (auto simp: Let_def g)
    moreover have "filter g (i # cs_idx) = filter g cs_idx" using False by simp
    ultimately show ?thesis using Cons.IH [OF rest, of cs evs] by (simp only:)
  next
    case True
    then have t: "sp ! Suc i - sp ! i \<noteq> 0" "lo (op_get_fragment_instance_id ops (chans ! i)) \<noteq> - 1"
      by (simp_all add: g)
    obtain st cs1 where r: "op_add_rows_selective ops (chans ! i) chunk_in ri (sp ! i) (sp ! Suc i - sp ! i) cs = (st, cs1)"
      by (cases "op_add_rows_selective ops (chans ! i) chunk_in ri (sp ! i) (sp ! Suc i - sp ! i) cs")
    have fi: "f i = AddRowsSelective (chans ! i) ri (sp ! i) (sp ! Suc i - sp ! i)" by (simp add: f)
    have fl: "map f (filter g (i # cs_idx)) = f i # map f (filter g cs_idx)" using True by simp
    show ?thesis
    proof (cases "st = OK")
      case st: True
      have d: "dispatch_channels ops chunk_in sp ri chans (i # cs_idx) (cs, evs)
          = dispatch_channels ops chunk_in sp ri chans cs_idx (cs1, evs @ [f i])"
        using ok t r st by (simp add: Let_def fi)
      have e: "run_selective_calls ops chunk_in (f i # map f (filter g cs_idx)) (cs, evs)
          = run_selective_calls ops chunk_in (map f (filter g cs_idx)) (cs1, evs @ [f i])"
        using r st by (simp add: fi)
      show ?thesis unfolding fl d e by (rule Cons.IH [OF rest])
    next
      case F: False
      have d: "dispatch_channels ops chunk_in sp ri chans (i # cs_idx) (cs, evs) = Some (st, cs1, evs @ [f i])"
        using ok t r F by (simp add: Let_def fi)
      have e: "run_selective_calls ops chunk_in (f i # map f (filter g cs_idx)) (cs, evs)
          = (st, cs1, evs @ [f i])"
        using r F by (simp add: fi)
      show ?thesis unfolding fl d e by (rule refl)
    qed
  qed
qed

lemma dispatch_channels_calls:
  assumes "\<forall>i\<in>set cs_idx. Suc i < length sp \<and> i < length chans \<and> sp ! i \<le> sp ! Suc i"
    and f: "f = (\<lambda>c. AddRowsSelective (chans ! c) ri (sp ! c) (sp ! Suc c - sp ! c))"
    and g: "g = (\<lambda>c. sp ! Suc c - sp ! c \<noteq> 0 \<and> lo (op_get_fragment_instance_id ops (chans ! c)) \<noteq> - 1)"
  shows "\<exists>st cs' evs'. dispatch_channels ops chunk_in sp ri chans cs_idx (cs, evs) = Some (st, cs', evs @ evs')
           \<and> evs' = take (length evs') (map f (filter g cs_idx))
           \<and> (st = OK \<longrightarrow> evs' = map f (filter g cs_idx))
           \<and> (st \<noteq> OK \<longrightarrow> evs' \<noteq> [])"
  using assms(1)
proof (induction cs_idx arbitrary: cs evs)
  case Nil
  show ?case by simp
next
  case (Cons i cs_idx)
  have ok: "Suc i < length sp" "i < length chans" "sp ! i \<le> sp ! Suc i"
    and rest: "\<forall>i\<in>set cs_idx. Suc i < length sp \<and> i < length chans \<and> sp ! i \<le> sp ! Suc i"
    using Cons.prems by simp_all
  show ?case
  proof (cases "g i")
    case False
    then have "dispatch_channels ops chunk_in sp ri chans (i # cs_idx) (cs, evs)
          = dispatch_channels ops chunk_in sp ri chans cs_idx (cs, evs)"
      using ok by (auto simp: Let_def g)
    moreover have "filter g (i # cs_idx) = filter g cs_idx" using False by simp
    ultimately show ?thesis using Cons.IH [OF rest, of cs evs] by (simp only:)
  next
    case True
    then have t: "sp ! Suc i - sp ! i \<noteq> 0" "lo (op_get_fragment_instance_id ops (chans ! i)) \<noteq> - 1"
      by (simp_all add: g)
    obtain st cs1 where r: "op_add_rows_selective ops (chans ! i) chunk_in ri (sp ! i) (sp ! Suc i - sp ! i) cs = (st, cs1)"
      by (cases "op_add_rows_selective ops (chans ! i) chunk_in ri (sp ! i) (sp ! Suc i - sp ! i) cs")
    have fi: "f i = AddRowsSelective (chans ! i) ri (sp ! i) (sp ! Suc i - sp ! i)" by (simp add: f)
    show ?thesis
    proof (cases "st = OK")
      case st: True
      have d: "dispatch_channels ops chunk_in sp ri chans (i # cs_idx) (cs, evs)
          = dispatch_channels ops chunk_in sp ri chans cs_idx (cs1, evs @ [f i])"
        using ok t r st by (simp add: Let_def fi)
      from Cons.IH [OF rest, of cs1 "evs @ [f i]"] obtain st' cs' evs' where
        e: "dispatch_channels ops chunk_in sp ri chans cs_idx (cs1, evs @ [f i])
              = Some (st', cs', (evs @ [f i]) @ evs')"
          "evs' = take (length evs') (map f (filter g cs_idx))"
          "st' = OK \<longrightarrow> evs' = map f (filter g cs_idx)"
        by blast
      have 1: "dispatch_channels ops chunk_in sp ri chans (i # cs_idx) (cs, evs)
                 = Some (st', cs', evs @ (f i # evs'))"
        using d e(1) by simp
      have 2: "f i # evs' = take (length (f i # evs')) (map f (filter g (i # cs_idx)))"
        using True e(2) by simp
      have 3: "st' = OK \<longrightarrow> f i # evs' = map f (filter g (i # cs_idx))"
        using True e(3) by simp
      show ?thesis
        by (intro exI [of _ st'] exI [of _ cs'] exI [of _ "f i # evs'"] conjI 1 2 3) simp
    next
      case F: False
      have 1: "dispatch_channels ops chunk_in sp ri chans (i # cs_idx) (cs, evs) = Some (st, cs1, evs @ [f i])"
        using ok t r F by (simp add: Let_def fi)
      have 2: "[f i] = take (length [f i]) (map f (filter g (i # cs_idx)))"
        using True by simp
      show ?thesis
        by (intro exI [of _ st] exI [of _ cs1] exI [of _ "[f i]"] conjI 1 2) (simp_all add: F)
    qed
  qed
qed

text \<open>The channel of a row: its hash value modulo the number of channels.\<close>

definition channel_of_row :: "'e chunk_hash_env \<Rightarrow> ('e, 'p) DataStreamSender \<Rightarrow> Chunk \<Rightarrow> nat \<Rightarrow> nat" where
  "channel_of_row env s chunk_in i =
     compute_hash_values env (part_type s) (partition_expr_ctxs s) chunk_in (num_rows chunk_in mod 2 ^ 16) ! i
       mod length (sender_channels s)"

text \<open>
  A sender with two channels, of which the second has the fragment instance id with
  \<^verbatim>\<open>lo = -1\<close>, and a chunk of two rows with the hash values 1 and 2.
\<close>

definition example_hash_env :: "unit chunk_hash_env" where
  "example_hash_env = \<lparr>fvn_hash = (\<lambda>e c i h. h + i), crc32_hash = (\<lambda>e c i h. h + 2 * i), FNV_SEED = 1\<rparr>"

definition example_chunk_ops :: "unit chunk_channel_ops" where
  "example_chunk_ops =
     \<lparr>op_add_rows_selective = (\<lambda>c chunk_in ri from size_in cs. (OK, cs)),
      op_send_one_chunk = (\<lambda>c chunk_in eos_in cs. (OK, True, cs)),
      op_send_chunk_request = (\<lambda>c request attachment cs. (OK, request, cs)),
      op_get_fragment_instance_id = (\<lambda>c. \<lparr>hi = 0, lo = (if c = 11 then - 1 else int c)\<rparr>)\<rparr>"

definition example_failing_ops :: "unit chunk_channel_ops" where
  "example_failing_ops =
     \<lparr>op_add_rows_selective = (\<lambda>c chunk_in ri from size_in cs. (InternalError, cs)),
      op_send_one_chunk = (\<lambda>c chunk_in eos_in cs. (InternalError, False, cs)),
      op_send_chunk_request = (\<lambda>c request attachment cs. (InternalError, request, cs)),
      op_get_fragment_instance_id = (\<lambda>c. \<lparr>hi = 0, lo = int c\<rparr>)\<rparr>"

definition example_hash_sender :: "(unit, int \<times> int) DataStreamSender" where
  "example_hash_sender =
     \<lparr>compress_codec = None, sender_compress_type = NO_COMPRESSION, compression_scratch = [],
      bytes_sent_counter = 0, uncompressed_bytes_counter = 0, request_bytes_threshold = 1024,
      is_vectorized = True, close_status = OK, logged_errors = [],
      part_type = HASH_PARTITIONED, sender_channels = [10, 11], partition_expr_ctxs = [()],
      partition_infos = [], ignore_not_found = False, ignore_rows = 0,
      current_channel_idx = 0, current_pb_batch = 1,
      hash_values = [], channel_row_idx_start_points = [], row_indexes = [0, 0, 0, 0],
      sender_chunk_request = \<lparr>chunks = [], eos = False, sequence = 0\<rparr>,
      sender_current_request_bytes = 0, sender_is_first_chunk = True\<rparr>"

definition example_chunk :: Chunk where
  "example_chunk = \<lparr>num_rows = 2, serialized = [], meta_is_nulls = [], meta_is_consts = [],
                     meta_slot_id_map = []\<rparr>"

lemma upt_2: "[0..<2] = [0, 1]"
  by (simp add: upt_conv_Cons)

lemma example_channel_of_row:
  "channel_of_row example_hash_env example_hash_sender example_chunk 0 = 1"
  "channel_of_row example_hash_env example_hash_sender example_chunk (Suc 0) = 0"
  by (simp_all add: channel_of_row_def compute_hash_values_def example_hash_env_def
      example_hash_sender_def example_chunk_def upt_2)

text \<open>
  Claim C5, as stated, fails for a channel whose fragment instance id has \<^verbatim>\<open>lo = -1\<close>:
  row 0 of the chunk belongs to the second channel, so that channel received a row,
  and \<^verbatim>\<open>add_rows_selective\<close> is called for the first channel only.
\<close>

theorem send_chunk_skipped_channel_counterexample:
  "send_chunk (\<lambda>x. x) 1 example_hash_env example_chunk_ops example_chunk (example_hash_sender, ())
     = Some (OK,
             example_hash_sender\<lparr>hash_values := [1, 0], channel_row_idx_start_points := [0, 1, 2],
                                 row_indexes := [1, 0, 0, 0]\<rparr>,
             (), [AddRowsSelective 10 [1, 0, 0, 0] 0 1])
   \<and> rows_of_channel (channel_of_row example_hash_env example_hash_sender example_chunk) 2 1 = [0]"
proof -
  have hv: "compute_hash_values example_hash_env HASH_PARTITIONED [()] example_chunk 2 = [1, 2]"
    by (simp add: compute_hash_values_def example_hash_env_def upt_2)
  have a: "fold_option (count_row 2) [0..<2] ([1, 2], replicate (2 + 1) 0) = Some ([1, 0], [1, 1, 0])"
    by (simp add: upt_2 count_row_def numeral_3_eq_3)
  have "[1..<2 + 1] = [1, 2]" by (simp add: upt_conv_Cons)
  then have b: "fold_option prefix_sum [1..<2 + 1] [1, 1, 0] = Some [1, 2, 2]"
    by (simp add: prefix_sum_def)
  have c: "fill_row_indexes [1, 0] 2 ([1, 2, 2], [0, 0, 0, 0]) = Some ([0, 1, 2], [1, 0, 0, 0])"
    by (simp add: numeral_2_eq_2)
  have d: "compute_row_indexes 2 2 [1, 2] [0, 0, 0, 0] = Some ([1, 0], [0, 1, 2], [1, 0, 0, 0])"
    unfolding compute_row_indexes_def by (simp only: a b c option.case prod.case)
  have e: "dispatch_channels example_chunk_ops example_chunk [0, 1, 2] [1, 0, 0, 0]
             (sender_channels example_hash_sender) [0..<2] ((), [])
           = Some (OK, (), [AddRowsSelective 10 [1, 0, 0, 0] 0 1])"
    by (simp add: upt_2 example_chunk_ops_def example_hash_sender_def)
  have f: "part_type example_hash_sender = HASH_PARTITIONED"
    "length (sender_channels example_hash_sender) = 2"
    "partition_expr_ctxs example_hash_sender = [()]"
    "row_indexes example_hash_sender = [0, 0, 0, 0]"
    "num_rows example_chunk = 2"
    by (simp_all add: example_hash_sender_def example_chunk_def)
  have "send_chunk (\<lambda>x. x) 1 example_hash_env example_chunk_ops example_chunk (example_hash_sender, ())
     = Some (OK,
             example_hash_sender\<lparr>hash_values := [1, 0], channel_row_idx_start_points := [0, 1, 2],
                                 row_indexes := [1, 0, 0, 0]\<rparr>,
             (), [AddRowsSelective 10 [1, 0, 0, 0] 0 1])"
    unfolding send_chunk_def using hv d e by (simp add: f)
  moreover have "rows_of_channel (channel_of_row example_hash_env example_hash_sender example_chunk) 2 1 = [0]"
    by (simp add: rows_of_channel_def upt_2 example_channel_of_row)
  ultimately show ?thesis by simp
qed

text \<open>
  Claim C5, amended: in the hash branch of \<^verbatim>\<open>send_chunk\<close>, for at least two and at
  most \<open>2^16\<close> channels and a chunk whose rows fit into \<^verbatim>\<open>_row_indexes\<close>,
  \<^verbatim>\<open>send_chunk\<close> returns, every hash value is replaced by the channel of its row, the
  start point of a channel is the number of rows of the channels below it, the
  positions from the start point of a channel up to the next start point hold exactly
  the rows of that channel in ascending order, the first \<open>num_rows\<close> row indexes are a
  permutation of \<open>0..num_rows-1\<close>, and \<^verbatim>\<open>add_rows_selective\<close> is called once for each
  channel that has a row and whose fragment instance id has a \<^verbatim>\<open>lo\<close> other than -1,
  in the order of the channels and up to the first call that fails: the calls made are
  those calls, each on the state that the one before has left, up to the first that
  does not return \<^verbatim>\<open>OK\<close>, whose status \<^verbatim>\<open>send_chunk\<close> returns.
\<close>

theorem send_chunk_hash_groups_rows:
  fixes s :: "('e, 'p) DataStreamSender"
  assumes pt: "part_type s = HASH_PARTITIONED \<or> part_type s = BUCKET_SHFFULE_HASH_PARTITIONED"
    and n: "1 < length (sender_channels s)" "length (sender_channels s) \<le> 2 ^ 16"
    and m: "0 < num_rows chunk_in mod 2 ^ 16" "num_rows chunk_in mod 2 ^ 16 \<le> length (row_indexes s)"
  shows "\<exists>st s' cs' evs.
           send_chunk to_double threshold env ops chunk_in (s, cs) = Some (st, s', cs', evs)
           \<and> (let k = channel_of_row env s chunk_in;
                   m = num_rows chunk_in mod 2 ^ 16;
                   n = length (sender_channels s);
                   sp = channel_row_idx_start_points s';
                   ri = row_indexes s';
                   calls = selective_calls ops (sender_channels s) k m ri
               in hash_values s' = map k [0..<m]
                  \<and> sp = map (rows_below_channel k m) [0..<n + 1]
                  \<and> (\<forall>c<n. take (sp ! Suc c - sp ! c) (drop (sp ! c) ri) = rows_of_channel k m c)
                  \<and> take m ri = concat (map (rows_of_channel k m) [0..<n])
                  \<and> distinct (take m ri) \<and> set (take m ri) = {0..<m}
                  \<and> evs = take (length evs) calls
                  \<and> (st = OK \<longrightarrow> evs = calls)
                  \<and> (st \<noteq> OK \<longrightarrow> evs \<noteq> [])
                  \<and> (st, cs', evs) = run_selective_calls ops chunk_in calls (cs, []))"
proof -
  define m where "m = num_rows chunk_in mod 2 ^ 16"
  define n where "n = length (sender_channels s)"
  define hv where "hv = compute_hash_values env (part_type s) (partition_expr_ctxs s) chunk_in m"
  define k where "k = channel_of_row env s chunk_in"
  have k: "k = (\<lambda>i. hv ! i mod n)"
    by (simp add: k_def channel_of_row_def hv_def m_def n_def fun_eq_iff)
  have n0: "0 < n" "n \<le> 2 ^ 16" "n \<noteq> 1" using n by (auto simp: n_def)
  have m0: "m \<noteq> 0" "m \<le> length (row_indexes s)" using m by (simp_all add: m_def)
  have lhv: "length hv = m" by (simp add: hv_def)
  have kn: "\<forall>i<m. k i < n" using n0 by (simp add: k)
  from compute_row_indexes_sorted [OF n0(1,2) lhv m0(2)] obtain sp ri where
    cri: "compute_row_indexes m n hv (row_indexes s) = Some (map k [0..<m], sp, ri)"
    and sp: "sp = map (rows_below_channel k m) [0..<n + 1]"
    and win: "\<forall>c<n. take (sp ! Suc c - sp ! c) (drop (sp ! c) ri) = rows_of_channel k m c"
    and all: "take m ri = concat (map (rows_of_channel k m) [0..<n])"
    unfolding k by blast
  define f where "f = (\<lambda>c. AddRowsSelective (sender_channels s ! c) ri (sp ! c) (sp ! Suc c - sp ! c))"
  define g where "g = (\<lambda>c. sp ! Suc c - sp ! c \<noteq> 0
                        \<and> lo (op_get_fragment_instance_id ops (sender_channels s ! c)) \<noteq> - 1)"
  have spc: "sp ! c = rows_below_channel k m c" if "c \<le> n" for c
    using that unfolding sp by (simp del: upt_Suc)
  have size_c: "sp ! Suc c - sp ! c = length (rows_of_channel k m c)" if "c < n" for c
    using that spc [of c] spc [of "Suc c"] by (simp add: rows_below_Suc cnt_lt_rows)
  have pre: "\<forall>i\<in>set [0..<n]. Suc i < length sp \<and> i < length (sender_channels s) \<and> sp ! i \<le> sp ! Suc i"
  proof
    fix i assume "i \<in> set [0..<n]"
    then have i: "i < n" by simp
    have "sp ! i \<le> sp ! Suc i" using spc [of i] spc [of "Suc i"] i by (simp add: rows_below_Suc)
    moreover have "Suc i < length sp" using i unfolding sp by simp
    ultimately show "Suc i < length sp \<and> i < length (sender_channels s) \<and> sp ! i \<le> sp ! Suc i"
      using i by (simp add: n_def)
  qed
  from dispatch_channels_calls [OF pre f_def g_def, of chunk_in cs "[]"] obtain st cs' evs where
    dc: "dispatch_channels ops chunk_in sp ri (sender_channels s) [0..<n] (cs, []) = Some (st, cs', evs)"
    and e1: "evs = take (length evs) (map f (filter g [0..<n]))"
    and e2: "st = OK \<longrightarrow> evs = map f (filter g [0..<n])"
    and e3: "st \<noteq> OK \<longrightarrow> evs \<noteq> []"
    by auto
  have fl: "filter g [0..<n]
            = filter (\<lambda>c. rows_of_channel k m c \<noteq> []
                           \<and> lo (op_get_fragment_instance_id ops (sender_channels s ! c)) \<noteq> - 1) [0..<n]"
  proof (rule filter_cong)
    fix c assume "c \<in> set [0..<n]"
    then have "c < n" by simp
    then have "(sp ! Suc c - sp ! c \<noteq> 0) = (rows_of_channel k m c \<noteq> [])"
      by (simp only: size_c length_0_conv)
    then show "g c = (rows_of_channel k m c \<noteq> []
                     \<and> lo (op_get_fragment_instance_id ops (sender_channels s ! c)) \<noteq> - 1)"
      unfolding g_def by (simp only:)
  qed simp
  have calls: "map f (filter g [0..<n]) = selective_calls ops (sender_channels s) k m ri"
    unfolding selective_calls_def fl n_def [symmetric]
  proof (rule map_cong)
    fix c
    assume "c \<in> set (filter (\<lambda>c. rows_of_channel k m c \<noteq> []
                \<and> lo (op_get_fragment_instance_id ops (sender_channels s ! c)) \<noteq> - 1) [0..<n])"
    then have c: "c < n" by simp
    then have "c \<le> n" by simp
    then have "sp ! c = rows_below_channel k m c" by (rule spc)
    then show "f c = AddRowsSelective (sender_channels s ! c) ri (rows_below_channel k m c)
                      (length (rows_of_channel k m c))"
      unfolding f_def size_c [OF c] by (simp only:)
  qed simp
  define s' where "s' = s\<lparr>hash_values := map k [0..<m], channel_row_idx_start_points := sp, row_indexes := ri\<rparr>"
  have br: "\<not> (part_type s = UNPARTITIONED \<or> length (sender_channels s) = 1)" "part_type s \<noteq> RANDOM"
    using pt n by auto
  have sc: "send_chunk to_double threshold env ops chunk_in (s, cs) = Some (st, s', cs', evs)"
    unfolding send_chunk_def
    using m0(1) [unfolded m_def] cri [unfolded hv_def m_def n_def] dc [unfolded n_def] br pt
    by (simp add: s'_def [unfolded m_def] Let_def)
  have dist: "distinct (take m ri)" "set (take m ri) = {0..<m}"
    using rows_of_channels_distinct [of k m n] kn unfolding all by auto
  have sel: "hash_values s' = map k [0..<m]" "channel_row_idx_start_points s' = sp" "row_indexes s' = ri"
    by (simp_all add: s'_def)
  have r1: "hash_values s' = map k [0..<m]" by (rule sel)
  have r2: "channel_row_idx_start_points s' = map (rows_below_channel k m) [0..<n + 1]"
    unfolding sel by (rule sp)
  have r3: "\<forall>c<n. take (channel_row_idx_start_points s' ! Suc c - channel_row_idx_start_points s' ! c)
                    (drop (channel_row_idx_start_points s' ! c) (row_indexes s'))
                  = rows_of_channel k m c"
    unfolding sel by (rule win)
  have r4: "take m (row_indexes s') = concat (map (rows_of_channel k m) [0..<n])"
    unfolding sel by (rule all)
  have r5: "distinct (take m (row_indexes s'))" unfolding sel by (rule dist)
  have r6: "set (take m (row_indexes s')) = {0..<m}" unfolding sel by (rule dist)
  have r7: "evs = take (length evs) (selective_calls ops (sender_channels s) k m (row_indexes s'))"
    unfolding sel calls [symmetric] by (rule e1)
  have r8: "st = OK \<longrightarrow> evs = selective_calls ops (sender_channels s) k m (row_indexes s')"
    unfolding sel calls [symmetric] by (rule e2)
  have "Some (st, cs', evs) = Some (run_selective_calls ops chunk_in (map f (filter g [0..<n])) (cs, []))"
    unfolding dc [symmetric] by (rule dispatch_channels_run [OF pre f_def g_def])
  then have r9: "(st, cs', evs)
                 = run_selective_calls ops chunk_in
                     (selective_calls ops (sender_channels s) k m (row_indexes s')) (cs, [])"
    unfolding sel calls [symmetric] by simp
  show ?thesis
    unfolding Let_def k_def [symmetric] m_def [symmetric] n_def [symmetric]
    by (intro exI [of _ st] exI [of _ s'] exI [of _ cs'] exI [of _ evs] conjI sc r1 r2 r3 r4 r5 r6 r7 r8 e3 r9)
qed


text \<open>
  The theorem at the sender with two channels and the chunk of two rows. The rows are
  placed in the order 1, 0. With the channels above the only call is for the first
  channel and \<^verbatim>\<open>send_chunk\<close> returns \<^verbatim>\<open>OK\<close>; with two channels that both have a
  destination and whose \<^verbatim>\<open>add_rows_selective\<close> fails, \<^verbatim>\<open>send_chunk\<close> returns the error
  of the first call and does not make the second.
\<close>

theorem send_chunk_hash_groups_rows_witness:
  "(part_type example_hash_sender = HASH_PARTITIONED
      \<or> part_type example_hash_sender = BUCKET_SHFFULE_HASH_PARTITIONED)
   \<and> 1 < length (sender_channels example_hash_sender)
   \<and> (\<exists>s' cs'.
        send_chunk (\<lambda>x. x) 1 example_hash_env example_chunk_ops example_chunk (example_hash_sender, ())
          = Some (OK, s', cs', [AddRowsSelective 10 (row_indexes s') 0 1])
        \<and> hash_values s' = [1, 0] \<and> channel_row_idx_start_points s' = [0, 1, 2]
        \<and> take 2 (row_indexes s') = [1, 0])
   \<and> (\<exists>s' cs'.
        send_chunk (\<lambda>x. x) 1 example_hash_env example_failing_ops example_chunk (example_hash_sender, ())
          = Some (InternalError, s', cs', [AddRowsSelective 10 (row_indexes s') 0 1])
        \<and> take 2 (row_indexes s') = [1, 0])"
proof -
  let ?k = "channel_of_row example_hash_env example_hash_sender example_chunk"
  have h: "part_type example_hash_sender = HASH_PARTITIONED
      \<or> part_type example_hash_sender = BUCKET_SHFFULE_HASH_PARTITIONED"
    "1 < length (sender_channels example_hash_sender)"
    "length (sender_channels example_hash_sender) \<le> 2 ^ 16"
    "0 < num_rows example_chunk mod 2 ^ 16"
    "num_rows example_chunk mod 2 ^ 16 \<le> length (row_indexes example_hash_sender)"
    by (simp_all add: example_hash_sender_def example_chunk_def)
  have v: "num_rows example_chunk mod 2 ^ 16 = 2" "length (sender_channels example_hash_sender) = 2"
    "sender_channels example_hash_sender = [10, 11]"
    by (simp_all add: example_hash_sender_def example_chunk_def)
  have r: "rows_of_channel ?k 2 0 = [1]" "rows_of_channel ?k 2 1 = [0]"
    by (simp_all add: rows_of_channel_def upt_2 example_channel_of_row)
  have "[0..<2 + 1] = [0, 1, 2]" by (simp add: upt_conv_Cons)
  then have b: "map (rows_below_channel ?k 2) [0..<2 + 1] = [0, 1, 2]"
    by (simp add: rows_below_channel_def upt_2 example_channel_of_row)
  have c: "selective_calls example_chunk_ops [10, 11] ?k 2 ri = [AddRowsSelective 10 ri 0 1]" for ri
    using r by (simp add: selective_calls_def upt_2 rows_below_channel_def example_chunk_ops_def)
  have c': "selective_calls example_failing_ops [10, 11] ?k 2 ri
              = [AddRowsSelective 10 ri 0 1, AddRowsSelective 11 ri 1 1]" for ri
    using r example_channel_of_row
    by (simp add: selective_calls_def upt_2 rows_below_channel_def example_failing_ops_def)
  have d: "concat (map (rows_of_channel ?k 2) [0..<2]) = [1, 0]"
    using r by (simp add: upt_2)
  have e: "run_selective_calls example_chunk_ops example_chunk [AddRowsSelective 10 ri 0 1] ((), [])
             = (OK, (), [AddRowsSelective 10 ri 0 1])" for ri
    by (simp add: example_chunk_ops_def)
  have e': "run_selective_calls example_failing_ops example_chunk
              [AddRowsSelective 10 ri 0 1, AddRowsSelective 11 ri 1 1] ((), [])
             = (InternalError, (), [AddRowsSelective 10 ri 0 1])" for ri
    by (simp add: example_failing_ops_def)
  from send_chunk_hash_groups_rows [OF h, of "\<lambda>x. x" 1 example_hash_env example_chunk_ops "()"]
  obtain st s' cs' evs where
    "send_chunk (\<lambda>x. x) 1 example_hash_env example_chunk_ops example_chunk (example_hash_sender, ())
          = Some (st, s', cs', evs)"
    "hash_values s' = map ?k [0..<2]"
    "channel_row_idx_start_points s' = map (rows_below_channel ?k 2) [0..<2 + 1]"
    "take 2 (row_indexes s') = concat (map (rows_of_channel ?k 2) [0..<2])"
    "(st, cs', evs) = run_selective_calls example_chunk_ops example_chunk
                        (selective_calls example_chunk_ops [10, 11] ?k 2 (row_indexes s')) ((), [])"
    unfolding Let_def v(1,2) unfolding v(3) by blast
  then have 1: "\<exists>s' cs'.
        send_chunk (\<lambda>x. x) 1 example_hash_env example_chunk_ops example_chunk (example_hash_sender, ())
          = Some (OK, s', cs', [AddRowsSelective 10 (row_indexes s') 0 1])
        \<and> hash_values s' = [1, 0] \<and> channel_row_idx_start_points s' = [0, 1, 2]
        \<and> take 2 (row_indexes s') = [1, 0]"
    unfolding b c d e by (simp add: upt_2 example_channel_of_row)
  from send_chunk_hash_groups_rows [OF h, of "\<lambda>x. x" 1 example_hash_env example_failing_ops "()"]
  obtain st s' cs' evs where
    "send_chunk (\<lambda>x. x) 1 example_hash_env example_failing_ops example_chunk (example_hash_sender, ())
          = Some (st, s', cs', evs)"
    "take 2 (row_indexes s') = concat (map (rows_of_channel ?k 2) [0..<2])"
    "(st, cs', evs) = run_selective_calls example_failing_ops example_chunk
                        (selective_calls example_failing_ops [10, 11] ?k 2 (row_indexes s')) ((), [])"
    unfolding Let_def v(1,2) unfolding v(3) by blast
  then have 2: "\<exists>s' cs'.
        send_chunk (\<lambda>x. x) 1 example_hash_env example_failing_ops example_chunk (example_hash_sender, ())
          = Some (InternalError, s', cs', [AddRowsSelective 10 (row_indexes s') 0 1])
        \<and> take 2 (row_indexes s') = [1, 0]"
    unfolding c' d e' by simp
  show ?thesis using h(1,2) 1 2 by blast
qed

section \<open>The hash join (be/src/exec/hash_join_node.cpp)\<close>

text \<open>
  The join operations and the plan node types that \<^verbatim>\<open>hash_join_node.cpp\<close> names
  (\<^verbatim>\<open>gen_cpp/PlanNodes_types.h\<close> is generated and not among the sources); every other
  plan node type is \<open>OTHER_NODE\<close>.
\<close>

datatype TJoinOp =
    INNER_JOIN | LEFT_OUTER_JOIN | LEFT_SEMI_JOIN | LEFT_ANTI_JOIN
  | RIGHT_OUTER_JOIN | FULL_OUTER_JOIN | RIGHT_SEMI_JOIN | RIGHT_ANTI_JOIN

datatype TPlanNodeType = EXCHANGE_NODE | OTHER_NODE

subsection \<open>The hash table\<close>

text \<open>
  Modelled from the spec: \<^verbatim>\<open>HashTable\<close> and \<^verbatim>\<open>HashTable::Iterator\<close>
  (\<^verbatim>\<open>exec/hash_table.hpp\<close>, not among the sources). The spec has the table map a build
  key to the chain of the build rows with that key, an iterator over the table
  enumerate every inserted row exactly once, and every row carry a \<^verbatim>\<open>matched\<close> bit that
  is cleared at build. The table is the list of the inserted rows with their bits, in
  the order of insertion, and an iterator is the list of the positions it has yet to
  visit: all of them for \<^verbatim>\<open>begin()\<close>, and for \<^verbatim>\<open>find(probe_row)\<close> those of the
  build rows whose key equals the key of the probe row, which the parameter
  \<open>keys_equal\<close> decides.
\<close>

type_synonym 'b HashTable = "('b \<times> bool) list"

type_synonym Iterator = "nat list"

definition hash_tbl_insert :: "'b \<Rightarrow> 'b HashTable \<Rightarrow> 'b HashTable" where
  "hash_tbl_insert row tbl = tbl @ [(row, False)]"

definition hash_tbl_size :: "'b HashTable \<Rightarrow> nat" where
  "hash_tbl_size tbl = length tbl"

definition hash_tbl_begin :: "'b HashTable \<Rightarrow> Iterator" where
  "hash_tbl_begin tbl = [0..<length tbl]"

definition hash_tbl_find :: "('p \<Rightarrow> 'b \<Rightarrow> bool) \<Rightarrow> 'b HashTable \<Rightarrow> 'p \<Rightarrow> Iterator" where
  "hash_tbl_find keys_equal tbl probe_row = filter (\<lambda>i. keys_equal probe_row (fst (tbl ! i))) [0..<length tbl]"

definition has_next :: "Iterator \<Rightarrow> bool" where
  "has_next it = (it \<noteq> [])"

definition iterator_get_row :: "'b HashTable \<Rightarrow> Iterator \<Rightarrow> 'b" where
  "iterator_get_row tbl it = fst (tbl ! hd it)"

definition iterator_matched :: "'b HashTable \<Rightarrow> Iterator \<Rightarrow> bool" where
  "iterator_matched tbl it = snd (tbl ! hd it)"

definition iterator_set_matched :: "'b HashTable \<Rightarrow> Iterator \<Rightarrow> 'b HashTable" where
  "iterator_set_matched tbl it = tbl[hd it := (fst (tbl ! hd it), True)]"

definition iterator_next :: "Iterator \<Rightarrow> Iterator" where
  "iterator_next it = tl it"

subsection \<open>The node, its children and the output batch\<close>

text \<open>
  An output row is a probe row and a build row, either of which \<^verbatim>\<open>create_output_row\<close>
  leaves zeroed when it is given \<^verbatim>\<open>NULL\<close>.
\<close>

type_synonym ('p, 'b) out_row = "'p option \<times> 'b option"

definition create_output_row :: "'p option \<Rightarrow> 'b option \<Rightarrow> ('p, 'b) out_row" where
  "create_output_row probe build = (probe, build)"

text \<open>
  A child is the list of the results that its \<^verbatim>\<open>get_next\<close> has yet to give: a status,
  the rows of the batch and the end-of-stream flag. A child that has given them all
  gives an empty batch with the flag set.
\<close>

type_synonym 'row child_script = "(status \<times> 'row list \<times> bool) list"

text \<open>
  The members of the node that \<^verbatim>\<open>open\<close> and \<^verbatim>\<open>get_next\<close> use. A build row is known
  by its position in the table, which stands for its address in
  \<^verbatim>\<open>_joined_build_rows\<close>; \<open>anti_join_last_pos\<close> tells whether \<^verbatim>\<open>_anti_join_last_pos\<close>
  is set, which is to the address of \<^verbatim>\<open>_hash_tbl_iterator\<close> when it is. An
  \<^verbatim>\<open>IN\<close>-predicate is the expression it was made for and the values inserted into it,
  and \<open>pushed_down\<close> records the calls of \<^verbatim>\<open>push_down_predicate\<close> with the predicates
  they pass.
\<close>

record ('p, 'b, 'e, 'v) HashJoinNode =
  join_op :: TJoinOp
  is_push_down :: bool
  is_null_safe_eq_join :: "bool list"
  probe_expr_ctxs :: "'e list"
  build_expr_ctxs :: "'e list"
  node_eos :: bool
  probe_eos :: bool
  probe_batch :: "'p list"
  probe_batch_pos :: nat
  current_probe_row :: "'p option"
  matched_probe :: bool
  hash_tbl :: "'b HashTable"
  hash_tbl_iterator :: Iterator
  joined_build_rows :: "nat set"
  anti_join_last_pos :: bool
  num_rows_returned :: nat
  node_limit :: int
  push_down_expr_ctxs :: "('e \<times> 'v list) list"
  pushed_down :: "('e \<times> 'v list) list list"
  child0_opened :: bool
  child0 :: "'p child_script"
  child1 :: "'b child_script"

definition match_all_probe :: "('p, 'b, 'e, 'v) HashJoinNode \<Rightarrow> bool" where
  "match_all_probe s = (join_op s = LEFT_OUTER_JOIN \<or> join_op s = FULL_OUTER_JOIN)"

definition match_all_build :: "('p, 'b, 'e, 'v) HashJoinNode \<Rightarrow> bool" where
  "match_all_build s = (join_op s = RIGHT_OUTER_JOIN \<or> join_op s = FULL_OUTER_JOIN)"

text \<open>
  \<^verbatim>\<open>ExecNode::reached_limit\<close> (\<^verbatim>\<open>exec/exec_node.h\<close>, not among the sources): a limit of
  -1 is no limit, as in \<^verbatim>\<open>left_join_get_next\<close>.
\<close>

definition reached_limit :: "('p, 'b, 'e, 'v) HashJoinNode \<Rightarrow> bool" where
  "reached_limit s = (node_limit s \<noteq> - 1 \<and> node_limit s \<le> int (num_rows_returned s))"

text \<open>
  The output batch: its capacity, the rows committed to it and the resources handed
  to it. \<^verbatim>\<open>RowBatch\<close> is not among the sources: a batch is full when it holds as many
  rows as its capacity, and what \<^verbatim>\<open>transfer_resource_ownership\<close> leaves of the probe
  batch and makes of the resources, and when a batch is \<^verbatim>\<open>at_resource_limit\<close>, are
  parameters.
\<close>

record ('p, 'b, 'r) RowBatch =
  capacity :: nat
  committed_rows :: "('p, 'b) out_row list"
  resources :: 'r

definition is_full :: "('p, 'b, 'r) RowBatch \<Rightarrow> bool" where
  "is_full out = (capacity out \<le> length (committed_rows out))"

definition commit_last_row :: "('p, 'b) out_row \<Rightarrow> ('p, 'b, 'r) RowBatch \<Rightarrow> ('p, 'b, 'r) RowBatch" where
  "commit_last_row row out = out\<lparr>committed_rows := committed_rows out @ [row]\<rparr>"

text \<open>
  What the node takes from its surroundings: the statuses of the calls that can fail
  (\<open>limit_exceeded\<close> is \<^verbatim>\<open>RETURN_IF_LIMIT_EXCEEDED\<close> for the table and the batch just
  read), whether the query is cancelled, the types of the children, the expressions,
  and the parts of the sources that are missing. \<open>keys_equal\<close> compares the keys of a probe row
  and a build row, \<open>eval_other_join_conjuncts\<close> and \<open>eval_conjuncts\<close> are
  \<^verbatim>\<open>eval_conjuncts\<close> on \<^verbatim>\<open>_other_join_conjunct_ctxs\<close> and on \<^verbatim>\<open>_conjunct_ctxs\<close>, and
  \<open>left_join_get_next\<close> is the loop of the joins that keep nothing per build row, on
  which nothing here depends.
\<close>

record ('p, 'b, 'e, 'v, 'r) join_env =
  exec_node_open :: status
  debug_action_open :: status
  debug_action_getnext :: status
  is_cancelled :: bool
  expr_open_build :: status
  expr_open_probe :: status
  expr_open_other :: status
  child0_type :: TPlanNodeType
  child1_type :: TPlanNodeType
  child0_open :: status
  child1_open :: status
  child1_conjunct_ctxs_size :: nat
  check_has_vectorized_scan_child :: bool
  limit_exceeded :: "'b HashTable \<Rightarrow> 'b list \<Rightarrow> status"
  in_pred_prepare :: "'e \<Rightarrow> status"
  build_get_value :: "'e \<Rightarrow> 'b \<Rightarrow> 'v"
  keys_equal :: "'p \<Rightarrow> 'b \<Rightarrow> bool"
  eval_other_join_conjuncts :: "('p, 'b) out_row \<Rightarrow> bool"
  eval_conjuncts :: "('p, 'b) out_row \<Rightarrow> bool"
  transfer_resource_ownership :: "'p list \<Rightarrow> 'r \<Rightarrow> 'p list \<times> 'r"
  at_resource_limit :: "'r \<Rightarrow> bool"
  left_join_get_next ::
    "('p, 'b, 'e, 'v) HashJoinNode \<times> ('p, 'b, 'r) RowBatch \<times> bool
       \<Rightarrow> status \<times> ('p, 'b, 'e, 'v) HashJoinNode \<times> ('p, 'b, 'r) RowBatch \<times> bool"


subsection \<open>Building the table\<close>

text \<open>
  Modelled from the spec: \<^verbatim>\<open>process_build_batch\<close> (not among the sources), which the
  spec has insert every row of the batch into the hash table.
\<close>

definition process_build_batch :: "'b list \<Rightarrow> 'b HashTable \<Rightarrow> 'b HashTable" where
  "process_build_batch rows tbl = fold hash_tbl_insert rows tbl"

text \<open>
  The loop of \<^verbatim>\<open>construct_hash_table\<close> over the batches of the build child: the
  status, the table and what is left of the child.
\<close>

fun build_loop ::
  "('p, 'b, 'e, 'v, 'r) join_env \<Rightarrow> 'b child_script \<Rightarrow> 'b HashTable
     \<Rightarrow> status \<times> 'b HashTable \<times> 'b child_script" where
  "build_loop env [] tbl =
     (if is_cancelled env then (Cancelled, tbl, [])
      else if limit_exceeded env tbl [] \<noteq> OK then (limit_exceeded env tbl [], tbl, [])
      else (OK, process_build_batch [] tbl, []))"
| "build_loop env ((st, rows, eos_in) # script) tbl =
     (if is_cancelled env then (Cancelled, tbl, (st, rows, eos_in) # script)
      else if st \<noteq> OK then (st, tbl, script)
      else if limit_exceeded env tbl rows \<noteq> OK then (limit_exceeded env tbl rows, tbl, script)
      else if eos_in then (OK, process_build_batch rows tbl, script)
      else build_loop env script (process_build_batch rows tbl))"

definition construct_hash_table ::
  "('p, 'b, 'e, 'v, 'r) join_env \<Rightarrow> ('p, 'b, 'e, 'v) HashJoinNode
     \<Rightarrow> status \<times> ('p, 'b, 'e, 'v) HashJoinNode" where
  "construct_hash_table env s =
     (if child1_open env \<noteq> OK then (child1_open env, s)
      else (let (st, tbl, script) = build_loop env (child1 s) (hash_tbl s)
            in (st, s\<lparr>hash_tbl := tbl, child1 := script\<rparr>)))"

subsection \<open>Opening the node\<close>

text \<open>The loop that makes one \<^verbatim>\<open>IN\<close>-predicate for each probe expression.\<close>

fun synthesize_in_preds ::
  "('p, 'b, 'e, 'v, 'r) join_env \<Rightarrow> 'e list \<Rightarrow> ('e \<times> 'v list) list \<Rightarrow> status \<times> ('e \<times> 'v list) list" where
  "synthesize_in_preds env [] ctxs = (OK, ctxs)"
| "synthesize_in_preds env (e # es) ctxs =
     (if in_pred_prepare env e \<noteq> OK then (in_pred_prepare env e, ctxs)
      else synthesize_in_preds env es (ctxs @ [(e, [])]))"

text \<open>
  The loop over the build expressions for one row of the table, which walks the list of
  the predicates along with them (\<open>None\<close> when the list ends before the expressions
  do), and the loop over the table. A predicate holds each value once.
\<close>

definition insert_row_values ::
  "('p, 'b, 'e, 'v, 'r) join_env \<Rightarrow> 'e list \<Rightarrow> 'b \<Rightarrow> ('e \<times> 'v list) list \<Rightarrow> ('e \<times> 'v list) list option" where
  "insert_row_values env build_exprs row =
     fold_option (\<lambda>i ctxs.
        if i < length ctxs
        then Some (ctxs[i := (fst (ctxs ! i),
                              List.insert (build_get_value env (build_exprs ! i) row) (snd (ctxs ! i)))])
        else None) [0..<length build_exprs]"

definition fill_in_preds ::
  "('p, 'b, 'e, 'v, 'r) join_env \<Rightarrow> 'e list \<Rightarrow> 'b HashTable \<Rightarrow> ('e \<times> 'v list) list
     \<Rightarrow> ('e \<times> 'v list) list option" where
  "fill_in_preds env build_exprs tbl =
     fold_option (\<lambda>i. insert_row_values env build_exprs (fst (tbl ! i))) (hash_tbl_begin tbl)"

text \<open>The loop at the end of \<^verbatim>\<open>open\<close> that reads the first probe row.\<close>

fun seed_probe_batch ::
  "('p, 'b, 'e, 'v, 'r) join_env \<Rightarrow> 'p child_script \<Rightarrow> ('p, 'b, 'e, 'v) HashJoinNode
     \<Rightarrow> status \<times> ('p, 'b, 'e, 'v) HashJoinNode" where
  "seed_probe_batch env [] s =
     (OK, s\<lparr>child0 := [], probe_batch := [], probe_eos := True, probe_batch_pos := 0,
             hash_tbl_iterator := hash_tbl_begin (hash_tbl s), node_eos := True\<rparr>)"
| "seed_probe_batch env ((st, rows, eos_in) # script) s =
     (if st \<noteq> OK then (st, s\<lparr>child0 := script\<rparr>)
      else if rows = []
      then (if eos_in
            then (OK, s\<lparr>child0 := script, probe_batch := [], probe_eos := True, probe_batch_pos := 0,
                         hash_tbl_iterator := hash_tbl_begin (hash_tbl s), node_eos := True\<rparr>)
            else seed_probe_batch env script
                   (s\<lparr>child0 := script, probe_batch := [], probe_eos := False, probe_batch_pos := 0\<rparr>))
      else (OK, s\<lparr>child0 := script, probe_batch := rows, probe_eos := eos_in, probe_batch_pos := 1,
                   current_probe_row := Some (rows ! 0), matched_probe := False,
                   hash_tbl_iterator := hash_tbl_find (keys_equal env) (hash_tbl s) (rows ! 0)\<rparr>))"

text \<open>
  The part of \<^verbatim>\<open>open\<close> that makes the predicates, fills them from the table and pushes
  them down.
\<close>

definition push_down ::
  "('p, 'b, 'e, 'v, 'r) join_env \<Rightarrow> ('p, 'b, 'e, 'v) HashJoinNode
     \<Rightarrow> (status \<times> ('p, 'b, 'e, 'v) HashJoinNode) option" where
  "push_down env s =
     (let (st, ctxs) = synthesize_in_preds env (probe_expr_ctxs s) (push_down_expr_ctxs s)
      in if st \<noteq> OK then Some (st, s\<lparr>push_down_expr_ctxs := ctxs\<rparr>)
         else (case fill_in_preds env (build_expr_ctxs s) (hash_tbl s) ctxs of
                 None \<Rightarrow> None
               | Some filled \<Rightarrow>
                   Some (OK, s\<lparr>push_down_expr_ctxs := filled, pushed_down := pushed_down s @ [filled]\<rparr>)))"

text \<open>
  The three tests of \<^verbatim>\<open>open\<close> that switch the pushdown off before the table is looked
  at: both children are exchange nodes, a join key is null-safe, a child scan node is
  vectorized (\<^verbatim>\<open>_check_has_vectorized_scan_child\<close> is not among the sources).
\<close>

definition disable_push_down ::
  "('p, 'b, 'e, 'v, 'r) join_env \<Rightarrow> ('p, 'b, 'e, 'v) HashJoinNode \<Rightarrow> ('p, 'b, 'e, 'v) HashJoinNode" where
  "disable_push_down env s =
     (let s1 = (if child0_type env = EXCHANGE_NODE \<and> child1_type env = EXCHANGE_NODE
                then s\<lparr>is_push_down := False\<rparr> else s);
          s2 = (if True \<in> set (is_null_safe_eq_join s1) then s1\<lparr>is_push_down := False\<rparr> else s1)
      in if check_has_vectorized_scan_child env then s2\<lparr>is_push_down := False\<rparr> else s2)"

text \<open>
  \<^verbatim>\<open>HashJoinNode::open\<close>. The table is built by \<^verbatim>\<open>construct_hash_table\<close>, on a thread
  of its own or not, and \<^verbatim>\<open>open\<close> looks at the table only after it has the status of
  the build, so the build comes first here. \<open>None\<close> is a step past the end of the list
  of predicates.
\<close>

definition open_node ::
  "('p, 'b, 'e, 'v, 'r) join_env \<Rightarrow> ('p, 'b, 'e, 'v) HashJoinNode
     \<Rightarrow> (status \<times> ('p, 'b, 'e, 'v) HashJoinNode) option" where
  "open_node env s =
     (if exec_node_open env \<noteq> OK then Some (exec_node_open env, s)
      else if debug_action_open env \<noteq> OK then Some (debug_action_open env, s)
      else if is_cancelled env then Some (Cancelled, s)
      else if expr_open_build env \<noteq> OK then Some (expr_open_build env, s)
      else if expr_open_probe env \<noteq> OK then Some (expr_open_probe env, s)
      else if expr_open_other env \<noteq> OK then Some (expr_open_other env, s)
      else
        (let (thread_status, s1) = construct_hash_table env (s\<lparr>node_eos := False\<rparr>);
             s4 = disable_push_down env s1
         in if is_push_down s4
            then (if thread_status \<noteq> OK then Some (thread_status, s4)
                  else if hash_tbl_size (hash_tbl s4) = 0 \<and> join_op s4 = INNER_JOIN
                  then (if child0_open env \<noteq> OK then Some (child0_open env, s4\<lparr>child0_opened := True\<rparr>)
                        else Some (OK, s4\<lparr>child0_opened := True, probe_batch_pos := 0,
                                         hash_tbl_iterator := hash_tbl_begin (hash_tbl s4),
                                         node_eos := True\<rparr>))
                  else
                    (let s5 = (if hash_tbl_size (hash_tbl s4) > 1024 then s4\<lparr>is_push_down := False\<rparr> else s4)
                     in case (if is_push_down s5 \<or> 0 \<noteq> child1_conjunct_ctxs_size env
                              then push_down env s5 else Some (OK, s5)) of
                          None \<Rightarrow> None
                        | Some (st, s6) \<Rightarrow>
                            if st \<noteq> OK then Some (st, s6)
                            else if child0_open env \<noteq> OK
                            then Some (child0_open env, s6\<lparr>child0_opened := True\<rparr>)
                            else Some (seed_probe_batch env (child0 s6) (s6\<lparr>child0_opened := True\<rparr>))))
            else (if thread_status \<noteq> OK then Some (thread_status, s4\<lparr>child0_opened := True\<rparr>)
                  else if child0_open env \<noteq> OK then Some (child0_open env, s4\<lparr>child0_opened := True\<rparr>)
                  else Some (seed_probe_batch env (child0 s4) (s4\<lparr>child0_opened := True\<rparr>)))))"


subsection \<open>Reading the joined rows\<close>

text \<open>How a loop of \<^verbatim>\<open>get_next\<close> ends: it runs to its end, or \<^verbatim>\<open>get_next\<close> returns from
  inside it, with \<^verbatim>\<open>*eos\<close> as it was or set.\<close>

datatype loop_exit = Not_returned | Returned | Returned_eos bool

text \<open>
  The body of the loop over the build rows that match the current probe row, at the
  iterator \<open>it\<close>, which has a next row. For \<^verbatim>\<open>RIGHT_ANTI_JOIN\<close> it sets the \<^verbatim>\<open>matched\<close>
  bit of a row that passes the other join conjuncts and commits nothing. Where the
  body leaves the loop by \<^verbatim>\<open>return\<close> it has moved the iterator on; everywhere else the
  loop moves it on.
\<close>

definition probe_row ::
  "('p, 'b, 'e, 'v, 'r) join_env \<Rightarrow> Iterator \<Rightarrow> ('p, 'b, 'e, 'v) HashJoinNode \<times> ('p, 'b, 'r) RowBatch
     \<Rightarrow> ('p, 'b, 'e, 'v) HashJoinNode \<times> ('p, 'b, 'r) RowBatch \<times> loop_exit" where
  "probe_row env it = (\<lambda>(s, out).
     let matched_build_row = iterator_get_row (hash_tbl s) it;
         out_row = create_output_row (current_probe_row s) (Some matched_build_row)
     in if (join_op s = RIGHT_ANTI_JOIN \<or> join_op s = RIGHT_SEMI_JOIN) \<and> iterator_matched (hash_tbl s) it
        then (s, out, Not_returned)
        else if join_op s = RIGHT_ANTI_JOIN
        then ((if eval_other_join_conjuncts env out_row
               then s\<lparr>hash_tbl := iterator_set_matched (hash_tbl s) it\<rparr> else s), out, Not_returned)
        else if \<not> eval_other_join_conjuncts env out_row then (s, out, Not_returned)
        else
          (let s1 = (if join_op s = RIGHT_SEMI_JOIN
                     then s\<lparr>hash_tbl := iterator_set_matched (hash_tbl s) it\<rparr> else s);
               s2 = s1\<lparr>matched_probe := True\<rparr>;
               s3 = (if match_all_build s2
                     then s2\<lparr>joined_build_rows := insert (hd it) (joined_build_rows s2)\<rparr> else s2)
           in if eval_conjuncts env out_row
              then (let out1 = commit_last_row out_row out;
                        s4 = s3\<lparr>num_rows_returned := num_rows_returned s3 + 1\<rparr>
                    in if is_full out1 \<or> reached_limit s4
                       then (s4\<lparr>hash_tbl_iterator := iterator_next it\<rparr>, out1,
                             Returned_eos (reached_limit s4))
                       else (s4, out1, Not_returned))
              else (s3, out, Not_returned)))"

text \<open>The loop itself, \<^verbatim>\<open>while (_hash_tbl_iterator.has_next())\<close>.\<close>

function probe_chain ::
  "('p, 'b, 'e, 'v, 'r) join_env \<Rightarrow> Iterator \<Rightarrow> ('p, 'b, 'e, 'v) HashJoinNode \<times> ('p, 'b, 'r) RowBatch
     \<Rightarrow> ('p, 'b, 'e, 'v) HashJoinNode \<times> ('p, 'b, 'r) RowBatch \<times> loop_exit" where
  "probe_chain env it (s, out) =
     (if \<not> has_next it then (s\<lparr>hash_tbl_iterator := it\<rparr>, out, Not_returned)
      else (let (s1, out1, ex) = probe_row env it (s, out)
            in if ex \<noteq> Not_returned then (s1, out1, ex)
               else probe_chain env (iterator_next it) (s1, out1)))"
  by pat_completeness auto

termination probe_chain
  by (relation "measure (\<lambda>(env, it, st). length it)") (auto simp: iterator_next_def has_next_def)

declare probe_chain.simps [simp del]

text \<open>The probe row that matched no build row, for the joins that keep every probe row.\<close>

definition emit_unmatched_probe ::
  "('p, 'b, 'e, 'v, 'r) join_env \<Rightarrow> ('p, 'b, 'e, 'v) HashJoinNode \<times> ('p, 'b, 'r) RowBatch
     \<Rightarrow> ('p, 'b, 'e, 'v) HashJoinNode \<times> ('p, 'b, 'r) RowBatch \<times> loop_exit" where
  "emit_unmatched_probe env = (\<lambda>(s, out).
     if match_all_probe s \<and> \<not> matched_probe s
     then (let out_row = create_output_row (current_probe_row s) None
           in if eval_conjuncts env out_row
              then (let out1 = commit_last_row out_row out;
                        s1 = s\<lparr>num_rows_returned := num_rows_returned s + 1, matched_probe := True\<rparr>
                    in if is_full out1 \<or> reached_limit s1
                       then (s1, out1, Returned_eos (reached_limit s1))
                       else (s1, out1, Not_returned))
              else (s, out, Not_returned))
     else (s, out, Not_returned))"

text \<open>The loop that reads probe batches until one has a row or the child is at its end.\<close>

fun fetch_probe_batch ::
  "('p, 'b, 'e, 'v, 'r) join_env \<Rightarrow> 'p child_script
     \<Rightarrow> ('p, 'b, 'e, 'v) HashJoinNode \<times> ('p, 'b, 'r) RowBatch
     \<Rightarrow> status \<times> ('p, 'b, 'e, 'v) HashJoinNode \<times> ('p, 'b, 'r) RowBatch \<times> loop_exit" where
  "fetch_probe_batch env [] (s, out) =
     (let (left, res) = transfer_resource_ownership env [] (resources out)
      in (OK, s\<lparr>child0 := [], probe_batch := left, probe_eos := True, node_eos := True\<rparr>,
          out\<lparr>resources := res\<rparr>, Not_returned))"
| "fetch_probe_batch env ((st, rows, eos_in) # script) (s, out) =
     (if st \<noteq> OK then (st, s\<lparr>child0 := script\<rparr>, out, Returned)
      else if rows = []
      then (let (left, res) = transfer_resource_ownership env [] (resources out);
                s1 = s\<lparr>child0 := script, probe_batch := left, probe_eos := eos_in\<rparr>;
                out1 = out\<lparr>resources := res\<rparr>
            in if eos_in then (OK, s1\<lparr>node_eos := True\<rparr>, out1, Not_returned)
               else if is_full out1 \<or> at_resource_limit env (resources out1)
               then (OK, s1, out1, Returned)
               else fetch_probe_batch env script (s1, out1))
      else (OK, s\<lparr>child0 := script, probe_batch := rows, probe_eos := eos_in\<rparr>, out, Not_returned))"

text \<open>What \<^verbatim>\<open>get_next\<close> does when the probe batch has no row left.\<close>

definition next_probe_batch ::
  "('p, 'b, 'e, 'v, 'r) join_env \<Rightarrow> ('p, 'b, 'e, 'v) HashJoinNode \<times> ('p, 'b, 'r) RowBatch
     \<Rightarrow> status \<times> ('p, 'b, 'e, 'v) HashJoinNode \<times> ('p, 'b, 'r) RowBatch \<times> loop_exit" where
  "next_probe_batch env = (\<lambda>(s, out).
     let (left, res) = transfer_resource_ownership env (probe_batch s) (resources out);
         s1 = s\<lparr>probe_batch := left, probe_batch_pos := 0\<rparr>;
         out1 = out\<lparr>resources := res\<rparr>
     in if is_full out1 \<or> at_resource_limit env (resources out1) then (OK, s1, out1, Returned)
        else
          (let (st, s2, out2, ex) =
                 (if \<not> probe_eos s1 then fetch_probe_batch env (child0 s1) (s1, out1)
                  else (OK, s1\<lparr>node_eos := True\<rparr>, out1, Not_returned))
           in if ex \<noteq> Not_returned then (st, s2, out2, ex)
              else if node_eos s2 \<and> (match_all_build s2 \<or> join_op s2 = RIGHT_ANTI_JOIN)
              then (OK, s2\<lparr>hash_tbl_iterator := hash_tbl_begin (hash_tbl s2)\<rparr>, out2, Not_returned)
              else (OK, s2, out2, Not_returned)))"

text \<open>
  What the loops over the build rows leave alone: the probe child, the probe batch, the
  position in it and \<^verbatim>\<open>_eos\<close>. The loop \<^verbatim>\<open>while (!_eos)\<close> ends because every round of
  it takes a row of the probe batch or a batch of the probe child.
\<close>

definition probe_view ::
  "('p, 'b, 'e, 'v) HashJoinNode \<Rightarrow> 'p child_script \<times> 'p list \<times> nat \<times> bool" where
  "probe_view s = (child0 s, probe_batch s, probe_batch_pos s, node_eos s)"

lemma probe_row_view:
  "probe_view (fst (probe_row env it (s, out))) = probe_view s"
  by (simp add: probe_row_def probe_view_def Let_def)

lemma probe_chain_view:
  "probe_view (fst (probe_chain env it (s, out))) = probe_view s"
proof (induction env it "(s, out)" arbitrary: s out rule: probe_chain.induct)
  case (1 env it s out)
  show ?case
  proof (cases "has_next it")
    case False
    then show ?thesis by (simp add: probe_chain.simps probe_view_def)
  next
    case True
    obtain s1 out1 ex where r: "probe_row env it (s, out) = (s1, out1, ex)" by (metis prod_cases3)
    have v: "probe_view s1 = probe_view s" using probe_row_view [of env it s out] r by simp
    show ?thesis
    proof (cases "ex = Not_returned")
      case False
      then show ?thesis using True r v by (simp add: probe_chain.simps)
    next
      case ex: True
      have "probe_view (fst (probe_chain env (iterator_next it) (s1, out1))) = probe_view s1"
        using 1 [of "(s1, out1, ex)" s1 "(out1, ex)" out1 ex] True r ex by simp
      then show ?thesis using True r v ex by (simp add: probe_chain.simps)
    qed
  qed
qed


lemma emit_unmatched_probe_view:
  "probe_view (fst (emit_unmatched_probe env (s, out))) = probe_view s"
  by (simp add: emit_unmatched_probe_def probe_view_def Let_def)

lemma fetch_probe_batch_shorter:
  "fetch_probe_batch env script (s, out) = (st, s1, out1, Not_returned) \<Longrightarrow> \<not> node_eos s1 \<Longrightarrow>
     length (child0 s1) < length script"
proof (induction env script "(s, out)" arbitrary: s out rule: fetch_probe_batch.induct)
  case (1 env s out)
  then show ?case by (auto simp: Let_def split: prod.splits)
next
  case (2 env st' rows eos_in script s out)
  show ?case using "2.prems" "2.hyps"
    by (auto simp: Let_def split: if_splits prod.splits) force+
qed

lemma next_probe_batch_shorter:
  "next_probe_batch env (s, out) = (st, s1, out1, Not_returned) \<Longrightarrow> \<not> node_eos s1 \<Longrightarrow>
     length (child0 s1) < length (child0 s)"
  by (auto simp: next_probe_batch_def Let_def split: if_splits prod.splits
      dest!: fetch_probe_batch_shorter)

text \<open>
  The loop \<^verbatim>\<open>while (!_eos)\<close> of \<^verbatim>\<open>get_next\<close>. \<open>None\<close> is a read past the end of the
  probe batch.
\<close>

function probe_loop ::
  "('p, 'b, 'e, 'v, 'r) join_env \<Rightarrow> ('p, 'b, 'e, 'v) HashJoinNode \<times> ('p, 'b, 'r) RowBatch
     \<Rightarrow> (status \<times> ('p, 'b, 'e, 'v) HashJoinNode \<times> ('p, 'b, 'r) RowBatch \<times> loop_exit) option" where
  "probe_loop env (s, out) =
     (if node_eos s then Some (OK, s, out, Not_returned)
      else
        (let (s1, out1, ex1) = probe_chain env (hash_tbl_iterator s) (s, out)
         in if ex1 \<noteq> Not_returned then Some (OK, s1, out1, ex1)
            else
              (let (s2, out2, ex2) = emit_unmatched_probe env (s1, out1)
               in if ex2 \<noteq> Not_returned then Some (OK, s2, out2, ex2)
                  else
                    (let (st, s3, out3, ex3) =
                           (if probe_batch_pos s2 = length (probe_batch s2)
                            then next_probe_batch env (s2, out2)
                            else (OK, s2, out2, Not_returned))
                     in if ex3 \<noteq> Not_returned then Some (st, s3, out3, ex3)
                        else if node_eos s3 then Some (OK, s3, out3, Not_returned)
                        else if probe_batch_pos s3 < length (probe_batch s3)
                        then probe_loop env
                               (s3\<lparr>current_probe_row := Some (probe_batch s3 ! probe_batch_pos s3),
                                   probe_batch_pos := probe_batch_pos s3 + 1,
                                   matched_probe := False,
                                   hash_tbl_iterator :=
                                     hash_tbl_find (keys_equal env) (hash_tbl s3)
                                       (probe_batch s3 ! probe_batch_pos s3)\<rparr>, out3)
                        else None))))"
  by pat_completeness auto

termination probe_loop
proof (relation "measures [\<lambda>(env, s, out). length (child0 s),
                           \<lambda>(env, s, out). length (probe_batch s) - probe_batch_pos s]", goal_cases)
  case 1
  show ?case by simp
next
  case (2 env s out x s1 y out1 ex1 x2 s2 y2 out2 ex2 x3 st y3 s3 z3 out3 ex3)
  have v1: "probe_view s1 = probe_view s"
    using probe_chain_view [of env "hash_tbl_iterator s" s out] 2 by (metis fst_conv)
  have v2: "probe_view s2 = probe_view s1"
    using emit_unmatched_probe_view [of env s1 out1] 2 by (metis fst_conv)
  have v: "child0 s2 = child0 s" "probe_batch s2 = probe_batch s" "probe_batch_pos s2 = probe_batch_pos s"
    using v1 v2 by (simp_all add: probe_view_def)
  show ?case
  proof (cases "probe_batch_pos s2 = length (probe_batch s2)")
    case True
    then have "next_probe_batch env (s2, out2) = (st, s3, out3, Not_returned)"
      using 2 by simp
    then have "length (child0 s3) < length (child0 s2)"
      using next_probe_batch_shorter 2 by blast
    then show ?thesis using v by simp
  next
    case False
    then have "s3 = s2" using 2 by simp
    then show ?thesis using v 2 by simp
  qed
qed

declare probe_loop.simps [simp del]

text \<open>
  The body of the loop that puts out the build rows that were not matched, at the
  iterator \<open>it\<close>, which has a next row: the row is passed over when it was joined
  (\<^verbatim>\<open>RIGHT_OUTER_JOIN\<close>, \<^verbatim>\<open>FULL_OUTER_JOIN\<close>) or when its \<^verbatim>\<open>matched\<close> bit is set
  (\<^verbatim>\<open>RIGHT_ANTI_JOIN\<close>), and committed when it passes the conjuncts of the node. Where
  the limit is reached \<^verbatim>\<open>get_next\<close> returns and the iterator stays where it is.
\<close>

definition emit_build_row ::
  "('p, 'b, 'e, 'v, 'r) join_env \<Rightarrow> Iterator \<Rightarrow> ('p, 'b, 'e, 'v) HashJoinNode \<times> ('p, 'b, 'r) RowBatch
     \<Rightarrow> ('p, 'b, 'e, 'v) HashJoinNode \<times> ('p, 'b, 'r) RowBatch \<times> loop_exit" where
  "emit_build_row env it = (\<lambda>(s, out).
     let build_row = iterator_get_row (hash_tbl s) it
     in if match_all_build s \<and> hd it \<in> joined_build_rows s then (s, out, Not_returned)
        else if \<not> match_all_build s \<and> join_op s = RIGHT_ANTI_JOIN \<and> iterator_matched (hash_tbl s) it
        then (s, out, Not_returned)
        else
          (let out_row = create_output_row None (Some build_row)
           in if eval_conjuncts env out_row
              then (let out1 = commit_last_row out_row out;
                        s1 = s\<lparr>num_rows_returned := num_rows_returned s + 1\<rparr>
                    in if reached_limit s1 then (s1\<lparr>hash_tbl_iterator := it\<rparr>, out1, Returned_eos True)
                       else (s1, out1, Not_returned))
              else (s, out, Not_returned)))"

text \<open>The loop itself, \<^verbatim>\<open>while (!out_batch->is_full() && _hash_tbl_iterator.has_next())\<close>.\<close>

function emit_unmatched_build ::
  "('p, 'b, 'e, 'v, 'r) join_env \<Rightarrow> Iterator \<Rightarrow> ('p, 'b, 'e, 'v) HashJoinNode \<times> ('p, 'b, 'r) RowBatch
     \<Rightarrow> ('p, 'b, 'e, 'v) HashJoinNode \<times> ('p, 'b, 'r) RowBatch \<times> loop_exit" where
  "emit_unmatched_build env it (s, out) =
     (if \<not> (\<not> is_full out \<and> has_next it) then (s\<lparr>hash_tbl_iterator := it\<rparr>, out, Not_returned)
      else (let (s1, out1, ex) = emit_build_row env it (s, out)
            in if ex \<noteq> Not_returned then (s1, out1, ex)
               else emit_unmatched_build env (iterator_next it) (s1, out1)))"
  by pat_completeness auto

termination emit_unmatched_build
  by (relation "measure (\<lambda>(env, it, st). length it)") (auto simp: iterator_next_def has_next_def)

declare emit_unmatched_build.simps [simp del]

text \<open>
  \<^verbatim>\<open>HashJoinNode::get_next(state, out_batch, eos)\<close>: the status, the node, the output
  batch and \<^verbatim>\<open>*eos\<close>, which is \<open>eos_in\<close> when the call begins.
\<close>

definition get_next ::
  "('p, 'b, 'e, 'v, 'r) join_env \<Rightarrow> ('p, 'b, 'e, 'v) HashJoinNode \<times> ('p, 'b, 'r) RowBatch \<times> bool
     \<Rightarrow> (status \<times> ('p, 'b, 'e, 'v) HashJoinNode \<times> ('p, 'b, 'r) RowBatch \<times> bool) option" where
  "get_next env = (\<lambda>(s, out, eos_in).
     if debug_action_getnext env \<noteq> OK then Some (debug_action_getnext env, s, out, eos_in)
     else if is_cancelled env then Some (Cancelled, s, out, eos_in)
     else if reached_limit s then Some (OK, s, out, True)
     else if \<not> (match_all_build s \<or> join_op s = RIGHT_SEMI_JOIN \<or> join_op s = RIGHT_ANTI_JOIN)
     then (if node_eos s then Some (OK, s, out, True)
           else Some (left_join_get_next env (s, out, eos_in)))
     else
       (case probe_loop env (s, out) of
          None \<Rightarrow> None
        | Some (st, s1, out1, ex) \<Rightarrow>
            (case ex of
               Returned \<Rightarrow> Some (st, s1, out1, eos_in)
             | Returned_eos e \<Rightarrow> Some (st, s1, out1, e)
             | Not_returned \<Rightarrow>
                 if match_all_build s1 \<or> join_op s1 = RIGHT_ANTI_JOIN
                 then (let s2 = (if join_op s1 = RIGHT_ANTI_JOIN \<and> \<not> anti_join_last_pos s1
                                 then s1\<lparr>hash_tbl_iterator := hash_tbl_begin (hash_tbl s1)\<rparr>
                                 else s1);
                           (s3, out3, ex3) = emit_unmatched_build env (hash_tbl_iterator s2) (s2, out1)
                       in case ex3 of
                            Returned_eos e \<Rightarrow> Some (OK, s3, out3, e)
                          | Returned \<Rightarrow> Some (OK, s3, out3, True)
                          | Not_returned \<Rightarrow>
                              (let s4 = (if join_op s3 = RIGHT_ANTI_JOIN
                                         then s3\<lparr>anti_join_last_pos := True\<rparr> else s3)
                               in Some (OK, s4, out3, \<not> has_next (hash_tbl_iterator s4))))
                 else Some (OK, s1, out1, True))))"

text \<open>
  A caller that calls \<^verbatim>\<open>get_next\<close>, each time with an empty batch of the capacity
  \<open>cap\<close> and the resources \<open>res\<close> and with \<^verbatim>\<open>*eos\<close> false, until a call fails or reports
  the end of the stream, for at most \<open>n\<close> calls: the last status, the node and the rows
  of all the batches; \<open>None\<close> when \<open>n\<close> calls were not enough.
\<close>

fun drain ::
  "('p, 'b, 'e, 'v, 'r) join_env \<Rightarrow> nat \<Rightarrow> 'r \<Rightarrow> nat \<Rightarrow> ('p, 'b, 'e, 'v) HashJoinNode
     \<Rightarrow> (status \<times> ('p, 'b, 'e, 'v) HashJoinNode \<times> ('p, 'b) out_row list) option" where
  "drain env cap res 0 s = None"
| "drain env cap res (Suc n) s =
     (case get_next env (s, \<lparr>capacity = cap, committed_rows = [], resources = res\<rparr>, False) of
        None \<Rightarrow> None
      | Some (st, s1, out, eos_out) \<Rightarrow>
          if st \<noteq> OK \<or> eos_out then Some (st, s1, committed_rows out)
          else (case drain env cap res n s1 of
                  None \<Rightarrow> None
                | Some (st2, s2, rows) \<Rightarrow> Some (st2, s2, committed_rows out @ rows)))"

subsection \<open>Opening the node: pushdown and the empty build side\<close>

text \<open>
  A node over natural numbers as rows, joined on equality, with one join key that is
  not null-safe and no limit, and its surroundings, in which every call succeeds: the
  number of conjuncts of the build child and the conjuncts of the node are left open.
\<close>

definition example_join_env :: "nat \<Rightarrow> ((nat, nat) out_row \<Rightarrow> bool) \<Rightarrow> (nat, nat, unit, nat, unit) join_env" where
  "example_join_env build_conjuncts conjuncts =
     \<lparr>exec_node_open = OK, debug_action_open = OK, debug_action_getnext = OK, is_cancelled = False,
      expr_open_build = OK, expr_open_probe = OK, expr_open_other = OK,
      child0_type = OTHER_NODE, child1_type = OTHER_NODE, child0_open = OK, child1_open = OK,
      child1_conjunct_ctxs_size = build_conjuncts, check_has_vectorized_scan_child = False,
      limit_exceeded = (\<lambda>tbl rows. OK), in_pred_prepare = (\<lambda>e. OK), build_get_value = (\<lambda>e b. b),
      keys_equal = (\<lambda>p b. p = b), eval_other_join_conjuncts = (\<lambda>row. True),
      eval_conjuncts = conjuncts, transfer_resource_ownership = (\<lambda>rows res. ([], res)),
      at_resource_limit = (\<lambda>res. False), left_join_get_next = (\<lambda>(s, out, e). (OK, s, out, e))\<rparr>"

definition example_join_node ::
  "TJoinOp \<Rightarrow> bool \<Rightarrow> nat child_script \<Rightarrow> nat child_script \<Rightarrow> (nat, nat, unit, nat) HashJoinNode" where
  "example_join_node op push probe build =
     \<lparr>join_op = op, is_push_down = push, is_null_safe_eq_join = [False],
      probe_expr_ctxs = [()], build_expr_ctxs = [()], node_eos = False, probe_eos = False,
      probe_batch = [], probe_batch_pos = 0, current_probe_row = None, matched_probe = False,
      hash_tbl = [], hash_tbl_iterator = [], joined_build_rows = {}, anti_join_last_pos = False,
      num_rows_returned = 0, node_limit = - 1, push_down_expr_ctxs = [], pushed_down = [],
      child0_opened = False, child0 = probe, child1 = build\<rparr>"

text \<open>
  Claim C2, as stated, fails for an inner join for which the pushdown is not requested:
  the build side produces no row, and \<^verbatim>\<open>open\<close> reads the first batch of the probe child
  and leaves the node with its first probe row and \<^verbatim>\<open>_eos\<close> false.
\<close>

theorem open_without_push_down_reads_probe_counterexample:
  "join_op (example_join_node INNER_JOIN False [(OK, [7], True)] [(OK, [], True)]) = INNER_JOIN
   \<and> open_node (example_join_env 0 (\<lambda>row. True))
         (example_join_node INNER_JOIN False [(OK, [7], True)] [(OK, [], True)])
       = Some (OK, (example_join_node INNER_JOIN False [(OK, [7], True)] [(OK, [], True)])
                     \<lparr>child0_opened := True, child0 := [], child1 := [], probe_batch := [7],
                       probe_eos := True, probe_batch_pos := 1, current_probe_row := Some 7\<rparr>)
   \<and> \<not> node_eos ((example_join_node INNER_JOIN False [(OK, [7], True)] [(OK, [], True)])
                     \<lparr>child0_opened := True, child0 := [], child1 := [], probe_batch := [7],
                       probe_eos := True, probe_batch_pos := 1, current_probe_row := Some 7\<rparr>)"
  by (simp add: open_node_def example_join_env_def example_join_node_def construct_hash_table_def
      process_build_batch_def hash_tbl_find_def disable_push_down_def Let_def)


lemma process_build_batch_rows: "process_build_batch rows tbl = tbl @ map (\<lambda>row. (row, False)) rows"
  unfolding process_build_batch_def
  by (induction rows arbitrary: tbl) (simp_all add: hash_tbl_insert_def)

lemma build_loop_empty:
  assumes "\<not> is_cancelled env" and "limit_exceeded env [] [] = OK"
    and "\<forall>x\<in>set script. fst x = OK \<and> fst (snd x) = []"
  shows "\<exists>rest. build_loop env script [] = (OK, [], rest)"
  using assms(3)
proof (induction script)
  case Nil
  show ?case using assms(1,2) by (simp add: process_build_batch_rows)
next
  case (Cons x script)
  obtain st rows e where x: "x = (st, rows, e)" by (cases x)
  have "st = OK" "rows = []" using Cons.prems x by simp_all
  then show ?case using Cons.IH Cons.prems assms(1,2) x by (simp add: process_build_batch_rows)
qed

lemma construct_hash_table_frame:
  "snd (construct_hash_table env s)
     = s\<lparr>hash_tbl := hash_tbl (snd (construct_hash_table env s)),
         child1 := child1 (snd (construct_hash_table env s))\<rparr>"
  by (simp add: construct_hash_table_def Let_def split: prod.splits)

text \<open>The predicates of the pushdown and the table, which reading the probe child leaves alone.\<close>

definition push_view ::
  "('p, 'b, 'e, 'v) HashJoinNode \<Rightarrow> ('e \<times> 'v list) list \<times> ('e \<times> 'v list) list list \<times> 'b HashTable" where
  "push_view s = (push_down_expr_ctxs s, pushed_down s, hash_tbl s)"

lemma seed_probe_batch_push_view:
  "push_view (snd (seed_probe_batch env script s)) = push_view s"
  by (induction env script s rule: seed_probe_batch.induct) (simp_all add: push_view_def)


text \<open>
  The pushdown is still on after the three tests: it was requested, not both children
  are exchange nodes, no join key is null-safe, and no child scan node is vectorized.
\<close>

definition push_down_enabled :: "('p, 'b, 'e, 'v, 'r) join_env \<Rightarrow> ('p, 'b, 'e, 'v) HashJoinNode \<Rightarrow> bool" where
  "push_down_enabled env s =
     (is_push_down s
      \<and> \<not> (child0_type env = EXCHANGE_NODE \<and> child1_type env = EXCHANGE_NODE)
      \<and> True \<notin> set (is_null_safe_eq_join s)
      \<and> \<not> check_has_vectorized_scan_child env)"

lemma disable_push_down_eq:
  "disable_push_down env s = s\<lparr>is_push_down := push_down_enabled env s\<rparr>"
  by (cases "is_push_down s") (auto simp: disable_push_down_def push_down_enabled_def Let_def)

text \<open>
  Claim C2, amended: for every inner join for which the pushdown is requested and is
  not switched off by the three tests, and whose build side produces no row, \<^verbatim>\<open>open\<close>
  (when nothing before fails and the probe child opens) returns \<^verbatim>\<open>OK\<close> with the node at
  its end, and no batch of the probe child is read; the first \<^verbatim>\<open>get_next\<close> afterwards
  sets \<^verbatim>\<open>*eos\<close>, leaves the output batch as it is and reads nothing.
\<close>

theorem inner_join_empty_build_short_circuit:
  assumes op: "join_op s = INNER_JOIN"
    and pro: "exec_node_open env = OK" "debug_action_open env = OK" "\<not> is_cancelled env"
      "expr_open_build env = OK" "expr_open_probe env = OK" "expr_open_other env = OK"
    and push: "is_push_down s" "\<not> (child0_type env = EXCHANGE_NODE \<and> child1_type env = EXCHANGE_NODE)"
      "True \<notin> set (is_null_safe_eq_join s)" "\<not> check_has_vectorized_scan_child env"
    and build: "hash_tbl s = []" "child1_open env = OK" "limit_exceeded env [] [] = OK"
      "\<forall>x\<in>set (child1 s). fst x = OK \<and> fst (snd x) = []"
    and c0: "child0_open env = OK"
  shows "\<exists>s'. open_node env s = Some (OK, s') \<and> node_eos s' \<and> hash_tbl s' = []
            \<and> child0 s' = child0 s \<and> probe_batch s' = probe_batch s
            \<and> (debug_action_getnext env = OK \<longrightarrow>
                  get_next env (s', out, eos_in) = Some (OK, s', out, True))"
proof -
  from build_loop_empty [OF pro(3) build(3,4)] obtain rest where
    b: "build_loop env (child1 s) [] = (OK, [], rest)" by blast
  have ct: "construct_hash_table env (s\<lparr>node_eos := False\<rparr>)
              = (OK, s\<lparr>node_eos := False, hash_tbl := [], child1 := rest\<rparr>)"
    using b build(1,2) by (simp add: construct_hash_table_def)
  define s' where "s' = s\<lparr>node_eos := True, hash_tbl := [], child1 := rest, child0_opened := True,
                          probe_batch_pos := 0, hash_tbl_iterator := []\<rparr>"
  have both: "(child0_type env = EXCHANGE_NODE \<and> child1_type env = EXCHANGE_NODE) = False"
    using push(2) by simp
  have o: "open_node env s = Some (OK, s')"
    unfolding open_node_def using pro push(1,3,4) c0 op
    by (simp add: ct both s'_def hash_tbl_size_def hash_tbl_begin_def disable_push_down_eq
        push_down_enabled_def)
  have g: "get_next env (s', out, eos_in) = Some (OK, s', out, True)" if "debug_action_getnext env = OK"
    using that pro(3) op
    by (simp add: get_next_def s'_def match_all_build_def)
  show ?thesis
    using o g by (intro exI [of _ s']) (simp add: s'_def)
qed

text \<open>
  The theorem at the inner join above with the pushdown requested: the batch of the
  probe child is still there after \<^verbatim>\<open>open\<close> and after \<^verbatim>\<open>get_next\<close>.
\<close>

theorem inner_join_empty_build_short_circuit_witness:
  "join_op (example_join_node INNER_JOIN True [(OK, [7], True)] [(OK, [], True)]) = INNER_JOIN
   \<and> (\<exists>s'. open_node (example_join_env 0 (\<lambda>row. True))
              (example_join_node INNER_JOIN True [(OK, [7], True)] [(OK, [], True)]) = Some (OK, s')
         \<and> node_eos s' \<and> child0 s' = [(OK, [7], True)]
         \<and> get_next (example_join_env 0 (\<lambda>row. True))
              (s', \<lparr>capacity = 2, committed_rows = [], resources = ()\<rparr>, False)
            = Some (OK, s', \<lparr>capacity = 2, committed_rows = [], resources = ()\<rparr>, True))"
proof -
  let ?env = "example_join_env 0 (\<lambda>row. True)"
  let ?s = "example_join_node INNER_JOIN True [(OK, [7], True)] [(OK, [], True)]"
  have h: "join_op ?s = INNER_JOIN"
    "exec_node_open ?env = OK" "debug_action_open ?env = OK" "\<not> is_cancelled ?env"
    "expr_open_build ?env = OK" "expr_open_probe ?env = OK" "expr_open_other ?env = OK"
    "is_push_down ?s" "\<not> (child0_type ?env = EXCHANGE_NODE \<and> child1_type ?env = EXCHANGE_NODE)"
    "True \<notin> set (is_null_safe_eq_join ?s)" "\<not> check_has_vectorized_scan_child ?env"
    "hash_tbl ?s = []" "child1_open ?env = OK" "limit_exceeded ?env [] [] = OK"
    "\<forall>x\<in>set (child1 ?s). fst x = OK \<and> fst (snd x) = []"
    "child0_open ?env = OK"
    by (simp_all add: example_join_env_def example_join_node_def)
  have e: "debug_action_getnext ?env = OK" "child0 ?s = [(OK, [7], True)]"
    by (simp_all add: example_join_env_def example_join_node_def)
  show ?thesis
    using inner_join_empty_build_short_circuit [OF h,
        of "\<lparr>capacity = 2, committed_rows = [], resources = ()\<rparr>" False] e h(1)
    by auto
qed

lemma synthesize_in_preds_ok:
  "\<forall>e\<in>set es. in_pred_prepare env e = OK \<Longrightarrow>
     synthesize_in_preds env es ctxs = (OK, ctxs @ map (\<lambda>e. (e, [])) es)"
  by (induction es arbitrary: ctxs) simp_all

lemma insert_row_values_length:
  "insert_row_values env build_exprs row ctxs = Some ctxs' \<Longrightarrow> length ctxs' = length ctxs"
proof -
  have "fold_option (\<lambda>i ctxs.
        if i < length ctxs
        then Some (ctxs[i := (fst (ctxs ! i),
                              List.insert (build_get_value env (build_exprs ! i) row) (snd (ctxs ! i)))])
        else None) is ctxs = Some ctxs' \<Longrightarrow> length ctxs' = length ctxs" for "is"
    by (induction "is" arbitrary: ctxs) (auto split: if_splits option.splits)
  then show "insert_row_values env build_exprs row ctxs = Some ctxs' \<Longrightarrow> length ctxs' = length ctxs"
    by (simp add: insert_row_values_def)
qed

lemma fill_in_preds_length:
  "fill_in_preds env build_exprs tbl ctxs = Some ctxs' \<Longrightarrow> length ctxs' = length ctxs"
proof -
  have "fold_option (\<lambda>i. insert_row_values env build_exprs (fst (tbl ! i))) is ctxs = Some ctxs'
          \<Longrightarrow> length ctxs' = length ctxs" for "is"
    by (induction "is" arbitrary: ctxs) (auto split: option.splits dest: insert_row_values_length)
  then show "fill_in_preds env build_exprs tbl ctxs = Some ctxs' \<Longrightarrow> length ctxs' = length ctxs"
    by (simp add: fill_in_preds_def)
qed

lemma push_down_hash_tbl:
  "push_down env s = Some (st, s') \<Longrightarrow> hash_tbl s' = hash_tbl s \<and> child0 s' = child0 s"
  by (auto simp: push_down_def Let_def split: prod.splits if_splits option.splits)

lemma push_down_ok:
  assumes "push_down env s = Some (st, s')" and "\<forall>e\<in>set (probe_expr_ctxs s). in_pred_prepare env e = OK"
  shows "st = OK \<and> pushed_down s' = pushed_down s @ [push_down_expr_ctxs s']
         \<and> length (push_down_expr_ctxs s') = length (push_down_expr_ctxs s) + length (probe_expr_ctxs s)"
  using assms(1) synthesize_in_preds_ok [OF assms(2), of "push_down_expr_ctxs s"]
  by (auto simp: push_down_def Let_def split: option.splits dest: fill_in_preds_length)

lemma construct_hash_table_fields:
  assumes "construct_hash_table env s = (ts, s1)"
  shows "push_down_expr_ctxs s1 = push_down_expr_ctxs s" "pushed_down s1 = pushed_down s"
    "is_push_down s1 = is_push_down s" "is_null_safe_eq_join s1 = is_null_safe_eq_join s"
    "join_op s1 = join_op s" "child0 s1 = child0 s" "probe_expr_ctxs s1 = probe_expr_ctxs s"
  using assms by (auto simp: construct_hash_table_def Let_def split: prod.splits if_splits)

lemma seed_probe_batch_fields:
  assumes "seed_probe_batch env script s = (st, s')"
  shows "push_down_expr_ctxs s' = push_down_expr_ctxs s \<and> pushed_down s' = pushed_down s
         \<and> hash_tbl s' = hash_tbl s"
  using seed_probe_batch_push_view [of env script s] assms by (simp add: push_view_def)

text \<open>
  What \<^verbatim>\<open>open\<close> does with the predicates, by the way it takes: no step of it but
  \<open>push_down\<close> touches them.
\<close>

lemma open_node_no_push_down:
  assumes o: "open_node env s = Some (st, s')"
    and ct: "construct_hash_table env (s\<lparr>node_eos := False\<rparr>) = (ts, s1)"
    and no: "\<not> push_down_enabled env s \<or> (1024 < length (hash_tbl s1) \<and> child1_conjunct_ctxs_size env = 0)"
  shows "push_down_expr_ctxs s' = push_down_expr_ctxs s \<and> pushed_down s' = pushed_down s"
proof -
  note f = construct_hash_table_fields [OF ct]
  have e: "push_down_enabled env s1 = push_down_enabled env s"
    using f by (simp add: push_down_enabled_def)
  have k: "push_down_expr_ctxs s1 = push_down_expr_ctxs s" "pushed_down s1 = pushed_down s"
    using f by simp_all
  show ?thesis
  proof (cases "exec_node_open env = OK \<and> debug_action_open env = OK \<and> \<not> is_cancelled env
                \<and> expr_open_build env = OK \<and> expr_open_probe env = OK \<and> expr_open_other env = OK")
    case False
    then have "s' = s" using o by (auto simp: open_node_def split: if_splits)
    then show ?thesis by simp
  next
    case pro: True
    show ?thesis
    proof (cases "push_down_enabled env s")
      case False
      then show ?thesis
        using o pro k
        by (auto simp: open_node_def ct disable_push_down_eq e Let_def
            split: if_splits dest!: seed_probe_batch_fields)
    next
      case True
      then have big: "1024 < length (hash_tbl s1)" "child1_conjunct_ctxs_size env = 0"
        using no by simp_all
      then have ne: "hash_tbl_size (hash_tbl s1) \<noteq> 0" by (auto simp: hash_tbl_size_def)
      show ?thesis
        using o pro k True big ne
        by (auto simp: open_node_def ct disable_push_down_eq e Let_def
            hash_tbl_size_def split: if_splits dest!: seed_probe_batch_fields)
    qed
  qed
qed

lemma open_node_hash_tbl:
  assumes o: "open_node env s = Some (st, s')"
    and ct: "construct_hash_table env (s\<lparr>node_eos := False\<rparr>) = (ts, s1)"
    and pro: "exec_node_open env = OK" "debug_action_open env = OK" "\<not> is_cancelled env"
      "expr_open_build env = OK" "expr_open_probe env = OK" "expr_open_other env = OK"
  shows "hash_tbl s' = hash_tbl s1"
  using o pro
  by (auto simp: open_node_def ct disable_push_down_eq Let_def
      split: if_splits option.splits dest!: push_down_hash_tbl seed_probe_batch_fields)

lemma insert_row_values_some:
  assumes "length build_exprs \<le> length ctxs"
  shows "\<exists>ctxs'. insert_row_values env build_exprs row ctxs = Some ctxs'"
proof -
  have "\<forall>i\<in>set is. i < length ctxs \<Longrightarrow>
        \<exists>ctxs'. fold_option (\<lambda>i ctxs.
        if i < length ctxs
        then Some (ctxs[i := (fst (ctxs ! i),
                              List.insert (build_get_value env (build_exprs ! i) row) (snd (ctxs ! i)))])
        else None) is ctxs = Some ctxs'" for "is"
    by (induction "is" arbitrary: ctxs) simp_all
  from this [of "[0..<length build_exprs]"] assms show ?thesis
    by (simp add: insert_row_values_def)
qed

lemma fill_in_preds_some:
  assumes "length build_exprs \<le> length ctxs"
  shows "\<exists>ctxs'. fill_in_preds env build_exprs tbl ctxs = Some ctxs'"
proof -
  have "length build_exprs \<le> length ctxs \<Longrightarrow>
        \<exists>ctxs'. fold_option (\<lambda>i. insert_row_values env build_exprs (fst (tbl ! i))) is ctxs = Some ctxs'"
    for "is" ctxs
  proof (induction "is" arbitrary: ctxs)
    case Nil
    show ?case by simp
  next
    case (Cons i "is")
    from insert_row_values_some [OF Cons.prems, of env "fst (tbl ! i)"] obtain c1 where
      c: "insert_row_values env build_exprs (fst (tbl ! i)) ctxs = Some c1" by blast
    then have "length c1 = length ctxs" by (rule insert_row_values_length)
    then show ?case using Cons.IH [of c1] Cons.prems c by simp
  qed
  then show ?thesis using assms by (simp add: fill_in_preds_def)
qed

lemma push_down_some:
  assumes "\<forall>e\<in>set (probe_expr_ctxs s). in_pred_prepare env e = OK"
    and "length (build_expr_ctxs s) \<le> length (push_down_expr_ctxs s) + length (probe_expr_ctxs s)"
  shows "\<exists>s'. push_down env s = Some (OK, s')"
proof -
  from fill_in_preds_some [of "build_expr_ctxs s"
      "push_down_expr_ctxs s @ map (\<lambda>e. (e, [])) (probe_expr_ctxs s)" env "hash_tbl s"] assms(2)
  obtain filled where "fill_in_preds env (build_expr_ctxs s) (hash_tbl s)
      (push_down_expr_ctxs s @ map (\<lambda>e. (e, [])) (probe_expr_ctxs s)) = Some filled"
    by auto
  then show ?thesis
    using synthesize_in_preds_ok [OF assms(1), of "push_down_expr_ctxs s"]
    by (simp add: push_down_def)
qed

lemma open_node_pushes:
  assumes o: "open_node env s = Some (st, s')"
    and ct: "construct_hash_table env (s\<lparr>node_eos := False\<rparr>) = (OK, s1)"
    and pro: "exec_node_open env = OK" "debug_action_open env = OK" "\<not> is_cancelled env"
      "expr_open_build env = OK" "expr_open_probe env = OK" "expr_open_other env = OK"
    and en: "push_down_enabled env s"
    and ne: "\<not> (hash_tbl s1 = [] \<and> join_op s = INNER_JOIN)"
    and sz: "length (hash_tbl s1) \<le> 1024 \<or> child1_conjunct_ctxs_size env \<noteq> 0"
    and pr: "\<forall>e\<in>set (probe_expr_ctxs s). in_pred_prepare env e = OK"
  shows "pushed_down s' = pushed_down s @ [push_down_expr_ctxs s']
         \<and> length (push_down_expr_ctxs s') = length (push_down_expr_ctxs s) + length (probe_expr_ctxs s)"
proof -
  note f = construct_hash_table_fields [OF ct]
  have e: "push_down_enabled env s1 = True" using f en by (simp add: push_down_enabled_def)
  define s5 where "s5 = s1\<lparr>is_push_down := \<not> 1024 < length (hash_tbl s1)\<rparr>"
  have k: "push_down_expr_ctxs s5 = push_down_expr_ctxs s" "pushed_down s5 = pushed_down s"
    "probe_expr_ctxs s5 = probe_expr_ctxs s"
    using f by (simp_all add: s5_def)
  have n: "(hash_tbl s1 = [] \<and> join_op s1 = INNER_JOIN) = False"
    using ne f by simp
  have o': "(case push_down env s5 of
               None \<Rightarrow> None
             | Some (st, s6) \<Rightarrow>
                 if st \<noteq> OK then Some (st, s6)
                 else if child0_open env \<noteq> OK
                 then Some (child0_open env, s6\<lparr>child0_opened := True\<rparr>)
                 else Some (seed_probe_batch env (child0 s6) (s6\<lparr>child0_opened := True\<rparr>)))
            = Some (st, s')"
  proof (cases "1024 < length (hash_tbl s1)")
    case True
    then have "0 < child1_conjunct_ctxs_size env" using sz by simp
    then show ?thesis
      using o pro True unfolding open_node_def
      by (simp add: ct disable_push_down_eq e Let_def n hash_tbl_size_def s5_def)
  next
    case False
    then show ?thesis
      using o pro unfolding open_node_def
      by (simp add: ct disable_push_down_eq e Let_def n hash_tbl_size_def s5_def)
  qed
  then obtain st6 s6 where p: "push_down env s5 = Some (st6, s6)"
    by (auto split: option.splits)
  from push_down_ok [OF p] pr k have p6: "st6 = OK"
    "pushed_down s6 = pushed_down s @ [push_down_expr_ctxs s6]"
    "length (push_down_expr_ctxs s6) = length (push_down_expr_ctxs s) + length (probe_expr_ctxs s)"
    by simp_all
  have "push_down_expr_ctxs s' = push_down_expr_ctxs s6 \<and> pushed_down s' = pushed_down s6"
    using o' p p6(1) by (auto split: if_splits dest!: seed_probe_batch_fields)
  then show ?thesis using p6 by simp
qed

text \<open>
  Claim C1, as stated, fails when the build child has conjuncts: the table holds 1025
  rows, which switches \<^verbatim>\<open>_is_push_down\<close> off, and \<^verbatim>\<open>open\<close> still makes the
  \<^verbatim>\<open>IN\<close>-predicate of the one probe expression and pushes it down, because the test
  before the pushdown is \<^verbatim>\<open>_is_push_down || 0 != child(1)->conjunct_ctxs().size()\<close>.
\<close>

theorem open_large_table_pushes_counterexample:
  "is_push_down (example_join_node RIGHT_OUTER_JOIN True [(OK, [3], True)] [(OK, replicate 1025 3, True)])
   \<and> (\<exists>s'. open_node (example_join_env 2 (\<lambda>row. True))
          (example_join_node RIGHT_OUTER_JOIN True [(OK, [3], True)] [(OK, replicate 1025 3, True)])
        = Some (OK, s')
      \<and> hash_tbl_size (hash_tbl s') = 1025
      \<and> length (push_down_expr_ctxs s') = 1
      \<and> pushed_down s' = [push_down_expr_ctxs s'])"
proof -
  let ?env = "example_join_env 2 (\<lambda>row. True)"
  let ?s = "example_join_node RIGHT_OUTER_JOIN True [(OK, [3], True)] [(OK, replicate 1025 3, True)]"
  define s1 where "s1 = ?s\<lparr>node_eos := False, hash_tbl := map (\<lambda>row. (row, False)) (replicate 1025 3),
                            child1 := []\<rparr>"
  have ct: "construct_hash_table ?env (?s\<lparr>node_eos := False\<rparr>) = (OK, s1)"
    by (simp add: construct_hash_table_def example_join_env_def example_join_node_def
        process_build_batch_rows s1_def)
  have pro: "exec_node_open ?env = OK" "debug_action_open ?env = OK" "\<not> is_cancelled ?env"
    "expr_open_build ?env = OK" "expr_open_probe ?env = OK" "expr_open_other ?env = OK"
    by (simp_all add: example_join_env_def)
  have en: "push_down_enabled ?env ?s"
    by (simp add: push_down_enabled_def example_join_env_def example_join_node_def)
  have en1: "push_down_enabled ?env s1 = True"
    by (simp add: push_down_enabled_def example_join_env_def example_join_node_def s1_def)
  have l: "length (hash_tbl s1) = 1025" by (simp add: s1_def)
  have pr: "\<forall>e\<in>set (probe_expr_ctxs ?s). in_pred_prepare ?env e = OK"
    by (simp add: example_join_env_def)
  define s5 where "s5 = s1\<lparr>is_push_down := False\<rparr>"
  have "\<exists>s6. push_down ?env s5 = Some (OK, s6)"
    by (rule push_down_some) (simp_all add: s5_def s1_def example_join_env_def example_join_node_def)
  then obtain s6 where p: "push_down ?env s5 = Some (OK, s6)" by blast
  obtain st s' where sd: "seed_probe_batch ?env (child0 s6) (s6\<lparr>child0_opened := True\<rparr>) = (st, s')"
    by (cases "seed_probe_batch ?env (child0 s6) (s6\<lparr>child0_opened := True\<rparr>)")
  have c6: "child0 s6 = [(OK, [3], True)]"
    using push_down_hash_tbl [OF p] by (simp add: s5_def s1_def example_join_node_def)
  have st: "st = OK" using sd unfolding c6 by auto
  have c0: "child0_open ?env = OK" "child1_conjunct_ctxs_size ?env = 2"
    by (simp_all add: example_join_env_def)
  have o: "open_node ?env ?s = Some (OK, s')"
    unfolding open_node_def using pro l
    by (simp add: ct disable_push_down_eq en1 Let_def hash_tbl_size_def s5_def [symmetric] p sd st c0)
  have h: "hash_tbl s' = hash_tbl s1"
    by (rule open_node_hash_tbl [OF o ct pro])
  have ne: "\<not> (hash_tbl s1 = [] \<and> join_op ?s = INNER_JOIN)"
    by (simp add: example_join_node_def)
  have sz: "length (hash_tbl s1) \<le> 1024 \<or> child1_conjunct_ctxs_size ?env \<noteq> 0"
    by (simp add: example_join_env_def)
  from open_node_pushes [OF o ct pro en ne sz pr]
  have "pushed_down s' = [push_down_expr_ctxs s']" "length (push_down_expr_ctxs s') = 1"
    by (simp_all add: example_join_node_def)
  moreover have "is_push_down ?s" by (simp add: example_join_node_def)
  ultimately show ?thesis using o h l by (auto simp: hash_tbl_size_def)
qed

text \<open>
  Claim C1, amended: \<^verbatim>\<open>open\<close> makes \<^verbatim>\<open>IN\<close>-predicates or pushes predicates down only
  when the pushdown is requested, no join key is null-safe, not both children are
  exchange nodes, no child scan node is vectorized, and the table holds at most 1024
  rows or the build child has conjuncts. When these hold, nothing before fails, the
  build succeeds, it is not the inner join with an empty table, and every predicate
  can be prepared, \<^verbatim>\<open>open\<close> makes one predicate for each probe expression and pushes the
  predicates down in one call.
\<close>

theorem push_down_only_when_enabled:
  assumes "open_node env s = Some (st, s')"
  shows "(push_down_expr_ctxs s' \<noteq> push_down_expr_ctxs s \<or> pushed_down s' \<noteq> pushed_down s \<longrightarrow>
            is_push_down s
            \<and> True \<notin> set (is_null_safe_eq_join s)
            \<and> \<not> (child0_type env = EXCHANGE_NODE \<and> child1_type env = EXCHANGE_NODE)
            \<and> \<not> check_has_vectorized_scan_child env
            \<and> (hash_tbl_size (hash_tbl s') \<le> 1024 \<or> child1_conjunct_ctxs_size env \<noteq> 0))
       \<and> (push_down_enabled env s
            \<and> exec_node_open env = OK \<and> debug_action_open env = OK \<and> \<not> is_cancelled env
            \<and> expr_open_build env = OK \<and> expr_open_probe env = OK \<and> expr_open_other env = OK
            \<and> fst (construct_hash_table env (s\<lparr>node_eos := False\<rparr>)) = OK
            \<and> \<not> (hash_tbl s' = [] \<and> join_op s = INNER_JOIN)
            \<and> (hash_tbl_size (hash_tbl s') \<le> 1024 \<or> child1_conjunct_ctxs_size env \<noteq> 0)
            \<and> (\<forall>e\<in>set (probe_expr_ctxs s). in_pred_prepare env e = OK) \<longrightarrow>
            pushed_down s' = pushed_down s @ [push_down_expr_ctxs s']
            \<and> length (push_down_expr_ctxs s')
                = length (push_down_expr_ctxs s) + length (probe_expr_ctxs s))"
proof (intro conjI impI)
  obtain ts s1 where ct: "construct_hash_table env (s\<lparr>node_eos := False\<rparr>) = (ts, s1)"
    by (cases "construct_hash_table env (s\<lparr>node_eos := False\<rparr>)")
  {
    assume p: "push_down_expr_ctxs s' \<noteq> push_down_expr_ctxs s \<or> pushed_down s' \<noteq> pushed_down s"
    have en: "push_down_enabled env s"
      and sz: "\<not> (1024 < length (hash_tbl s1) \<and> child1_conjunct_ctxs_size env = 0)"
      using open_node_no_push_down [OF assms ct] p by blast+
    have pro: "exec_node_open env = OK \<and> debug_action_open env = OK \<and> \<not> is_cancelled env
                \<and> expr_open_build env = OK \<and> expr_open_probe env = OK \<and> expr_open_other env = OK"
    proof (rule ccontr)
      assume "\<not> ?thesis"
      then have "s' = s" using assms by (auto simp: open_node_def split: if_splits)
      then show False using p by simp
    qed
    then have h: "hash_tbl s' = hash_tbl s1" using open_node_hash_tbl [OF assms ct] by simp
    show "is_push_down s" "True \<notin> set (is_null_safe_eq_join s)"
      "\<not> (child0_type env = EXCHANGE_NODE \<and> child1_type env = EXCHANGE_NODE)"
      "\<not> check_has_vectorized_scan_child env"
      using en by (simp_all add: push_down_enabled_def)
    show "hash_tbl_size (hash_tbl s') \<le> 1024 \<or> child1_conjunct_ctxs_size env \<noteq> 0"
      using sz h by (auto simp: hash_tbl_size_def)
  }
  {
    assume a: "push_down_enabled env s
            \<and> exec_node_open env = OK \<and> debug_action_open env = OK \<and> \<not> is_cancelled env
            \<and> expr_open_build env = OK \<and> expr_open_probe env = OK \<and> expr_open_other env = OK
            \<and> fst (construct_hash_table env (s\<lparr>node_eos := False\<rparr>)) = OK
            \<and> \<not> (hash_tbl s' = [] \<and> join_op s = INNER_JOIN)
            \<and> (hash_tbl_size (hash_tbl s') \<le> 1024 \<or> child1_conjunct_ctxs_size env \<noteq> 0)
            \<and> (\<forall>e\<in>set (probe_expr_ctxs s). in_pred_prepare env e = OK)"
    then have ts: "ts = OK" using ct by simp
    have h: "hash_tbl s' = hash_tbl s1" using open_node_hash_tbl [OF assms ct] a by simp
    have r: "pushed_down s' = pushed_down s @ [push_down_expr_ctxs s']
         \<and> length (push_down_expr_ctxs s') = length (push_down_expr_ctxs s) + length (probe_expr_ctxs s)"
      using open_node_pushes [OF assms ct [unfolded ts]] a h by (simp add: hash_tbl_size_def)
    show "pushed_down s' = pushed_down s @ [push_down_expr_ctxs s']" using r by simp
    show "length (push_down_expr_ctxs s')
                = length (push_down_expr_ctxs s) + length (probe_expr_ctxs s)" using r by simp
  }
qed

text \<open>
  The theorem at a table of the two rows 5 and 3: the predicate of the probe expression
  holds the two values and is pushed down.
\<close>

theorem push_down_only_when_enabled_witness:
  "\<exists>s'. open_node (example_join_env 0 (\<lambda>row. True))
          (example_join_node RIGHT_OUTER_JOIN True [(OK, [3], True)] [(OK, [5, 3], True)])
        = Some (OK, s')
      \<and> pushed_down s' = [[((), [3, 5])]]
      \<and> is_push_down (example_join_node RIGHT_OUTER_JOIN True [(OK, [3], True)] [(OK, [5, 3], True)])
      \<and> hash_tbl_size (hash_tbl s') \<le> 1024"
proof -
  let ?env = "example_join_env 0 (\<lambda>row. True)"
  let ?s = "example_join_node RIGHT_OUTER_JOIN True [(OK, [3], True)] [(OK, [5, 3], True)]"
  have u: "[0..<2] = [0, 1]" by (simp add: upt_conv_Cons)
  have "\<exists>s'. open_node ?env ?s = Some (OK, s') \<and> pushed_down s' = [[((), [3, 5])]]
          \<and> hash_tbl s' = [(5, False), (3, False)]"
    by (simp add: open_node_def example_join_env_def example_join_node_def construct_hash_table_def
        process_build_batch_rows disable_push_down_def hash_tbl_size_def push_down_def
        fill_in_preds_def insert_row_values_def hash_tbl_begin_def hash_tbl_find_def u Let_def)
  then obtain s' where o: "open_node ?env ?s = Some (OK, s')"
    and p: "pushed_down s' = [[((), [3, 5])]]" and h: "hash_tbl s' = [(5, False), (3, False)]"
    by blast
  have c: "pushed_down s' \<noteq> pushed_down ?s" "child1_conjunct_ctxs_size ?env = 0"
    using p by (simp_all add: example_join_node_def example_join_env_def)
  from push_down_only_when_enabled [OF o] c
  have "is_push_down ?s \<and> hash_tbl_size (hash_tbl s') \<le> 1024" by simp
  then show ?thesis using o p by blast
qed

end
